(* ===== verification/Prelude.thy ===== *)
theory Prelude
  imports Main "HOL-Library.Word" "HOL-Library.Multiset"
begin

unbundle bit_operations_syntax

text \<open>
  The shared base of the development: names for the C integer types, the collections the
  component proofs draw on, facts about unsigned arithmetic that does not wrap, and the ordered
  insertion every run queue and the timer list of the program use.
\<close>

section \<open>C integer types\<close>

text \<open>
  Unsigned C integers are words of their width; addition, subtraction and multiplication wrap.
  An \<open>int64_t\<close> is also held as a 64-bit word and read by \<open>sint\<close> where the code compares it.
\<close>

type_synonym u8 = "8 word"
type_synonym u16 = "16 word"
type_synonym u32 = "32 word"
type_synonym u64 = "64 word"
type_synonym s32 = "32 word"
type_synonym s64 = "64 word"

abbreviation UINT32_MAX :: u32 where "UINT32_MAX \<equiv> - 1"
abbreviation UINT64_MAX :: u64 where "UINT64_MAX \<equiv> - 1"

named_theorems u64_simps \<open>reading non-wrapping 64-bit arithmetic in the natural numbers\<close>
named_theorems frame_simps \<open>what an operation leaves unchanged\<close>
named_theorems queue_simps \<open>contents of a run queue after an operation\<close>

lemma unat_add_nowrap [u64_simps]:
  fixes a b :: "'l::len word"
  shows "unat a + unat b < 2 ^ LENGTH('l) \<Longrightarrow> unat (a + b) = unat a + unat b"
  by (simp add: unat_word_ariths)

lemma unat_mult_nowrap [u64_simps]:
  fixes a b :: "'l::len word"
  shows "unat a * unat b < 2 ^ LENGTH('l) \<Longrightarrow> unat (a * b) = unat a * unat b"
  by (simp add: unat_word_ariths)

lemma unat_diff_le [u64_simps]:
  fixes a b :: "'l::len word"
  shows "b \<le> a \<Longrightarrow> unat (a - b) = unat a - unat b"
  by (simp add: unat_sub_if' word_le_nat_alt)

lemma unat_max_word: "unat (- 1 :: 'l::len word) = 2 ^ LENGTH('l) - 1"
  by (simp add: unsigned_minus_1_eq_mask mask_eq_exp_minus_1)

lemma le_max_minus_iff:
  fixes a b :: "'l::len word"
  shows "a \<le> - 1 - b \<longleftrightarrow> unat a + unat b < 2 ^ LENGTH('l)"
proof -
  have "unat (- 1 - b) = 2 ^ LENGTH('l) - 1 - unat b"
    by (simp add: unat_diff_le unat_max_word)
  moreover have "unat b < 2 ^ LENGTH('l)" by (rule unsigned_less)
  ultimately show ?thesis unfolding word_le_nat_alt by linarith
qed

lemma gt_max_minus_iff:
  fixes a b :: "'l::len word"
  shows "a > - 1 - b \<longleftrightarrow> 2 ^ LENGTH('l) \<le> unat a + unat b"
  using le_max_minus_iff [of a b] by (simp add: not_le [symmetric])

text \<open>The idiom \<open>if (a > MAX - b) MAX else a + b\<close> of the program's counters.\<close>

definition sat_add :: "'l::len word \<Rightarrow> 'l word \<Rightarrow> 'l word" where
  "sat_add a b = (if a > - 1 - b then - 1 else a + b)"

lemma unat_sat_add:
  fixes a b :: "'l::len word"
  shows "unat (sat_add a b) = min (unat a + unat b) (2 ^ LENGTH('l) - 1)"
proof (cases "a > - 1 - b")
  case True
  then have "2 ^ LENGTH('l) \<le> unat a + unat b" by (simp only: gt_max_minus_iff)
  with True show ?thesis by (simp add: sat_add_def unat_max_word)
next
  case False
  then have "unat a + unat b < 2 ^ LENGTH('l)" by (simp only: gt_max_minus_iff not_le)
  with False show ?thesis by (simp add: sat_add_def unat_add_nowrap)
qed

lemma sat_add_ge:
  fixes a b :: "'l::len word"
  shows "a \<le> sat_add a b"
proof -
  have "unat a < 2 ^ LENGTH('l)" by (rule unsigned_less)
  then have "unat a \<le> 2 ^ LENGTH('l) - 1" by linarith
  then show ?thesis unfolding word_le_nat_alt unat_sat_add by simp
qed

text \<open>
  The idiom \<open>d + ((n - d) / p + 1) * p\<close> that moves a deadline over the periods missed: the first
  point of the grid after \<open>n\<close>.
\<close>

lemma next_grid_point:
  fixes d n p :: "'l::len word"
  assumes "d \<le> n" and "0 < p" and "unat n + unat p < 2 ^ LENGTH('l)"
  shows "unat (d + ((n - d) div p + 1) * p) = unat d + ((unat n - unat d) div unat p + 1) * unat p"
    and "n < d + ((n - d) div p + 1) * p"
    and "unat (d + ((n - d) div p + 1) * p) \<le> unat n + unat p"
proof -
  define k where "k = (unat n - unat d) div unat p"
  have p: "0 < unat p" and dn: "unat d \<le> unat n" using assms by (simp_all add: word_less_nat_alt word_le_nat_alt)
  have kp: "k * unat p \<le> unat n - unat d" unfolding k_def by (rule div_times_less_eq_dividend)
  have lt: "unat n - unat d < (k + 1) * unat p"
    using dividend_less_div_times [OF p, of "unat n - unat d"] by (simp add: k_def algebra_simps)
  have b: "unat d + (k + 1) * unat p \<le> unat n + unat p" using kp dn by simp
  have "k + 1 \<le> (k + 1) * unat p" using mult_le_mono2 [of 1 "unat p" "k + 1"] p by simp
  then have kb: "k + 1 < 2 ^ LENGTH('l)" "(k + 1) * unat p < 2 ^ LENGTH('l)" using b assms(3) by linarith+
  have "unat ((n - d) div p) = k" using assms(1) by (simp add: k_def unat_div_distrib unat_diff_le)
  then have "unat ((n - d) div p + 1) = k + 1" using kb by (subst unat_add_nowrap) auto
  then have m: "unat (((n - d) div p + 1) * p) = (k + 1) * unat p" using kb by (subst unat_mult_nowrap) simp_all
  show eq: "unat (d + ((n - d) div p + 1) * p) = unat d + ((unat n - unat d) div unat p + 1) * unat p"
    using b assms(3) unfolding k_def [symmetric] m [symmetric] by (intro unat_add_nowrap) (simp add: m)
  show "n < d + ((n - d) div p + 1) * p" unfolding word_less_nat_alt eq k_def [symmetric] using lt dn by linarith
  show "unat (d + ((n - d) div p + 1) * p) \<le> unat n + unat p" unfolding eq k_def [symmetric] by (rule b)
qed

section \<open>Error numbers (include/lib/errno.h)\<close>

definition EPERM :: int where "EPERM = 1"
definition EIO :: int where "EIO = 5"
definition EBUSY :: int where "EBUSY = 16"
definition ENODEV :: int where "ENODEV = 19"
definition EINVAL :: int where "EINVAL = 22"
definition ENOTSUP :: int where "ENOTSUP = 95"

lemmas errno_defs = EPERM_def EIO_def EBUSY_def ENODEV_def EINVAL_def ENOTSUP_def

section \<open>Ordered insertion\<close>

text \<open>
  The loop \<open>list_for_each(pos, head) if (p(pos)) { list_add_node(x, pos->prev, pos); return; }\<close>
  followed by \<open>list_add_tail(x, head)\<close>: the new node goes in front of the first node that
  satisfies \<open>p\<close>, or to the tail.
\<close>

fun insert_before :: "('a \<Rightarrow> bool) \<Rightarrow> 'a \<Rightarrow> 'a list \<Rightarrow> 'a list" where
  "insert_before p x [] = [x]"
| "insert_before p x (y # ys) = (if p y then x # y # ys else y # insert_before p x ys)"

lemma set_insert_before [simp]: "set (insert_before p x xs) = insert x (set xs)"
  by (induction xs) auto

lemma mset_insert_before: "mset (insert_before p x xs) = add_mset x (mset xs)"
  by (induction xs) auto

lemma distinct_insert_before [simp]:
  "distinct (insert_before p x xs) \<longleftrightarrow> x \<notin> set xs \<and> distinct xs"
  by (induction xs) auto

lemma insert_before_not_Nil [simp]: "insert_before p x xs \<noteq> []"
  by (cases xs) auto

lemma length_insert_before [simp]: "length (insert_before p x xs) = Suc (length xs)"
  by (induction xs) auto

lemma insert_before_split:
  "insert_before p x xs = takeWhile (\<lambda>y. \<not> p y) xs @ x # dropWhile (\<lambda>y. \<not> p y) xs"
  by (induction xs) auto

lemma insert_before_cong:
  "(\<And>y. y \<in> set xs \<Longrightarrow> p y = q y) \<Longrightarrow> insert_before p x xs = insert_before q x xs"
  by (induction xs) auto

lemma remove1_insert_before:
  "x \<notin> set xs \<Longrightarrow> remove1 x (insert_before p x xs) = xs"
  by (induction xs) auto

lemma sorted_wrt_remove1:
  "sorted_wrt R xs \<Longrightarrow> sorted_wrt R (remove1 x xs)"
  by (induction xs) (auto dest: set_remove1_subset [THEN subsetD])

lemma sorted_wrt_insert_before:
  assumes "sorted_wrt R xs" and "transp R"
    and "\<And>y. y \<in> set xs \<Longrightarrow> p y \<Longrightarrow> R x y" and "\<And>y. y \<in> set xs \<Longrightarrow> \<not> p y \<Longrightarrow> R y x"
  shows "sorted_wrt R (insert_before p x xs)"
  using assms(1,3,4)
proof (induction xs)
  case (Cons y ys)
  then have "R x z" if "p y" "z \<in> set ys" for z
    using that transpD [OF assms(2), of x y z] by simp
  with Cons show ?case by (cases "p y") auto
qed simp

text \<open>
  A run queue is ordered by a key that grows from head to tail; a node of an equal key goes
  behind its equals. Every ordered queue of the program is an instance: \<open>ahead x y\<close> says that
  a new node \<open>x\<close> is put in front of \<open>y\<close>.
\<close>

definition in_order :: "('a \<Rightarrow> 'a \<Rightarrow> bool) \<Rightarrow> 'a list \<Rightarrow> bool" where
  "in_order ahead = sorted_wrt (\<lambda>x y. \<not> ahead y x)"

locale queue_order =
  fixes ahead :: "'a \<Rightarrow> 'a \<Rightarrow> bool"
  assumes ahead_asym: "ahead x y \<Longrightarrow> \<not> ahead y x"
    and ahead_negtrans: "\<not> ahead x y \<Longrightarrow> \<not> ahead y z \<Longrightarrow> \<not> ahead x z"
begin

lemma order_remove: "in_order ahead xs \<Longrightarrow> in_order ahead (remove1 x xs)"
  unfolding in_order_def by (rule sorted_wrt_remove1)

lemma order_tl: "in_order ahead (x # xs) \<Longrightarrow> in_order ahead xs"
  by (simp add: in_order_def)

lemma order_hd: "in_order ahead (x # xs) \<Longrightarrow> y \<in> set (x # xs) \<Longrightarrow> \<not> ahead y x"
  using ahead_asym by (auto simp: in_order_def)

lemma order_insert:
  assumes "in_order ahead xs"
  shows "in_order ahead (insert_before (ahead x) x xs)"
  using assms unfolding in_order_def
proof (rule sorted_wrt_insert_before)
  show "transp (\<lambda>x y. \<not> ahead y x)" using ahead_negtrans by (auto intro: transpI)
qed (auto dest: ahead_asym)

text \<open>
  Equal keys leave in the order they came: a new node goes behind everything it is not ahead of.
\<close>

lemma order_behind:
  assumes "in_order ahead xs" and "y \<in> set (dropWhile (\<lambda>y. \<not> ahead x y) xs)"
  shows "ahead x y"
  using assms
proof (induction xs)
  case (Cons z zs)
  show ?case
  proof (cases "ahead x z")
    case True
    with Cons.prems have "y = z \<or> \<not> ahead y z" by (auto simp: in_order_def)
    with True show ?thesis using ahead_negtrans by blast
  next
    case False
    with Cons show ?thesis by (simp add: in_order_def)
  qed
qed simp

lemma order_position:
  assumes "in_order ahead xs"
  obtains front rear where "xs = front @ rear" "insert_before (ahead x) x xs = front @ x # rear"
    "\<forall>y \<in> set front. \<not> ahead x y" "\<forall>y \<in> set rear. ahead x y"
proof (rule that [of "takeWhile (\<lambda>y. \<not> ahead x y) xs" "dropWhile (\<lambda>y. \<not> ahead x y) xs"])
  show "\<forall>y \<in> set (takeWhile (\<lambda>y. \<not> ahead x y) xs). \<not> ahead x y" by (auto dest: set_takeWhileD)
  show "\<forall>y \<in> set (dropWhile (\<lambda>y. \<not> ahead x y) xs). ahead x y" using order_behind [OF assms] by blast
qed (simp_all add: insert_before_split)

end

lemma in_order_cong:
  "(\<And>x y. x \<in> set xs \<Longrightarrow> y \<in> set xs \<Longrightarrow> f x y = g x y) \<Longrightarrow> in_order f xs = in_order g xs"
  unfolding in_order_def by (induction xs) auto

lemma queue_order_key: "queue_order (\<lambda>x y. (f x :: 'k::linorder) < f y)"
  by unfold_locales auto

end
