(* ===== verification/Machine.thy ===== *)
theory Machine
  imports Prelude
begin

text \<open>
  What the modelled code sees of the machine. \<open>cur_pcpu\<close> is the result of \<open>get_pcpu_id()\<close>. The
  tick counter is a stream of readings: \<open>tsc s 0\<close> is what the next \<open>cpu_ticks()\<close> returns and
  \<open>tick_read\<close> consumes it, so that two reads of one function may differ. \<open>khz\<close> is
  \<open>arch_cpu_tickrate()\<close>. A call that leaves the modelled code (an inter-processor request, a
  context switch, a trace record) is an entry of \<open>evlog\<close>, the newest first. \<open>fault\<close> is set by a
  failed \<open>ASSERT\<close>, by \<open>panic\<close> (which never returns), by a null pointer or by a loop without end: once
  it is set the pCPU has stopped. Spin
  locks are not part of the state: an operation that runs under the scheduler lock is one step.
\<close>

section \<open>State\<close>

datatype thread_ref = Idle nat | Thr nat

datatype hw_event =
    SendReschedule nat
  | TraceSchedNext u32 u32
  | SwitchOut thread_ref
  | SwitchIn thread_ref
  | SwitchTo "thread_ref option" thread_ref "bool option"
  | PmProcessFromIdle nat
  | CpuDead nat
  | ResetVmFromIdle nat
  | ShutdownVmFromIdle nat
  | CpuDoIdle nat
  | SmpCallKick nat
  | ArchInitTimer nat
  | FireHsmInterrupt

datatype fault_kind = Panic string | AssertFailed string | NullDeref | Diverges

record machine =
  cur_pcpu :: nat
  tsc :: "nat \<Rightarrow> u64"
  khz :: u32
  fault :: "fault_kind option"
  evlog :: "hw_event list"

definition cpu_ticks :: "'a machine_scheme \<Rightarrow> u64" where
  "cpu_ticks s = tsc s 0"

definition tick_read :: "'a machine_scheme \<Rightarrow> 'a machine_scheme" where
  "tick_read s = s\<lparr>tsc := (\<lambda>n. tsc s (Suc n))\<rparr>"

definition panic :: "string \<Rightarrow> 'a machine_scheme \<Rightarrow> 'a machine_scheme" where
  "panic msg s = (if fault s = None then s\<lparr>fault := Some (Panic msg)\<rparr> else s)"

definition assertion :: "bool \<Rightarrow> string \<Rightarrow> 'a machine_scheme \<Rightarrow> 'a machine_scheme" where
  "assertion b msg s =
     (if b \<or> fault s \<noteq> None then s else s\<lparr>fault := Some (AssertFailed msg)\<rparr>)"

definition log_event :: "hw_event \<Rightarrow> 'a machine_scheme \<Rightarrow> 'a machine_scheme" where
  "log_event e s = s\<lparr>evlog := e # evlog s\<rparr>"

lemma tick_read_frame [simp]:
  "cur_pcpu (tick_read s) = cur_pcpu s" "khz (tick_read s) = khz s" "fault (tick_read s) = fault s"
  "evlog (tick_read s) = evlog s" "machine.more (tick_read s) = machine.more s"
  by (simp_all add: tick_read_def)

lemma panic_frame [simp]:
  "cur_pcpu (panic m s) = cur_pcpu s" "khz (panic m s) = khz s" "tsc (panic m s) = tsc s"
  "evlog (panic m s) = evlog s" "machine.more (panic m s) = machine.more s"
  "fault (panic m s) \<noteq> None"
  by (auto simp: panic_def)

lemma assertion_frame [simp]:
  "cur_pcpu (assertion b m s) = cur_pcpu s" "khz (assertion b m s) = khz s"
  "tsc (assertion b m s) = tsc s" "evlog (assertion b m s) = evlog s"
  "machine.more (assertion b m s) = machine.more s"
  by (auto simp: assertion_def)

lemma assertion_True [simp]: "assertion True m s = s"
  by (simp add: assertion_def)

lemma log_event_frame [simp]:
  "cur_pcpu (log_event e s) = cur_pcpu s" "khz (log_event e s) = khz s"
  "tsc (log_event e s) = tsc s" "fault (log_event e s) = fault s"
  "machine.more (log_event e s) = machine.more s"
  by (simp_all add: log_event_def)

section \<open>Tick conversion (core/ticks.c)\<close>

definition us_to_ticks :: "u32 \<Rightarrow> u32 \<Rightarrow> u64" where
  "us_to_ticks rate us = (ucast us * ucast rate) div 1000"

definition ticks_to_us :: "u32 \<Rightarrow> u64 \<Rightarrow> u64" where
  "ticks_to_us rate ticks =
     (let khz = ucast rate :: u64 in
      if khz \<noteq> 0 then
        let ms = ticks div khz;
            rem_ticks = ticks mod khz;
            rem_us = (rem_ticks * 1000) div khz
        in if ms > UINT64_MAX div 1000 then UINT64_MAX
           else (let us = ms * 1000 in
                 if us > UINT64_MAX - rem_us then UINT64_MAX else us + rem_us)
      else 0)"

definition ticks_to_ms :: "u32 \<Rightarrow> u64 \<Rightarrow> u64" where
  "ticks_to_ms rate ticks = ticks div ucast rate"

abbreviation TICKS_PER_MS :: "'a machine_scheme \<Rightarrow> u64" where
  "TICKS_PER_MS s \<equiv> us_to_ticks (khz s) 1000"

lemma unat_ucast_u32 [simp]: "unat (ucast (x :: u32) :: u64) = unat x"
proof -
  have "unat x < 2 ^ 32" using unsigned_less [of x] by simp
  then show ?thesis by (simp add: unsigned_ucast_eq take_bit_nat_eq_self)
qed

lemma u32_mult_less: "unat (a :: u32) * unat (b :: u32) < 2 ^ 64"
proof -
  have "unat a < 2 ^ 32" "unat b < 2 ^ 32"
    using unsigned_less [of a] unsigned_less [of b] by simp_all
  then have "unat a * unat b < 2 ^ 32 * 2 ^ 32" by (intro mult_strict_mono) auto
  then show ?thesis by simp
qed

text \<open>The product of two 32-bit values fits in 64 bits, so the conversion never wraps.\<close>

lemma unat_us_to_ticks: "unat (us_to_ticks rate us) = unat us * unat rate div 1000"
proof -
  have "unat (ucast us * ucast rate :: u64) = unat us * unat rate"
    using u32_mult_less [of us rate] by (subst unat_mult_nowrap) auto
  then show ?thesis by (simp add: us_to_ticks_def unat_div)
qed

lemma us_to_ticks_mono: "us \<le> us' \<Longrightarrow> us_to_ticks rate us \<le> us_to_ticks rate us'"
  by (simp add: word_le_nat_alt unat_us_to_ticks div_le_mono)

text \<open>Saturation apart, the two-step division is the exact quotient.\<close>

lemma ticks_to_us_split:
  fixes k t :: nat assumes "k > 0"
  shows "t * 1000 div k = t div k * 1000 + (t mod k * 1000) div k"
proof -
  have "t * 1000 = (t div k * 1000) * k + t mod k * 1000"
    by (metis add_mult_distrib div_mult_mod_eq mult.assoc mult.commute)
  with assms show ?thesis by simp
qed

lemma unat_ticks_to_us:
  assumes "rate \<noteq> 0"
  shows "unat (ticks_to_us rate t) = min (unat t * 1000 div unat rate) (2 ^ 64 - 1)"
proof -
  let ?k = "unat rate" and ?t = "unat t"
  define ms rem_us :: u64 where "ms = t div ucast rate"
    and "rem_us = ((t mod ucast rate) * 1000) div ucast rate"
  have k: "0 < ?k" "?k < 2 ^ 32"
    using assms unsigned_less [of rate] by (auto simp: unat_gt_0)
  have ms: "unat ms = ?t div ?k" by (simp add: ms_def unat_div)
  have "?t mod ?k < 4294967296"
    using k mod_less_divisor [OF k(1), of ?t] by (auto intro: less_trans)
  then have "?t mod ?k * 1000 < 2 ^ 64" by simp
  then have "unat ((t mod ucast rate) * 1000 :: u64) = ?t mod ?k * 1000"
    by (subst unat_mult_nowrap) (auto simp: unat_mod)
  then have rm: "unat rem_us = (?t mod ?k * 1000) div ?k" by (simp add: rem_us_def unat_div)
  have nz: "(ucast rate :: u64) \<noteq> 0" using k unat_ucast_u32 [of rate] by fastforce
  have eq: "ticks_to_us rate t = (if ms > UINT64_MAX div 1000 then UINT64_MAX else sat_add (ms * 1000) rem_us)"
    using nz by (simp add: ticks_to_us_def sat_add_def ms_def rem_us_def Let_def)
  have split: "?t * 1000 div ?k = unat ms * 1000 + unat rem_us"
    using ticks_to_us_split [OF k(1), of ?t] ms rm by simp
  have lim: "unat (UINT64_MAX div 1000) = (2 ^ 64 - 1) div 1000"
    by (simp add: unat_div unat_max_word)
  show ?thesis
  proof (cases "ms > UINT64_MAX div 1000")
    case True
    then have "(2 ^ 64 - 1) div 1000 < unat ms" by (simp only: word_less_nat_alt lim)
    then have "2 ^ 64 - 1 \<le> unat ms * 1000" by simp
    with True split show ?thesis by (simp add: eq unat_max_word)
  next
    case False
    then have "unat ms \<le> (2 ^ 64 - 1) div 1000" by (simp only: word_less_nat_alt lim not_less)
    then have "unat ms * 1000 < 2 ^ 64" by simp
    then have "unat (ms * 1000) = unat ms * 1000" by (subst unat_mult_nowrap) auto
    with False split show ?thesis by (simp add: eq unat_sat_add)
  qed
qed

lemma unat_ticks_to_us_le:
  "rate \<noteq> 0 \<Longrightarrow> unat t * 1000 div unat rate < 2 ^ 64 \<Longrightarrow>
     unat (ticks_to_us rate t) = unat t * 1000 div unat rate"
  by (simp add: unat_ticks_to_us)

text \<open>
  A duration that goes through both conversions loses at most one microsecond where the counter
  runs at 1 MHz or more, and never grows.
\<close>

lemma ticks_us_error:
  fixes us k :: nat assumes "1000 \<le> k"
  shows "us * k div 1000 * 1000 div k \<le> us" and "us \<le> us * k div 1000 * 1000 div k + 1"
proof -
  define a where "a = us * k div 1000 * 1000"
  have "a \<le> us * k" by (simp add: a_def)
  then have "a div k \<le> us * k div k" by (rule div_le_mono)
  then show "us * k div 1000 * 1000 div k \<le> us" using assms by (simp add: a_def)
  have "us * k < a + 1000" using dividend_less_div_times [of 1000 "us * k"] by (simp add: a_def)
  also have "a + 1000 \<le> a + k" using assms by simp
  also have "a + k < (k + a div k * k) + k" using assms by (simp add: dividend_less_div_times)
  finally have "us * k < (a div k + 2) * k" by (simp add: algebra_simps)
  then have "us < a div k + 2" by (simp only: mult_less_cancel2)
  then show "us \<le> us * k div 1000 * 1000 div k + 1" by (simp add: a_def)
qed

section \<open>Properties\<close>

text \<open>
  At a tick rate of 1 MHz or more, a duration in microseconds that is converted to ticks and
  back never grows and loses at most one microsecond; no step of the two conversions wraps around.
\<close>

theorem us_ticks_round_trip:
  assumes "1000 \<le> rate"
  shows "ticks_to_us rate (us_to_ticks rate us) \<le> ucast us
    \<and> unat us \<le> unat (ticks_to_us rate (us_to_ticks rate us)) + 1"
proof -
  let ?k = "unat rate" and ?u = "unat us"
  have k: "1000 \<le> ?k" "rate \<noteq> 0" using assms by (auto simp: word_le_nat_alt)
  note E = ticks_us_error [OF k(1), of ?u]
  have "?u < 2 ^ 32" using unsigned_less [of us] by simp
  then have "unat (ticks_to_us rate (us_to_ticks rate us)) = ?u * ?k div 1000 * 1000 div ?k"
    using E(1) by (simp add: unat_ticks_to_us [OF k(2)] unat_us_to_ticks)
  then show ?thesis using E by (simp add: word_le_nat_alt)
qed

end
