(* ===== verification/Walk.thy ===== *)
theory Walk
  imports Prelude
begin

text \<open>
  The loop \<open>list_for_each_safe(pos, n, head)\<close> whose body may take the node at \<open>pos\<close> off the list
  and link it elsewhere. The walk keeps the node after \<open>pos\<close> in \<open>n\<close> and reads \<open>n->next\<close> only when it
  moves on, so a node put back further down is met again. \<open>q\<close> reads the list from the state; \<open>None\<close>
  for a node is the list head, and the next node of a node on no list is the node itself. The
  result \<open>None\<close> is a walk without end.
\<close>

fun succ_in :: "'a list \<Rightarrow> 'a \<Rightarrow> 'a option" where
  "succ_in [] x = None"
| "succ_in (y # ys) x =
     (if y = x then (case ys of [] \<Rightarrow> None | z # _ \<Rightarrow> Some z) else succ_in ys x)"

definition next_node :: "'a list \<Rightarrow> 'a \<Rightarrow> 'a option" where
  "next_node xs x = (if x \<in> set xs then succ_in xs x else Some x)"

partial_function (option) walk_safe ::
  "('s \<Rightarrow> 'a list) \<Rightarrow> ('a \<Rightarrow> 's \<Rightarrow> 's) \<Rightarrow> 'a option \<Rightarrow> 'a option \<Rightarrow> 's \<Rightarrow> 's option" where
  "walk_safe q body pos n s =
     (case pos of
        None \<Rightarrow> Some s
      | Some x \<Rightarrow>
          let s' = body x s
          in walk_safe q body n (case n of None \<Rightarrow> None | Some y \<Rightarrow> next_node (q s') y) s')"

definition for_each_safe :: "('s \<Rightarrow> 'a list) \<Rightarrow> ('a \<Rightarrow> 's \<Rightarrow> 's) \<Rightarrow> 's \<Rightarrow> 's option" where
  "for_each_safe q body s =
     (case q s of [] \<Rightarrow> Some s | x # _ \<Rightarrow> walk_safe q body (Some x) (next_node (q s) x) s)"

lemma succ_in_mid: "distinct (ys @ x # zs) \<Longrightarrow> succ_in (ys @ x # zs) x = (case zs of [] \<Rightarrow> None | z # _ \<Rightarrow> Some z)"
  by (induction ys) auto

lemma walk_safe_simps [simp]:
  "walk_safe q body None n s = Some s"
  "walk_safe q body (Some x) n s =
     walk_safe q body n (case n of None \<Rightarrow> None | Some y \<Rightarrow> next_node (q (body x s)) y) (body x s)"
  by (simp_all add: walk_safe.simps [of q body None] walk_safe.simps [of q body "Some x"] Let_def)

lemma succ_in_SomeD: "succ_in xs x = Some y \<Longrightarrow> distinct xs \<Longrightarrow> y \<in> set xs \<and> y \<noteq> x"
  by (induction xs) (auto split: if_splits list.splits)

section \<open>What the body keeps, the walk keeps\<close>

lemma walk_safe_keeps:
  assumes "walk_safe q body pos n s = Some s'" and step: "\<And>x s. P s \<Longrightarrow> P (body x s)" and "P s"
  shows "P s'"
proof -
  have "body' = body \<longrightarrow> P s \<longrightarrow> P s'" if "walk_safe q' body' pos n s = Some s'" for q' body' pos n s s'
    by (rule walk_safe.raw_induct [where P = "\<lambda>q' body' pos n s s'. body' = body \<longrightarrow> P s \<longrightarrow> P s'", OF _ that])
      (use step in \<open>auto simp: Let_def split: option.splits\<close>)
  then show ?thesis using assms by blast
qed

lemma for_each_safe_keeps:
  assumes "for_each_safe q body s = Some s'" and "\<And>x s. P s \<Longrightarrow> P (body x s)" and "P s"
  shows "P s'"
proof (cases "q s")
  case (Cons x xs)
  then show ?thesis using assms walk_safe_keeps [of q body "Some x" "next_node (q s) x" s s' P]
    by (simp add: for_each_safe_def)
qed (use assms in \<open>simp add: for_each_safe_def\<close>)

lemma walk_safe_invariant:
  assumes run: "walk_safe q body pos n s = Some s'"
    and P: "\<And>x s. P s \<Longrightarrow> x \<in> set (q s) \<Longrightarrow> P (body x s)"
    and D: "\<And>s. P s \<Longrightarrow> distinct (q s)"
    and K: "\<And>x y s. P s \<Longrightarrow> x \<in> set (q s) \<Longrightarrow> y \<in> set (q s) \<Longrightarrow> y \<noteq> x \<Longrightarrow> y \<in> set (q (body x s))"
    and "P s" and "pos \<noteq> None \<Longrightarrow> the pos \<in> set (q s) \<and> n = succ_in (q s) (the pos)"
  shows "P s'"
proof -
  have "q' = q \<longrightarrow> body' = body \<longrightarrow> P s \<longrightarrow>
      (pos \<noteq> None \<longrightarrow> the pos \<in> set (q s) \<and> n = succ_in (q s) (the pos)) \<longrightarrow> P s'"
    if "walk_safe q' body' pos n s = Some s'" for q' body' pos n s s'
  proof (rule walk_safe.raw_induct [where P = "\<lambda>q' body' pos n s s'. q' = q \<longrightarrow> body' = body \<longrightarrow> P s \<longrightarrow>
      (pos \<noteq> None \<longrightarrow> the pos \<in> set (q s) \<and> n = succ_in (q s) (the pos)) \<longrightarrow> P s'", OF _ that], intro impI)
    fix f q' body' pos n s s'
    assume ih: "\<And>q' body' pos n s s'. f q' body' pos n s = Some s' \<Longrightarrow> q' = q \<longrightarrow> body' = body \<longrightarrow> P s \<longrightarrow>
        (pos \<noteq> None \<longrightarrow> the pos \<in> set (q s) \<and> n = succ_in (q s) (the pos)) \<longrightarrow> P s'"
      and step: "(case pos of None \<Rightarrow> Some s | Some x \<Rightarrow> let s' = body' x s
          in f q' body' n (case n of None \<Rightarrow> None | Some y \<Rightarrow> next_node (q' s') y) s') = Some s'"
      and eq: "q' = q" "body' = body" and ps: "P s"
      and pos: "pos \<noteq> None \<longrightarrow> the pos \<in> set (q s) \<and> n = succ_in (q s) (the pos)"
    show "P s'"
    proof (cases pos)
        case None
        then show ?thesis using step ps by simp
      next
        case (Some x)
        let ?s = "body x s" and ?m = "case n of None \<Rightarrow> None | Some y \<Rightarrow> next_node (q (body x s)) y"
        have x: "x \<in> set (q s)" "n = succ_in (q s) x" using pos Some by auto
        have "f q body n ?m ?s = Some s'" using step [unfolded eq Some] by (simp add: Let_def)
        note IH = ih [OF this]
        have "P ?s" by (rule P [OF ps x(1)])
        moreover have "y \<in> set (q ?s) \<and> ?m = succ_in (q ?s) y" if "n = Some y" for y
          using that x succ_in_SomeD [of "q s" x y] D [OF ps] K [OF ps x(1), of y] by (simp add: next_node_def)
        ultimately show ?thesis using IH by (cases n) auto
    qed
  qed
  with run assms(5,6) show ?thesis by blast
qed

lemma for_each_safe_invariant:
  assumes "for_each_safe q body s = Some s'"
    and "\<And>x s. P s \<Longrightarrow> x \<in> set (q s) \<Longrightarrow> P (body x s)"
    and "\<And>s. P s \<Longrightarrow> distinct (q s)"
    and "\<And>x y s. P s \<Longrightarrow> x \<in> set (q s) \<Longrightarrow> y \<in> set (q s) \<Longrightarrow> y \<noteq> x \<Longrightarrow> y \<in> set (q (body x s))"
    and "P s"
  shows "P s'"
proof (cases "q s")
  case (Cons x xs)
  then have "walk_safe q body (Some x) (succ_in (q s) x) s = Some s'"
    using assms(1) by (simp add: for_each_safe_def next_node_def)
  from walk_safe_invariant [OF this assms(2-5)] Cons show ?thesis by auto
qed (use assms in \<open>simp add: for_each_safe_def\<close>)

section \<open>The walk as a fold\<close>

lemma remove1_around:
  assumes "remove1 x xs = ys @ z # zs" and "distinct xs" and "x \<noteq> z"
  obtains us ws where "xs = us @ z # ws" "remove1 x ws = zs" "x \<in> set xs \<or> us = ys"
proof -
  have "z \<in> set (remove1 x xs)" using assms(1) by simp
  then have "z \<in> set xs" using notin_set_remove1 by fast
  then obtain us ws where xs: "xs = us @ z # ws" by (meson split_list)
  have d: "z \<notin> set us" "z \<notin> set ws" "distinct us" "distinct ws" "set us \<inter> set ws = {}" using assms(2) xs by auto
  have dr: "distinct (ys @ z # zs)" using assms(1,2) by (metis distinct_remove1)
  have "remove1 x xs = (if x \<in> set us then remove1 x us @ z # ws else us @ z # remove1 x ws)"
    using assms(3) by (auto simp: xs remove1_append)
  moreover have "z \<notin> set ys" "z \<notin> set zs" using dr by auto
  ultimately have "ws = zs \<and> x \<in> set us \<or> us = ys \<and> remove1 x ws = zs"
    using assms(1) append_Cons_eq_iff [of z ys zs] by (auto split: if_splits)
  moreover have "remove1 x ws = ws" if "x \<in> set us" using d that by (intro remove1_idem) blast
  ultimately show thesis using that xs by auto
qed

text \<open>
  A node that has had its turn (\<open>settled\<close>) is left alone when the walk meets it again. Then the walk
  ends and does what the body does on the nodes the list had, once each and in order.
\<close>

lemma walk_safe_fold:
  assumes P: "\<And>x s. P s \<Longrightarrow> x \<in> set (q s) \<Longrightarrow> P (body x s)"
    and D: "\<And>s. P s \<Longrightarrow> distinct (q s)"
    and R: "\<And>x s. P s \<Longrightarrow> x \<in> set (q s) \<Longrightarrow> remove1 x (q (body x s)) = remove1 x (q s)"
    and S1: "\<And>x s. P s \<Longrightarrow> x \<in> set (q s) \<Longrightarrow> settled x (body x s)"
    and S2: "\<And>x s. P s \<Longrightarrow> x \<in> set (q s) \<Longrightarrow> settled x s \<Longrightarrow> body x s = s"
    and S3: "\<And>x y s. P s \<Longrightarrow> x \<in> set (q s) \<Longrightarrow> y \<noteq> x \<Longrightarrow> settled y (body x s) = settled y s"
    and "P s" and "q s = ys @ x # xs"
  shows "walk_safe q body (Some x) (next_node (q s) x) s
    = Some (fold body (filter (\<lambda>y. \<not> settled y s) (x # xs)) s)"
  using assms(7,8)
proof (induction "length (filter (\<lambda>y. \<not> settled y s) (x # xs)) + length xs" arbitrary: x xs ys s rule: less_induct)
  case less
  let ?s = "body x s"
  have x: "x \<in> set (q s)" and d: "distinct (ys @ x # xs)" using less.prems D [of s] by auto
  have nx: "next_node (q s) x = (case xs of [] \<Rightarrow> None | z # _ \<Rightarrow> Some z)"
    using x less.prems(2) succ_in_mid [OF d] by (simp add: next_node_def)
  have fs: "fold body (filter (\<lambda>y. \<not> settled y s) (x # xs)) s = fold body (filter (\<lambda>y. \<not> settled y s) xs) ?s"
    using S2 [OF less.prems(1) x] by simp
  show ?case
  proof (cases xs)
    case Nil
    then show ?thesis using nx fs by simp
  next
    case (Cons z zs)
    have "remove1 x (q ?s) = ys @ z # zs"
      using R [OF less.prems(1) x] d less.prems(2) Cons by (simp add: remove1_append)
    moreover have "distinct (q ?s)" "x \<noteq> z" using D [OF P [OF less.prems(1) x]] d Cons by auto
    ultimately obtain us ws where qs: "q ?s = us @ z # ws" and ws: "remove1 x ws = zs" by (rule remove1_around)
    have keep: "filter (\<lambda>y. \<not> settled y ?s) (z # ws) = filter (\<lambda>y. \<not> settled y s) (z # zs)"
    proof -
      have "filter (\<lambda>y. \<not> settled y ?s) (z # ws) = filter (\<lambda>y. \<not> settled y ?s) (z # zs)"
        using S1 [OF less.prems(1) x] ws filter_remove1 [of "\<lambda>y. \<not> settled y ?s" x ws]
        by (simp add: remove1_idem)
      also have "\<dots> = filter (\<lambda>y. \<not> settled y s) (z # zs)"
      proof (rule filter_cong [OF refl])
        fix y assume "y \<in> set (z # zs)"
        then have "y \<noteq> x" using d Cons by auto
        from S3 [OF less.prems(1) x this] show "(\<not> settled y ?s) = (\<not> settled y s)" by simp
      qed
      finally show ?thesis .
    qed
    have len: "length ws \<le> Suc (length zs)" using ws by (auto simp: length_remove1 split: if_splits)
    have "length (filter (\<lambda>y. \<not> settled y ?s) (z # ws)) + length ws
        < length (filter (\<lambda>y. \<not> settled y s) (x # xs)) + length xs"
    proof (cases "settled x s")
      case True
      then have "?s = s" by (rule S2 [OF less.prems(1) x])
      then have "(ys @ [x]) @ z # zs = us @ z # ws" using qs less.prems(2) Cons by simp
      then have "ws = zs" using append_Cons_eq_iff [of z us ws "ys @ [x]" zs] d Cons by simp
      then show ?thesis using True \<open>?s = s\<close> Cons by simp
    next
      case False
      then show ?thesis using len Cons unfolding keep by simp
    qed
    from less.hyps [OF this P [OF less.prems(1) x] qs] show ?thesis
      using nx fs Cons unfolding keep by simp
  qed
qed

lemma for_each_safe_fold:
  assumes "\<And>x s. P s \<Longrightarrow> x \<in> set (q s) \<Longrightarrow> P (body x s)"
    and "\<And>s. P s \<Longrightarrow> distinct (q s)"
    and "\<And>x s. P s \<Longrightarrow> x \<in> set (q s) \<Longrightarrow> remove1 x (q (body x s)) = remove1 x (q s)"
    and "\<And>x s. P s \<Longrightarrow> x \<in> set (q s) \<Longrightarrow> settled x (body x s)"
    and "\<And>x s. P s \<Longrightarrow> x \<in> set (q s) \<Longrightarrow> settled x s \<Longrightarrow> body x s = s"
    and "\<And>x y s. P s \<Longrightarrow> x \<in> set (q s) \<Longrightarrow> y \<noteq> x \<Longrightarrow> settled y (body x s) = settled y s"
    and "P s"
  shows "for_each_safe q body s = Some (fold body (filter (\<lambda>y. \<not> settled y s) (q s)) s)"
proof (cases "q s")
  case (Cons x xs)
  then show ?thesis
    using walk_safe_fold [of P q body settled s "[]" x xs, OF assms] by (simp add: for_each_safe_def)
qed (simp add: for_each_safe_def)

end
