(* ===== verification/Timer.thy ===== *)
theory Timer
  imports Machine Walk
begin

text \<open>
  The software timers of \<open>core/timer.c\<close>. Each pCPU has a list of started timers, sorted by
  deadline; the hardware timer is programmed with the deadline of its head. A timer is named by a
  reference and lives in the store \<open>timers\<close>; its field \<open>node\<close> says on which pCPU's list its list
  node hangs (\<open>None\<close>: the node points at itself). Callbacks are names of handlers; the softirq takes
  their meaning as an argument. \<open>hw_timer p\<close> is the last value given to \<open>arch_set_timer_count\<close>.
  Trace records of the timer are not modelled.
\<close>

section \<open>State\<close>

datatype timer_ref =
    IorrTick nat | BvtTick nat | RtdsTick nat | CbsTick nat | BfpTick nat | ArincWindow nat
  | OtherTimer nat

datatype timer_fn =
    Iorr_sched_tick_handler | Bvt_sched_tick_handler | Rtds_timer_handler | Cbs_timer_handler
  | Bfp_timer_handler | Arinc653_timer_handler | Other_handler nat

datatype tick_mode = TICK_MODE_ONESHOT | TICK_MODE_PERIODIC

record hv_timer =
  node :: "nat option"
  mode :: tick_mode
  timeout :: u64
  period_in_cycle :: u64
  func :: "timer_fn option"
  priv_data :: nat

record timer_sys = machine +
  timers :: "timer_ref \<Rightarrow> hv_timer"
  timer_list :: "nat \<Rightarrow> timer_ref list"
  hw_timer :: "nat \<Rightarrow> u64 option"

type_synonym 'a timer_callback = "timer_fn \<Rightarrow> nat \<Rightarrow> 'a timer_sys_scheme \<Rightarrow> 'a timer_sys_scheme"

definition MIN_TIMER_PERIOD_US :: u32 where "MIN_TIMER_PERIOD_US = 500"
definition MAX_TIMER_ACTIONS :: nat where "MAX_TIMER_ACTIONS = 32"

definition upd_timer ::
  "timer_ref \<Rightarrow> (hv_timer \<Rightarrow> hv_timer) \<Rightarrow> 'a timer_sys_scheme \<Rightarrow> 'a timer_sys_scheme" where
  "upd_timer t f s = s\<lparr>timers := (timers s)(t := f (timers s t))\<rparr>"

section \<open>Operations\<close>

definition timer_expired :: "hv_timer \<Rightarrow> u64 \<Rightarrow> bool \<times> u64" where
  "timer_expired tm now =
     (if timeout tm \<noteq> 0 \<and> now < timeout tm then (False, timeout tm - now) else (True, 0))"

definition timer_is_started :: "timer_ref \<Rightarrow> 'a timer_sys_scheme \<Rightarrow> bool" where
  "timer_is_started t s \<longleftrightarrow> node (timers s t) \<noteq> None"

definition run_timer ::
  "'a timer_callback \<Rightarrow> timer_ref \<Rightarrow> 'a timer_sys_scheme \<Rightarrow> 'a timer_sys_scheme" where
  "run_timer cb t s =
     (case func (timers s t) of
        None \<Rightarrow> s
      | Some f \<Rightarrow> if timeout (timers s t) \<noteq> 0 then cb f (priv_data (timers s t)) s else s)"

definition advance_periodic_timer :: "hv_timer \<Rightarrow> u64 \<Rightarrow> hv_timer" where
  "advance_periodic_timer tm now =
     (let nxt = timeout tm + period_in_cycle tm;
          nxt = (if nxt \<le> now then
                   (let missed = (now - nxt) div period_in_cycle tm + 1;
                        nxt = nxt + missed * period_in_cycle tm
                    in if nxt \<le> now then now + period_in_cycle tm else nxt)
                 else nxt)
      in tm\<lparr>timeout := nxt\<rparr>)"

definition update_architecture_timer :: "nat \<Rightarrow> 'a timer_sys_scheme \<Rightarrow> 'a timer_sys_scheme" where
  "update_architecture_timer p s =
     (case timer_list s p of
        [] \<Rightarrow> s
      | t # _ \<Rightarrow> s\<lparr>hw_timer := (hw_timer s)(cur_pcpu s := Some (timeout (timers s t)))\<rparr>)"

text \<open>
  The new timer goes behind the timers with an earlier deadline; the result tells whether it
  became the head.
\<close>

definition local_add_timer ::
  "nat \<Rightarrow> timer_ref \<Rightarrow> 'a timer_sys_scheme \<Rightarrow> bool \<times> 'a timer_sys_scheme" where
  "local_add_timer p t s =
     (let tsc = timeout (timers s t);
          xs = timer_list s p;
          earlier = takeWhile (\<lambda>x. timeout (timers s x) < tsc) xs;
          s = s\<lparr>timer_list := (timer_list s)
                 (p := insert_before (\<lambda>x. \<not> timeout (timers s x) < tsc) t xs)\<rparr>
      in (earlier = [], upd_timer t (\<lambda>tm. tm\<lparr>node := Some p\<rparr>) s))"

definition limit_period :: "timer_ref \<Rightarrow> 'a timer_sys_scheme \<Rightarrow> 'a timer_sys_scheme" where
  "limit_period t s =
     (if mode (timers s t) = TICK_MODE_PERIODIC
      then upd_timer t (\<lambda>tm. tm\<lparr>period_in_cycle :=
             max (period_in_cycle tm) (us_to_ticks (khz s) MIN_TIMER_PERIOD_US)\<rparr>) s
      else s)"

definition add_timer ::
  "timer_ref option \<Rightarrow> 'a timer_sys_scheme \<Rightarrow> int \<times> 'a timer_sys_scheme" where
  "add_timer tr s =
     (case tr of
        None \<Rightarrow> (- EINVAL, s)
      | Some t \<Rightarrow>
          if func (timers s t) = None \<or> timeout (timers s t) = 0 then (- EINVAL, s)
          else
            let s = assertion (\<not> timer_is_started t s) ''add timer again!'' s;
                s = limit_period t s;
                (at_head, s) = local_add_timer (cur_pcpu s) t s;
                s = (if at_head then update_architecture_timer (cur_pcpu s) s else s)
            in (0, s))"

definition set_timer_mode :: "u64 \<Rightarrow> u64 \<Rightarrow> hv_timer \<Rightarrow> hv_timer" where
  "set_timer_mode tmo period tm =
     tm\<lparr>timeout := tmo,
        mode := (if period > 0 then TICK_MODE_PERIODIC else TICK_MODE_ONESHOT),
        period_in_cycle := (if period > 0 then period else 0)\<rparr>"

definition initialize_timer ::
  "timer_ref option \<Rightarrow> timer_fn option \<Rightarrow> nat \<Rightarrow> u64 \<Rightarrow> u64 \<Rightarrow> 'a timer_sys_scheme
     \<Rightarrow> 'a timer_sys_scheme" where
  "initialize_timer tr f priv tmo period s =
     (case tr of
        None \<Rightarrow> s
      | Some t \<Rightarrow> upd_timer t (\<lambda>tm. (set_timer_mode tmo period
            (tm\<lparr>func := f, priv_data := priv\<rparr>))\<lparr>node := None\<rparr>) s)"

definition update_timer ::
  "timer_ref option \<Rightarrow> u64 \<Rightarrow> u64 \<Rightarrow> 'a timer_sys_scheme \<Rightarrow> 'a timer_sys_scheme" where
  "update_timer tr tmo period s =
     (case tr of None \<Rightarrow> s | Some t \<Rightarrow> upd_timer t (set_timer_mode tmo period) s)"

definition del_timer :: "timer_ref option \<Rightarrow> 'a timer_sys_scheme \<Rightarrow> 'a timer_sys_scheme" where
  "del_timer tr s =
     (case tr of
        None \<Rightarrow> s
      | Some t \<Rightarrow>
          (case node (timers s t) of
             None \<Rightarrow> s
           | Some p \<Rightarrow>
               let s = s\<lparr>timer_list := (timer_list s)(p := remove1 t (timer_list s p))\<rparr>
               in upd_timer t (\<lambda>tm. tm\<lparr>node := None\<rparr>) s))"

definition init_percpu_timer :: "nat \<Rightarrow> 'a timer_sys_scheme \<Rightarrow> 'a timer_sys_scheme" where
  "init_percpu_timer p s = s\<lparr>timer_list := (timer_list s)(p := [])\<rparr>"

text \<open>
  \<open>list_for_each_safe\<close> keeps the node after the current one in \<open>n\<close>; \<open>None\<close> is the list head. The
  next node of a node that hangs on no list is the node itself.
\<close>

definition timer_next :: "timer_ref option \<Rightarrow> 'a timer_sys_scheme \<Rightarrow> timer_ref option" where
  "timer_next n s =
     (case n of
        None \<Rightarrow> None
      | Some t \<Rightarrow> (case node (timers s t) of None \<Rightarrow> Some t | Some p \<Rightarrow> succ_in (timer_list s p) t))"

text \<open>One round of the loop: the expired timer at \<open>pos\<close> is taken off, run and recycled.\<close>

definition service_timer ::
  "'a timer_callback \<Rightarrow> nat \<Rightarrow> timer_ref \<Rightarrow> u64 \<Rightarrow> 'a timer_sys_scheme \<Rightarrow> u64 \<times> 'a timer_sys_scheme" where
  "service_timer cb p t current_tsc s =
     (let s = del_timer (Some t) s;
          s = run_timer cb t s
      in if timer_is_started t s then (current_tsc, s)
         else if mode (timers s t) = TICK_MODE_PERIODIC then
           let current_tsc = cpu_ticks s;
               s = tick_read s;
               s = upd_timer t (\<lambda>tm. advance_periodic_timer tm current_tsc) s
           in (current_tsc, snd (local_add_timer p t s))
         else (current_tsc, upd_timer t (\<lambda>tm. tm\<lparr>timeout := 0\<rparr>) s))"

text \<open>The round that finds \<open>tries\<close> used up, or a timer that is not due, leaves the loop.\<close>

fun timer_softirq_loop ::
  "'a timer_callback \<Rightarrow> nat \<Rightarrow> nat \<Rightarrow> u64 \<Rightarrow> timer_ref option \<Rightarrow> timer_ref option
     \<Rightarrow> 'a timer_sys_scheme \<Rightarrow> 'a timer_sys_scheme" where
  "timer_softirq_loop cb p 0 current_tsc pos n s = s"
| "timer_softirq_loop cb p (Suc tries) current_tsc pos n s =
     (case pos of
        None \<Rightarrow> s
      | Some t \<Rightarrow>
          if timeout (timers s t) \<le> current_tsc \<and> tries \<noteq> 0 then
            let (current_tsc, s) = service_timer cb p t current_tsc s
            in timer_softirq_loop cb p tries current_tsc n (timer_next n s) s
          else s)"

definition timer_softirq :: "'a timer_callback \<Rightarrow> nat \<Rightarrow> 'a timer_sys_scheme \<Rightarrow> 'a timer_sys_scheme" where
  "timer_softirq cb p s =
     (let current_tsc = cpu_ticks s;
          s = tick_read s;
          first = (case timer_list s p of [] \<Rightarrow> None | t # _ \<Rightarrow> Some t);
          s = timer_softirq_loop cb p MAX_TIMER_ACTIONS current_tsc first (timer_next first s) s
      in update_architecture_timer p s)"


section \<open>The timer list stays sorted and consistent\<close>

definition timer_inv :: "'a timer_sys_scheme \<Rightarrow> bool" where
  "timer_inv s \<longleftrightarrow>
     (\<forall>p. distinct (timer_list s p)
        \<and> sorted_wrt (\<lambda>x y. timeout (timers s x) \<le> timeout (timers s y)) (timer_list s p)
        \<and> (\<forall>t. t \<in> set (timer_list s p) \<longleftrightarrow> node (timers s t) = Some p))
     \<and> (\<forall>t. timer_is_started t s \<longrightarrow> func (timers s t) \<noteq> None)"

text \<open>
  No started timer of a pCPU is due before its hardware timer fires.
\<close>

definition hw_armed :: "nat \<Rightarrow> 'a timer_sys_scheme \<Rightarrow> bool" where
  "hw_armed p s \<longleftrightarrow>
     (\<forall>t \<in> set (timer_list s p). \<exists>d. hw_timer s p = Some d \<and> d \<le> timeout (timers s t))"

lemma upd_timer_simps [simp]:
  "timers (upd_timer t f s) = (timers s)(t := f (timers s t))"
  "timer_list (upd_timer t f s) = timer_list s" "hw_timer (upd_timer t f s) = hw_timer s"
  "cur_pcpu (upd_timer t f s) = cur_pcpu s" "tsc (upd_timer t f s) = tsc s"
  "khz (upd_timer t f s) = khz s" "fault (upd_timer t f s) = fault s"
  "evlog (upd_timer t f s) = evlog s"
  "timer_sys.more (upd_timer t f s) = timer_sys.more s"
  by (simp_all add: upd_timer_def)

lemma tick_read_timer [simp]:
  "timers (tick_read s) = timers s" "timer_list (tick_read s) = timer_list s"
  "hw_timer (tick_read s) = hw_timer s" "timer_sys.more (tick_read s) = timer_sys.more s"
  by (simp_all add: tick_read_def)

lemma assertion_timer [simp]:
  "timers (assertion b m s) = timers s" "timer_list (assertion b m s) = timer_list s"
  "hw_timer (assertion b m s) = hw_timer s" "timer_sys.more (assertion b m s) = timer_sys.more s"
  by (simp_all add: assertion_def)

lemma panic_timer [simp]:
  "timers (panic m s) = timers s" "timer_list (panic m s) = timer_list s"
  "hw_timer (panic m s) = hw_timer s" "timer_sys.more (panic m s) = timer_sys.more s"
  by (simp_all add: panic_def)

lemma timer_inv_node: "timer_inv s \<Longrightarrow> t \<in> set (timer_list s p) \<longleftrightarrow> node (timers s t) = Some p"
  by (simp add: timer_inv_def)

lemma timer_inv_cong:
  "timers s' = timers s \<Longrightarrow> timer_list s' = timer_list s \<Longrightarrow> timer_inv s' = timer_inv s"
  by (simp add: timer_inv_def timer_is_started_def)

lemma timer_inv_tick_read [simp]: "timer_inv (tick_read s) = timer_inv s"
  by (rule timer_inv_cong) simp_all

text \<open>Writing the fields of a timer that is not started.\<close>

lemma timer_inv_upd_unlinked:
  assumes "timer_inv s" and "node (timers s t) = None" and "node (f (timers s t)) = None"
  shows "timer_inv (upd_timer t f s)"
proof -
  have t: "t \<notin> set (timer_list s p)" for p using assms(1,2) by (simp add: timer_inv_node)
  have "sorted_wrt (\<lambda>x y. timeout (timers (upd_timer t f s) x) \<le> timeout (timers (upd_timer t f s) y))
     (timer_list s p)" for p
    using assms(1) t [of p] unfolding timer_inv_def
    by (auto intro: sorted_wrt_mono_rel [of _ "\<lambda>x y. timeout (timers s x) \<le> timeout (timers s y)", rotated])
  moreover have "u \<in> set (timer_list s p) \<longleftrightarrow> node (timers (upd_timer t f s) u) = Some p" for u p
    using assms t by (auto simp: timer_inv_def)
  ultimately show ?thesis using assms by (simp add: timer_inv_def timer_is_started_def)
qed

lemma timer_inv_del: "timer_inv s \<Longrightarrow> timer_inv (del_timer tr s)"
proof (cases tr)
  case (Some t)
  assume I: "timer_inv s"
  show ?thesis
  proof (cases "node (timers s t)")
    case None
    with Some I show ?thesis by (simp add: del_timer_def)
  next
    case (Some p)
    have sorted: "sorted_wrt (\<lambda>x y. timeout (timers s x) \<le> timeout (timers s y))
        (((timer_list s)(p := remove1 t (timer_list s p))) q)" for q
      using I by (auto simp: timer_inv_def intro: sorted_wrt_remove1)
    have "timer_list (del_timer tr s) = (timer_list s)(p := remove1 t (timer_list s p))"
      "timers (del_timer tr s) = (timers s)(t := (timers s t)\<lparr>node := None\<rparr>)"
      using Some \<open>tr = Some t\<close> by (simp_all add: del_timer_def)
    moreover from this(2) have "timeout (timers (del_timer tr s) x) = timeout (timers s x)" for x
      by simp
    ultimately show ?thesis using I Some sorted by (simp only: timer_inv_def timer_is_started_def) auto
  qed
qed (simp add: del_timer_def)

lemma del_timer_unlinks: "node (timers (del_timer (Some t) s) t) = None"
  by (simp add: del_timer_def split: option.split)

lemma timer_inv_local_add:
  assumes "timer_inv s" and "node (timers s t) = None" and "func (timers s t) \<noteq> None"
  shows "timer_inv (snd (local_add_timer p t s))"
proof -
  let ?s = "snd (local_add_timer p t s)"
  have t: "t \<notin> set (timer_list s q)" for q using assms by (simp add: timer_inv_node)
  have tl: "timer_list ?s = (timer_list s)
      (p := insert_before (\<lambda>x. \<not> timeout (timers s x) < timeout (timers s t)) t (timer_list s p))"
    and tm: "timers ?s = (timers s)(t := (timers s t)\<lparr>node := Some p\<rparr>)"
    by (simp_all add: local_add_timer_def Let_def)
  have to: "timeout (timers ?s x) = timeout (timers s x)" for x by (simp add: tm)
  have "sorted_wrt (\<lambda>x y. timeout (timers ?s x) \<le> timeout (timers ?s y)) (timer_list ?s q)" for q
    using assms(1) unfolding to tl timer_inv_def
    by (auto intro!: sorted_wrt_insert_before transpI)
  moreover have "distinct (timer_list ?s q)" for q
    using assms(1) t by (simp add: tl timer_inv_def)
  moreover have "u \<in> set (timer_list ?s q) \<longleftrightarrow> node (timers ?s u) = Some q" for u q
    using assms t by (auto simp: tl tm timer_inv_def)
  moreover have "\<forall>u. timer_is_started u ?s \<longrightarrow> func (timers ?s u) \<noteq> None"
    using assms by (auto simp: tm timer_inv_def timer_is_started_def)
  ultimately show ?thesis by (simp add: timer_inv_def)
qed

lemma timer_inv_update_arch [simp]: "timer_inv (update_architecture_timer p s) = timer_inv s"
  by (rule timer_inv_cong) (simp_all add: update_architecture_timer_def split: list.split)

lemma timer_inv_add:
  assumes "timer_inv s" and "\<And>t. tr = Some t \<Longrightarrow> \<not> timer_is_started t s"
  shows "timer_inv (snd (add_timer tr s))"
proof (cases tr)
  case (Some t)
  have nd: "node (timers s t) = None" using assms(2) Some by (simp add: timer_is_started_def)
  have "timer_inv (limit_period t s)" "node (timers (limit_period t s) t) = None"
    using assms(1) nd by (auto simp: limit_period_def intro!: timer_inv_upd_unlinked)
  then have "timer_inv (snd (local_add_timer p t (limit_period t s)))" if "func (timers s t) \<noteq> None" for p
    using that by (intro timer_inv_local_add) (simp_all add: limit_period_def)
  with nd assms(1) show ?thesis
    unfolding Some add_timer_def by (simp add: timer_is_started_def Let_def split_def)
qed (use assms(1) in \<open>simp add: add_timer_def\<close>)

text \<open>The head of a sorted list bounds every deadline, so programming it arms the pCPU.\<close>

lemma hw_armed_update_arch:
  assumes "timer_inv s" and "cur_pcpu s = p"
  shows "hw_armed p (update_architecture_timer p s)"
proof (cases "timer_list s p")
  case (Cons t ts)
  then have "\<forall>u \<in> set ts. timeout (timers s t) \<le> timeout (timers s u)"
    using assms(1) unfolding timer_inv_def by (metis sorted_wrt.simps(2))
  with Cons assms(2) show ?thesis by (auto simp: hw_armed_def update_architecture_timer_def)
qed (simp add: hw_armed_def update_architecture_timer_def)

lemma hw_armed_del: "hw_armed p s \<Longrightarrow> hw_armed p (del_timer tr s)"
  by (auto simp: hw_armed_def del_timer_def dest: set_remove1_subset [THEN subsetD]
      split: option.splits if_splits)

lemma hw_armed_local_add_behind:
  assumes "hw_armed p s" and "timer_inv s" and "node (timers s t) = None"
    and "\<not> fst (local_add_timer p t s)"
  shows "hw_armed p (snd (local_add_timer p t s))"
proof -
  obtain u us where l: "timer_list s p = u # us" and u: "timeout (timers s u) < timeout (timers s t)"
    using assms(4) by (cases "timer_list s p") (auto simp: local_add_timer_def Let_def split: if_splits)
  have "t \<notin> set (timer_list s p)" using assms(2,3) by (simp add: timer_inv_node)
  with assms(1) l u show ?thesis
    by (auto simp: hw_armed_def local_add_timer_def Let_def intro: order.trans less_imp_le)
qed

lemma cur_pcpu_local_add [simp]: "cur_pcpu (snd (local_add_timer p t s)) = cur_pcpu s"
  by (simp add: local_add_timer_def Let_def)

lemma cur_pcpu_update_arch [simp]: "cur_pcpu (update_architecture_timer p s) = cur_pcpu s"
  by (simp add: update_architecture_timer_def split: list.split)

lemma cur_pcpu_limit_period [simp]: "cur_pcpu (limit_period t s) = cur_pcpu s"
  by (simp add: limit_period_def)

lemma cur_pcpu_del_timer [simp]: "cur_pcpu (del_timer tr s) = cur_pcpu s"
  by (simp add: del_timer_def split: option.split)

lemma cur_pcpu_add_timer [simp]: "cur_pcpu (snd (add_timer tr s)) = cur_pcpu s"
  by (simp add: add_timer_def Let_def split_def split: option.split)

lemma hw_armed_add:
  assumes "timer_inv s" and "\<not> timer_is_started t s" and "hw_armed (cur_pcpu s) s"
  shows "hw_armed (cur_pcpu s) (snd (add_timer (Some t) s))"
proof -
  let ?l = "limit_period t s" and ?p = "cur_pcpu s"
  have nd: "node (timers s t) = None" "node (timers ?l t) = None"
    using assms(2) by (simp_all add: timer_is_started_def limit_period_def)
  have I: "timer_inv ?l" and A: "hw_armed ?p ?l"
    using assms nd by (auto simp: limit_period_def hw_armed_def intro!: timer_inv_upd_unlinked)
  have fn: "func (timers ?l t) = func (timers s t)" by (simp add: limit_period_def)
  have "hw_armed ?p (snd (local_add_timer ?p t ?l))" if "\<not> fst (local_add_timer ?p t ?l)"
    by (rule hw_armed_local_add_behind [OF A I nd(2) that])
  moreover have "hw_armed ?p (update_architecture_timer ?p (snd (local_add_timer ?p t ?l)))"
    if "func (timers s t) \<noteq> None"
    by (rule hw_armed_update_arch [OF timer_inv_local_add [OF I nd(2)]]) (use fn that in simp_all)
  ultimately show ?thesis
    using nd assms(3) by (simp add: add_timer_def timer_is_started_def Let_def split_def)
qed

section \<open>The softirq\<close>

text \<open>
  A pCPU that has not stopped has consistent timer lists. Starting a started timer is caught by
  the assertion in \<open>add_timer\<close>, so re-arming a timer keeps this without a precondition.
\<close>

definition timer_ok :: "'a timer_sys_scheme \<Rightarrow> bool" where
  "timer_ok s \<longleftrightarrow> fault s \<noteq> None \<or> timer_inv s"

lemma fault_tick_read [simp]: "fault (tick_read s) = fault s"
  by (simp add: tick_read_def)

lemma fault_local_add [simp]: "fault (snd (local_add_timer p t s)) = fault s"
  by (simp add: local_add_timer_def Let_def)

lemma fault_update_arch [simp]: "fault (update_architecture_timer p s) = fault s"
  by (simp add: update_architecture_timer_def split: list.split)

lemma fault_del_timer [simp]: "fault (del_timer tr s) = fault s"
  by (simp add: del_timer_def split: option.split)

lemma fault_update_timer [simp]: "fault (update_timer tr d q s) = fault s"
  by (simp add: update_timer_def split: option.split)

lemma fault_add_timer: "fault s \<noteq> None \<Longrightarrow> fault (snd (add_timer tr s)) = fault s"
  by (auto simp: add_timer_def limit_period_def assertion_def Let_def split_def split: option.split)

lemma fault_add_timer_again:
  assumes "timer_is_started t s" and "func (timers s t) \<noteq> None" and "timeout (timers s t) \<noteq> 0"
  shows "fault (snd (add_timer (Some t) s)) \<noteq> None"
  using assms by (simp add: add_timer_def limit_period_def assertion_def Let_def split_def)

lemma timer_ok_cong:
  "timers s' = timers s \<Longrightarrow> timer_list s' = timer_list s \<Longrightarrow> fault s' = fault s
     \<Longrightarrow> timer_ok s' = timer_ok s"
  by (simp add: timer_ok_def timer_inv_def timer_is_started_def)

lemma timer_ok_tick_read [simp]: "timer_ok (tick_read s) = timer_ok s"
  by (simp add: timer_ok_def)

lemma timer_ok_assertion: "timer_ok s \<Longrightarrow> timer_ok (assertion b m s)"
  by (auto simp: timer_ok_def assertion_def)

lemma timer_ok_panic [simp]: "timer_ok (panic m s)"
  by (auto simp: timer_ok_def panic_def)

lemma timer_ok_del: "timer_ok s \<Longrightarrow> timer_ok (del_timer tr s)"
  by (auto simp: timer_ok_def timer_inv_del)

text \<open>Arming a timer: the schedulers set a new deadline and start the timer.\<close>

lemma timer_ok_rearm:
  assumes "timer_ok s" and "d \<noteq> 0"
  shows "timer_ok (snd (add_timer (Some t) (update_timer (Some t) d q s)))"
proof (cases "fault s \<noteq> None \<or> timer_is_started t s")
  case True
  let ?s = "update_timer (Some t) d q s"
  have "fault ?s \<noteq> None \<or> timer_is_started t ?s \<and> func (timers ?s t) \<noteq> None" "timeout (timers ?s t) \<noteq> 0"
    using True assms by (auto simp: timer_ok_def timer_inv_def update_timer_def set_timer_mode_def timer_is_started_def)
  then have "fault (snd (add_timer (Some t) ?s)) \<noteq> None"
    using fault_add_timer [of ?s] fault_add_timer_again [of t ?s] by metis
  then show ?thesis by (simp add: timer_ok_def)
next
  case False
  then have "timer_inv (update_timer (Some t) d q s)"
    using assms(1) by (auto simp: timer_ok_def update_timer_def set_timer_mode_def timer_is_started_def
        intro!: timer_inv_upd_unlinked)
  moreover have "\<not> timer_is_started t (update_timer (Some t) d q s)"
    using False by (simp add: update_timer_def set_timer_mode_def timer_is_started_def)
  ultimately show ?thesis by (auto simp: timer_ok_def intro!: timer_inv_add)
qed

lemma timer_ok_arm:
  assumes "timer_ok s" and "\<not> timer_is_started t s"
  shows "timer_ok (snd (add_timer (Some t) (update_timer (Some t) d q s)))"
proof (cases "fault s = None")
  case True
  have "timer_inv (update_timer (Some t) d q s)" "\<not> timer_is_started t (update_timer (Some t) d q s)"
    using assms True by (auto simp: timer_ok_def update_timer_def set_timer_mode_def timer_is_started_def
        intro!: timer_inv_upd_unlinked)
  then show ?thesis by (auto simp: timer_ok_def intro!: timer_inv_add)
next
  case False
  then have "fault (snd (add_timer (Some t) (update_timer (Some t) d q s))) \<noteq> None"
    using fault_add_timer [of "update_timer (Some t) d q s"] by simp
  then show ?thesis by (simp add: timer_ok_def)
qed

lemma del_timer_stops: "\<not> timer_is_started t (del_timer (Some t) s)"
  by (simp add: timer_is_started_def del_timer_unlinks)

text \<open>
  What the softirq relies on: a callback keeps the lists consistent, stays on its pCPU and leaves
  the callbacks as they are. It may start, stop and re-arm timers, its own included.
\<close>

lemma timer_next_func:
  assumes "timer_inv s" and "\<And>t. n = Some t \<Longrightarrow> func (timers s t) \<noteq> None" and "timer_next n s = Some u"
  shows "func (timers s u) \<noteq> None"
proof -
  obtain t where n: "n = Some t" using assms(3) by (auto simp: timer_next_def split: option.splits)
  show ?thesis
  proof (cases "node (timers s t)")
    case None
    then show ?thesis using assms n by (simp add: timer_next_def)
  next
    case (Some p)
    then have "succ_in (timer_list s p) t = Some u" using assms(3) n by (simp add: timer_next_def)
    moreover have "distinct (timer_list s p)" using assms(1) by (simp add: timer_inv_def)
    ultimately have "u \<in> set (timer_list s p)" using succ_in_SomeD by metis
    then have "timer_is_started u s" using assms(1) by (simp add: timer_inv_node timer_is_started_def)
    then show ?thesis using assms(1) by (simp add: timer_inv_def)
  qed
qed

locale timer_client =
  fixes cb :: "'a timer_callback"
  assumes cb_ok: "timer_ok s \<Longrightarrow> timer_ok (cb f d s)"
    and cb_pcpu: "cur_pcpu (cb f d s) = cur_pcpu s"
    and cb_func: "func (timers (cb f d s) t) = func (timers s t)"
    and cb_fault: "fault s \<noteq> None \<Longrightarrow> fault (cb f d s) \<noteq> None"
begin

lemma run_timer_ok: "timer_ok s \<Longrightarrow> timer_ok (run_timer cb t s)"
  by (simp add: run_timer_def cb_ok split: option.split)

lemma run_timer_frame [simp]:
  "cur_pcpu (run_timer cb t s) = cur_pcpu s" "func (timers (run_timer cb t s) u) = func (timers s u)"
  "fault s \<noteq> None \<Longrightarrow> fault (run_timer cb t s) \<noteq> None"
  by (simp_all add: run_timer_def cb_pcpu cb_func cb_fault del: not_None_eq split: option.split)

lemma del_timer_func: "func (timers (del_timer tr s) u) = func (timers s u)"
  by (simp add: del_timer_def split: option.split)

lemma service_timer_frame [simp]:
  "cur_pcpu (snd (service_timer cb p t now s)) = cur_pcpu s"
  "func (timers (snd (service_timer cb p t now s)) u) = func (timers s u)"
  "fault s \<noteq> None \<Longrightarrow> fault (snd (service_timer cb p t now s)) \<noteq> None"
  by (simp_all add: service_timer_def Let_def del_timer_func local_add_timer_def advance_periodic_timer_def
      del: not_None_eq)

lemma service_timer_ok:
  assumes "timer_ok s" and "fault s = None \<Longrightarrow> func (timers s t) \<noteq> None"
  shows "timer_ok (snd (service_timer cb p t now s))"
proof (cases "fault s = None")
  case False
  then have "fault (snd (service_timer cb p t now s)) \<noteq> None" by (rule service_timer_frame(3))
  then show ?thesis by (simp add: timer_ok_def)
next
  case True
  let ?s = "run_timer cb t (del_timer (Some t) s)"
  have I: "timer_ok ?s" using assms(1) by (intro run_timer_ok timer_ok_del)
  have fn: "func (timers ?s t) \<noteq> None" using assms(2) True by (simp add: del_timer_func)
  have upd: "timer_ok (upd_timer t f s')"
    if "\<not> timer_is_started t s'" "timer_ok s'" "\<And>tm. node (f tm) = node tm" for f s'
    using that by (auto simp: timer_ok_def timer_is_started_def intro!: timer_inv_upd_unlinked)
  have add: "timer_ok (snd (local_add_timer p t s'))"
    if "\<not> timer_is_started t s'" "timer_ok s'" "func (timers s' t) \<noteq> None" for s'
    using that by (auto simp: timer_ok_def timer_is_started_def intro!: timer_inv_local_add)
  have adv: "node (advance_periodic_timer tm k) = node tm" "func (advance_periodic_timer tm k) = func tm" for tm k
    by (simp_all add: advance_periodic_timer_def Let_def)
  show ?thesis
    using I fn by (auto simp: service_timer_def Let_def timer_is_started_def adv intro!: add upd)
qed

lemma softirq_loop_pcpu: "cur_pcpu (timer_softirq_loop cb p tries now pos n s) = cur_pcpu s"
  by (induction tries arbitrary: now pos n s) (simp_all add: Let_def split_def split: option.split)

lemma softirq_loop_ok:
  assumes "timer_ok s" and "\<And>t. fault s = None \<Longrightarrow> pos = Some t \<or> n = Some t \<Longrightarrow> func (timers s t) \<noteq> None"
  shows "timer_ok (timer_softirq_loop cb p tries now pos n s)"
  using assms
proof (induction tries arbitrary: now pos n s)
  case (Suc tries)
  show ?case
  proof (cases pos)
    case (Some t)
    let ?r = "service_timer cb p t now s"
    have ok: "timer_ok (snd ?r)" using Suc.prems Some by (intro service_timer_ok) auto
    have "func (timers (snd ?r) u) \<noteq> None" if "fault (snd ?r) = None" "n = Some u \<or> timer_next n (snd ?r) = Some u" for u
    proof -
      have fl: "fault s = None" using that(1) service_timer_frame(3) by blast
      then have "timer_inv (snd ?r)" using ok that(1) by (simp add: timer_ok_def)
      with Suc.prems(2) [OF fl] that(2) show ?thesis using timer_next_func [of "snd ?r" n u] by auto
    qed
    with Suc.IH [OF ok] Some Suc.prems(1) show ?thesis by (simp add: Let_def split_def)
  qed (use Suc.prems in simp)
qed simp

lemma softirq_ok:
  assumes "timer_ok s" and "cur_pcpu s = p"
  shows "timer_ok (timer_softirq cb p s)"
    and "fault (timer_softirq cb p s) = None \<Longrightarrow> hw_armed p (timer_softirq cb p s)"
proof -
  let ?s = "tick_read s" and ?first = "case timer_list s p of [] \<Rightarrow> None | t # _ \<Rightarrow> Some t"
  have head: "func (timers s t) \<noteq> None" if "timer_inv s" "?first = Some t" for t
  proof -
    have "t \<in> set (timer_list s p)" using that(2) by (cases "timer_list s p") auto
    then have "timer_is_started t s" using that(1) by (simp add: timer_inv_node timer_is_started_def)
    then show ?thesis using that(1) by (simp add: timer_inv_def)
  qed
  have "timer_ok (timer_softirq_loop cb p MAX_TIMER_ACTIONS now ?first (timer_next ?first ?s) ?s)" for now
    by (rule softirq_loop_ok)
      (use assms head timer_next_func [of ?s ?first] in \<open>auto simp: timer_ok_def\<close>)
  then obtain s' where s': "timer_softirq cb p s = update_architecture_timer p s'"
      "timer_ok s'" "cur_pcpu s' = p"
    using assms by (simp add: timer_softirq_def Let_def softirq_loop_pcpu)
  then show "timer_ok (timer_softirq cb p s)" by (simp add: timer_ok_def)
  show "hw_armed p (timer_softirq cb p s)" if "fault (timer_softirq cb p s) = None"
    using s' that by (auto simp: timer_ok_def intro: hw_armed_update_arch)
qed

end

text \<open>
  A late periodic timer is moved onto the first point of its grid after \<open>now\<close>.
\<close>

lemma advance_periodic_timer_grid:
  assumes "0 < period_in_cycle tm"
    and "unat (timeout tm) + unat (period_in_cycle tm) < 2 ^ 64"
    and "unat now + unat (period_in_cycle tm) < 2 ^ 64"
  shows "unat (timeout (advance_periodic_timer tm now)) =
    unat (timeout tm) + unat (period_in_cycle tm) *
      (if now < timeout tm then 1 else (unat now - unat (timeout tm)) div unat (period_in_cycle tm) + 1)"
proof -
  let ?p = "unat (period_in_cycle tm)" and ?t = "unat (timeout tm)" and ?n = "unat now"
  have p: "0 < ?p" using assms(1) by (simp add: word_less_nat_alt)
  have nx: "unat (timeout tm + period_in_cycle tm) = ?t + ?p"
    using assms(2) by (simp add: unat_add_nowrap)
  show ?thesis
  proof (cases "?t + ?p \<le> ?n")
    case False
    then have "?n - ?t < ?p" using p by linarith
    then have "(?n - ?t) div ?p = 0" by (rule div_less)
    then show ?thesis
      using False nx by (auto simp: advance_periodic_timer_def Let_def word_le_nat_alt)
  next
    case True
    let ?k = "(?n - (?t + ?p)) div ?p + 1"
    have kp: "?k * ?p \<le> ?n - (?t + ?p) + ?p"
      by (simp add: add_mult_distrib div_times_less_eq_dividend)
    have "(?n - ?t) div ?p = (?n - (?t + ?p) + ?p) div ?p" using True by simp
    also have "\<dots> = ?k" using p by (subst div_add_self2) simp_all
    finally have k: "(?n - ?t) div ?p = ?k" .
    have lt: "?n < ?t + ?p + ?k * ?p"
      using True p dividend_less_div_times [OF p, of "?n - (?t + ?p)"] by (simp add: algebra_simps)
    let ?m = "(now - (timeout tm + period_in_cycle tm)) div period_in_cycle tm + 1"
    have le: "timeout tm + period_in_cycle tm \<le> now" using True nx by (simp add: word_le_nat_alt)
    have q: "unat ((now - (timeout tm + period_in_cycle tm)) div period_in_cycle tm) = ?k - 1"
      using le nx by (simp add: unat_div_distrib unat_diff_le)
    have "?k * ?p < 2 ^ 64" using kp True assms(3) by linarith
    moreover have "?k \<le> ?k * ?p" using mult_le_mono2 [of 1 ?p ?k] p by simp
    ultimately have kb: "?k < 2 ^ 64" by (rule le_less_trans [rotated])
    then have m: "unat ?m = ?k" using q by (subst unat_add_nowrap) simp_all
    have mp: "unat (?m * period_in_cycle tm) = ?k * ?p"
      using \<open>?k * ?p < 2 ^ 64\<close> m by (subst unat_mult_nowrap) simp_all
    have res: "unat (timeout tm + period_in_cycle tm + ?m * period_in_cycle tm) = ?t + ?p + ?k * ?p"
      using kp True assms(3) by (subst unat_add_nowrap) (simp_all add: nx mp)
    then have "timeout (advance_periodic_timer tm now)
        = timeout tm + period_in_cycle tm + ?m * period_in_cycle tm"
      using le lt by (simp add: advance_periodic_timer_def Let_def word_le_nat_alt)
    with res k le True show ?thesis
      by (simp add: word_less_nat_alt algebra_simps)
  qed
qed

section \<open>Properties\<close>

text \<open>
  A periodic timer that was served late is moved to the first point of its grid after the
  present time: it skips the missed periods and keeps its phase.
\<close>

theorem periodic_timer_keeps_phase:
  assumes "timeout tm \<le> now" and "0 < period_in_cycle tm" and "unat now + unat (period_in_cycle tm) < 2 ^ 64"
  shows "now < timeout (advance_periodic_timer tm now)
    \<and> unat (timeout (advance_periodic_timer tm now)) \<le> unat now + unat (period_in_cycle tm)
    \<and> (unat (timeout (advance_periodic_timer tm now)) - unat (timeout tm)) mod unat (period_in_cycle tm) = 0"
proof -
  let ?p = "unat (period_in_cycle tm)" and ?t = "unat (timeout tm)" and ?n = "unat now"
  let ?k = "(?n - ?t) div ?p"
  have le: "?t \<le> ?n" and p: "0 < ?p" using assms(1,2) by (simp_all add: word_le_nat_alt word_less_nat_alt)
  have new: "unat (timeout (advance_periodic_timer tm now)) = ?t + ?p * (?k + 1)"
    using advance_periodic_timer_grid [OF assms(2) _ assms(3)] le assms(1,3) by (simp add: leD)
  have "?n < ?t + ?p * (?k + 1)" using dividend_less_times_div [OF p, of "?n - ?t"] le by simp
  moreover have "?t + ?p * ?k \<le> ?n" using times_div_less_eq_dividend [of ?p "?n - ?t"] le by linarith
  ultimately show ?thesis by (simp add: new word_less_nat_alt)
qed

text \<open>
  \<open>add_timer\<close> refuses a timer without callback or without deadline with \<open>-EINVAL\<close> and no
  effect; any other timer that is not started is put on the list of the current pCPU, which stays
  sorted, with the hardware armed for its earliest deadline.
\<close>

theorem add_timer_starts:
  assumes "timer_inv s" and "hw_armed (cur_pcpu s) s" and "\<not> timer_is_started t s"
  shows "if func (timers s t) = None \<or> timeout (timers s t) = 0 then add_timer (Some t) s = (- EINVAL, s)
    else fst (add_timer (Some t) s) = 0 \<and> node (timers (snd (add_timer (Some t) s)) t) = Some (cur_pcpu s)
      \<and> timer_inv (snd (add_timer (Some t) s)) \<and> hw_armed (cur_pcpu s) (snd (add_timer (Some t) s))"
proof (cases "func (timers s t) = None \<or> timeout (timers s t) = 0")
  case True
  then show ?thesis by (auto simp: add_timer_def)
next
  case False
  then have "fst (add_timer (Some t) s) = 0 \<and> node (timers (snd (add_timer (Some t) s)) t) = Some (cur_pcpu s)"
    by (auto simp: add_timer_def Let_def split_def local_add_timer_def update_architecture_timer_def split: list.split)
  then show ?thesis
    using False timer_inv_add [OF assms(1), of "Some t"] hw_armed_add [OF assms(1,3,2)] assms(3) by auto
qed

end
