(* ===== verification/Bits.thy ===== *)
theory Bits
  imports Prelude
begin

text \<open>
  Bit scans and bitmaps: \<open>lib/bits.c\<close>, \<open>include/lib/bits.h\<close> and the arm64 backend
  \<open>include/arch/arm64/asm/lib/bits.h\<close>. An atomic read-modify-write is the assignment it performs.
  The lemmas say what each operation does to every single bit, that the scans find the first and
  the last set bit, and that the population count loop ends with the number of set bits.
\<close>

section \<open>Scans\<close>

definition INVALID_BIT_INDEX :: nat where
  "INVALID_BIT_INDEX = 0xffff"

text \<open>The compiler builtins on a nonzero argument: number of trailing and of leading zeros.\<close>

fun ctz_from :: "nat \<Rightarrow> nat \<Rightarrow> u64 \<Rightarrow> nat" where
  "ctz_from 0 i x = i"
| "ctz_from (Suc n) i x = (if bit x i then i else ctz_from n (Suc i) x)"

fun clz_from :: "nat \<Rightarrow> 'l::len word \<Rightarrow> nat" where
  "clz_from 0 x = LENGTH('l)"
| "clz_from (Suc i) x = (if bit x i then LENGTH('l) - 1 - i else clz_from i x)"

definition builtin_ctzll :: "u64 \<Rightarrow> nat" where "builtin_ctzll x = ctz_from 64 0 x"
definition builtin_clzll :: "u64 \<Rightarrow> nat" where "builtin_clzll x = clz_from 64 x"
definition builtin_clz :: "u32 \<Rightarrow> nat" where "builtin_clz x = clz_from 32 x"

definition ffs64 :: "u64 \<Rightarrow> nat" where
  "ffs64 x = (if x = 0 then INVALID_BIT_INDEX else builtin_ctzll x)"

definition fls64 :: "u64 \<Rightarrow> nat" where
  "fls64 x = (if x = 0 then INVALID_BIT_INDEX else 63 - builtin_clzll x)"

text \<open>\<open>fls32\<close> returns an \<open>int16_t\<close>: the invalid index reads as -1.\<close>

definition fls32 :: "u32 \<Rightarrow> int" where
  "fls32 x = (if x = 0 then - 1 else 31 - int (builtin_clz x))"

definition ffz64 :: "u64 \<Rightarrow> nat" where
  "ffz64 x = ffs64 (NOT x)"

definition clz32 :: "u32 \<Rightarrow> int" where
  "clz32 value = (if value \<noteq> 0 then 31 - fls32 value else 32)"

definition clz64 :: "u64 \<Rightarrow> nat" where
  "clz64 value = (if value \<noteq> 0 then 63 - fls64 value else 64)"

text \<open>
  \<open>ffz64_ex(addr, size)\<close>: the words of the array are visited while \<open>(idx << 6) < size\<close>. An array
  shorter than the size is read out of range by the source, here \<open>None\<close>.
\<close>

fun ffz64_ex_from :: "u64 list \<Rightarrow> nat \<Rightarrow> nat \<Rightarrow> nat option" where
  "ffz64_ex_from [] idx sz = (if idx * 64 < sz then None else Some sz)"
| "ffz64_ex_from (w # ws) idx sz =
     (if idx * 64 < sz
      then (if w \<noteq> - 1 then Some (idx * 64 + ffz64 w) else ffz64_ex_from ws (Suc idx) sz)
      else Some sz)"

definition ffz64_ex :: "u64 list \<Rightarrow> nat \<Rightarrow> nat option" where
  "ffz64_ex addr sz = ffz64_ex_from addr 0 sz"

section \<open>Bitmaps\<close>

definition bit_mask :: "nat \<Rightarrow> 'l::len word" where
  "bit_mask nr = push_bit (nr mod LENGTH('l)) 1"

definition bitmap_test :: "nat \<Rightarrow> 'l::len word \<Rightarrow> bool" where
  "bitmap_test nr a \<longleftrightarrow> a AND bit_mask nr \<noteq> 0"

definition bitmap_set :: "nat \<Rightarrow> 'l::len word \<Rightarrow> 'l word" where
  "bitmap_set nr a = a OR bit_mask nr"

definition bitmap_clear :: "nat \<Rightarrow> 'l::len word \<Rightarrow> 'l word" where
  "bitmap_clear nr a = a AND NOT (bit_mask nr)"

definition bitmap_test_and_set :: "nat \<Rightarrow> 'l::len word \<Rightarrow> bool \<times> 'l word" where
  "bitmap_test_and_set nr a = (let old = a AND bit_mask nr \<noteq> 0 in (old, a OR bit_mask nr))"

definition bitmap_test_and_clear :: "nat \<Rightarrow> 'l::len word \<Rightarrow> bool \<times> 'l word" where
  "bitmap_test_and_clear nr a = (let old = a AND bit_mask nr \<noteq> 0 in (old, a AND NOT (bit_mask nr)))"

text \<open>\<open>while (bits != 0) { bits &= bits - 1; weight++; }\<close>\<close>

lemma and_pred_less:
  fixes x :: "'l::len word"
  assumes "x \<noteq> 0" shows "unat (x AND (x - 1)) < unat x"
proof -
  have "unat (x AND (x - 1)) \<le> unat (x - 1)"
    using word_and_le1 [of x "x - 1"] by (simp add: word_le_nat_alt)
  moreover have "unat (x - 1) = unat x - 1" "unat x > 0"
    using assms by (auto simp: unat_minus_one unat_gt_0)
  ultimately show ?thesis by linarith
qed

function bitmap_weight_loop :: "u64 \<Rightarrow> u16 \<Rightarrow> u16" where
  "bitmap_weight_loop bits weight =
     (if bits \<noteq> 0 then bitmap_weight_loop (bits AND (bits - 1)) (weight + 1) else weight)"
  by pat_completeness auto
termination
  by (relation "measure (\<lambda>(bits, weight). unat bits)") (auto simp: and_pred_less)

declare bitmap_weight_loop.simps [simp del]

definition bitmap_weight :: "u64 \<Rightarrow> u16" where
  "bitmap_weight bits = bitmap_weight_loop bits 0"

section \<open>What they compute\<close>

lemma bit_bit_mask: "bit (bit_mask nr :: 'l::len word) i \<longleftrightarrow> i = nr mod LENGTH('l)"
  by (auto simp: bit_mask_def bit_exp_iff possible_bit_word)

lemma bitmap_test_bit: "bitmap_test nr (a :: 'l::len word) \<longleftrightarrow> bit a (nr mod LENGTH('l))"
proof -
  have "a AND bit_mask nr = 0 \<longleftrightarrow> (\<forall>i. \<not> bit (a AND bit_mask nr) i)"
    by (auto intro: bit_eqI)
  then show ?thesis by (auto simp: bitmap_test_def bit_and_iff bit_bit_mask)
qed

lemma bit_bitmap_set: "bit (bitmap_set nr (a :: 'l::len word)) i \<longleftrightarrow> bit a i \<or> i = nr mod LENGTH('l)"
  by (auto simp: bitmap_set_def bit_or_iff bit_bit_mask)

lemma bit_bitmap_clear:
  "bit (bitmap_clear nr (a :: 'l::len word)) i \<longleftrightarrow> bit a i \<and> i \<noteq> nr mod LENGTH('l)"
  by (auto simp: bitmap_clear_def bit_and_iff bit_not_iff bit_bit_mask possible_bit_word
      dest: bit_imp_le_length)

lemma bitmap_test_set [simp]:
  "bitmap_test m (bitmap_set n (a :: 'l::len word)) \<longleftrightarrow> m mod LENGTH('l) = n mod LENGTH('l) \<or> bitmap_test m a"
  by (auto simp: bitmap_test_bit bit_bitmap_set)

lemma bitmap_test_clear [simp]:
  "bitmap_test m (bitmap_clear n (a :: 'l::len word)) \<longleftrightarrow> m mod LENGTH('l) \<noteq> n mod LENGTH('l) \<and> bitmap_test m a"
  by (auto simp: bitmap_test_bit bit_bitmap_clear)

lemma bitmap_clear_less:
  fixes a :: "'l::len word"
  assumes "bitmap_test n a"
  shows "unat (bitmap_clear n a) < unat a"
proof -
  have "bitmap_clear n a \<noteq> a" using assms bitmap_test_clear [of n n a] by metis
  moreover have "bitmap_clear n a \<le> a" by (simp add: bitmap_clear_def word_and_le2)
  ultimately show ?thesis using word_le_nat_alt [of "bitmap_clear n a" a] by (metis nat_less_le word_unat_eq_iff)
qed

lemma bitmap_test_and_set_eq: "bitmap_test_and_set n a = (bitmap_test n a, bitmap_set n a)"
  by (simp add: bitmap_test_and_set_def bitmap_test_def bitmap_set_def)

lemma bitmap_test_and_clear_eq: "bitmap_test_and_clear n a = (bitmap_test n a, bitmap_clear n a)"
  by (simp add: bitmap_test_and_clear_def bitmap_test_def bitmap_clear_def)


lemma word_ex_bit: "(x :: 'l::len word) \<noteq> 0 \<Longrightarrow> \<exists>i<LENGTH('l). bit x i"
  using bit_eqI [of x 0] by (auto dest: bit_imp_le_length)

lemma ctz_from_least:
  "\<exists>j. i \<le> j \<and> j < i + n \<and> bit x j \<Longrightarrow>
     bit x (ctz_from n i x) \<and> i \<le> ctz_from n i x \<and> ctz_from n i x < i + n
     \<and> (\<forall>j. i \<le> j \<and> j < ctz_from n i x \<longrightarrow> \<not> bit x j)"
proof (induction n arbitrary: i)
  case 0
  then show ?case by auto
next
  case (Suc n)
  show ?case
  proof (cases "bit x i")
    case True
    then show ?thesis by auto
  next
    case False
    with Suc.prems have "\<exists>j. Suc i \<le> j \<and> j < Suc i + n \<and> bit x j"
      by (metis Suc_leI add_Suc_shift le_neq_implies_less)
    note IH = Suc.IH [OF this]
    have "\<not> bit x j" if "i \<le> j" "j < ctz_from n (Suc i) x" for j
      using that False IH by (cases "j = i") (auto simp: Suc_le_eq)
    with IH False show ?thesis by auto
  qed
qed

text \<open>\<open>ffs64\<close> finds the lowest set bit.\<close>

lemma ffs64_least:
  assumes "x \<noteq> 0"
  shows "bit x (ffs64 x)" and "ffs64 x < 64" and "j < ffs64 x \<Longrightarrow> \<not> bit x j"
proof -
  have "\<exists>j. 0 \<le> j \<and> j < 0 + (64::nat) \<and> bit x j" using word_ex_bit [OF assms] by auto
  note C = ctz_from_least [OF this]
  with assms show "bit x (ffs64 x)" and "ffs64 x < 64" and "j < ffs64 x \<Longrightarrow> \<not> bit x j"
    by (auto simp: ffs64_def builtin_ctzll_def)
qed

lemma ffs64_none: "ffs64 x < 64 \<longleftrightarrow> x \<noteq> 0"
  using ffs64_least(2) [of x] by (auto simp: ffs64_def INVALID_BIT_INDEX_def)

lemma clz_from_greatest:
  fixes x :: "'l::len word"
  assumes "\<exists>j<n. bit x j" and "n \<le> LENGTH('l)"
  shows "\<exists>k<n. clz_from n x = LENGTH('l) - 1 - k \<and> bit x k \<and> (\<forall>j. k < j \<and> j < n \<longrightarrow> \<not> bit x j)"
  using assms
proof (induction n)
  case 0
  then show ?case by simp
next
  case (Suc n)
  show ?case
  proof (cases "bit x n")
    case True
    then show ?thesis by (intro exI [of _ n]) auto
  next
    case False
    with Suc.prems have "\<exists>j<n. bit x j" by (metis less_Suc_eq)
    with Suc obtain k where "k < n" "clz_from n x = LENGTH('l) - 1 - k" "bit x k"
      "\<forall>j. k < j \<and> j < n \<longrightarrow> \<not> bit x j" by auto
    with False show ?thesis by (intro exI [of _ k]) (auto simp: less_Suc_eq)
  qed
qed

text \<open>\<open>fls64\<close> finds the highest set bit, and \<open>clz64\<close> counts the zeros above it.\<close>

lemma fls64_greatest:
  assumes "x \<noteq> 0"
  shows "bit x (fls64 x)" and "fls64 x < 64" and "fls64 x < j \<Longrightarrow> \<not> bit x j"
    and "clz64 x = 63 - fls64 x"
proof -
  have "\<exists>j<(64::nat). bit x j" using word_ex_bit [OF assms] by auto
  then have "\<exists>k<64. clz_from 64 x = LENGTH(64) - 1 - k \<and> bit x k \<and> (\<forall>j. k < j \<and> j < 64 \<longrightarrow> \<not> bit x j)"
    by (intro clz_from_greatest) auto
  then obtain k where k: "k < 64" "clz_from 64 x = 63 - k" "bit x k" "\<forall>j. k < j \<and> j < 64 \<longrightarrow> \<not> bit x j"
    by auto
  then have "fls64 x = k" using assms by (auto simp: fls64_def builtin_clzll_def)
  with k show "bit x (fls64 x)" and "fls64 x < 64" by auto
  show "\<not> bit x j" if "fls64 x < j"
    using that k(4) \<open>fls64 x = k\<close> bit_imp_le_length [of x j] by auto
  show "clz64 x = 63 - fls64 x" using assms by (simp add: clz64_def)
qed

text \<open>\<open>x & (x - 1)\<close> is \<open>x\<close> without its lowest set bit.\<close>

lemma bit_and_pred:
  fixes x :: u64
  assumes "x \<noteq> 0"
  shows "bit (x AND (x - 1)) i \<longleftrightarrow> bit x i \<and> i \<noteq> ffs64 x"
proof -
  let ?k = "ffs64 x" and ?y = "x AND NOT (2 ^ ffs64 x)"
  note k = ffs64_least [OF assms]
  have "?y AND 2 ^ ?k = 0" by (rule bit_word_eqI) (auto simp: bit_simps)
  moreover have "x = ?y OR 2 ^ ?k" using k(1) by (intro bit_word_eqI) (auto simp: bit_simps)
  ultimately have "x = ?y + 2 ^ ?k" by (metis disjunctive_add_eq_or)
  then have "x - 1 = ?y + mask ?k" by (simp add: mask_eq_exp_minus_1)
  moreover have "?y AND mask ?k = 0" using k(3) by (intro bit_word_eqI) (auto simp: bit_simps)
  ultimately have "x - 1 = ?y OR mask ?k" by (simp add: disjunctive_add_eq_or)
  then have "bit (x AND (x - 1)) i \<longleftrightarrow> bit x i \<and> (bit x i \<and> i \<noteq> ?k \<or> i < ?k)" if "i < 64"
    using that by (auto simp: bit_simps)
  with k(3) show ?thesis by (cases "i < 64") (auto dest: bit_imp_le_length)
qed

lemma finite_bits [simp]: "finite {i. bit (x :: 'l::len word) i}"
  by (rule finite_subset [of _ "{..<LENGTH('l)}"]) (auto dest: bit_imp_le_length)

lemma bitmap_weight_loop_card:
  "bitmap_weight_loop bits weight = weight + of_nat (card {i. bit bits i})"
proof (induction bits weight rule: bitmap_weight_loop.induct)
  case (1 bits weight)
  show ?case
  proof (cases "bits = 0")
    case True
    then show ?thesis by (simp add: bitmap_weight_loop.simps)
  next
    case False
    let ?c = "bits AND (bits - 1)"
    have "{i. bit ?c i} = {i. bit bits i} - {ffs64 bits}"
      using bit_and_pred [OF False] by blast
    then have "card {i. bit bits i} = Suc (card {i. bit ?c i})"
      using ffs64_least(1) [OF False] card_Suc_Diff1 [of "{i. bit bits i}" "ffs64 bits"] by simp
    with False "1" [OF False] show ?thesis
      by (simp add: bitmap_weight_loop.simps [of bits weight])
  qed
qed

lemma ffz64_ex_from_first:
  assumes "ffz64_ex_from ws idx sz = Some r"
  shows "r = sz \<and> (\<forall>k<length ws. (idx + k) * 64 < sz \<longrightarrow> ws ! k = - 1)
    \<or> (\<exists>k<length ws. (idx + k) * 64 < sz \<and> r = (idx + k) * 64 + ffz64 (ws ! k) \<and> ws ! k \<noteq> - 1
         \<and> (\<forall>j<k. ws ! j = - 1))"
  using assms
proof (induction ws idx sz rule: ffz64_ex_from.induct)
  case (1 idx sz)
  then show ?case by (auto split: if_splits)
next
  case (2 w ws idx sz)
  show ?case
  proof (cases "idx * 64 < sz \<and> w = - 1")
    case True
    with "2.prems" have "ffz64_ex_from ws (Suc idx) sz = Some r" by simp
    with "2.IH" True consider
      "r = sz" "\<forall>k<length ws. (Suc idx + k) * 64 < sz \<longrightarrow> ws ! k = - 1"
    | k where "k < length ws" "(Suc idx + k) * 64 < sz" "r = (Suc idx + k) * 64 + ffz64 (ws ! k)"
        "ws ! k \<noteq> - 1" "\<forall>j<k. ws ! j = - 1" by auto
    then show ?thesis
    proof cases
      case 1
      with True show ?thesis by (auto simp: less_Suc_eq_0_disj)
    next
      case (2 k)
      with True show ?thesis by (intro disjI2 exI [of _ "Suc k"]) (auto simp: less_Suc_eq_0_disj)
    qed
  next
    case False
    with "2.prems" show ?thesis by (auto split: if_splits simp: less_Suc_eq_0_disj intro: exI [of _ 0])
  qed
qed

section \<open>Properties\<close>

text \<open>
  \<open>ffs64\<close> and \<open>fls64\<close> return the lowest and the highest set bit of a nonzero word, and the
  invalid index for zero.
\<close>

theorem scans_find_bits:
  "(x = 0 \<longrightarrow> ffs64 x = INVALID_BIT_INDEX \<and> fls64 x = INVALID_BIT_INDEX)
   \<and> (x \<noteq> 0 \<longrightarrow> bit x (ffs64 x) \<and> (\<forall>j. j < ffs64 x \<longrightarrow> \<not> bit x j)
        \<and> bit x (fls64 x) \<and> (\<forall>j. fls64 x < j \<longrightarrow> \<not> bit x j) \<and> clz64 x = 63 - fls64 x)"
  using ffs64_least [of x] fls64_greatest [of x] by (auto simp: ffs64_def fls64_def)

text \<open>
  The loop of \<open>bitmap_weight\<close>, which clears the lowest bit in each round, ends with the
  number of set bits.
\<close>

theorem bitmap_weight_counts: "unat (bitmap_weight bits) = card {i. bit bits i}"
proof -
  have "{i. bit bits i} \<subseteq> {..<64}" by (auto dest: bit_imp_le_length)
  then have "card {i. bit bits i} \<le> 64" using card_mono [of "{..<64::nat}"] by fastforce
  then show ?thesis by (simp add: bitmap_weight_def bitmap_weight_loop_card unat_of_nat)
qed

end
