(* ===== verification/List_Head.thy ===== *)
theory List_Head
  imports Prelude "HOL-Library.Monad_Syntax"
begin

text \<open>
  The intrusive circular lists of \<open>include/lib/list.h\<close>. A heap gives every node its \<open>next\<close> and
  \<open>prev\<close> pointer; the operations are the pointer assignments of the source in their order. The
  predicate \<open>dll\<close> relates a head node to the list of the nodes that hang on it, and the lemmas show
  that each operation does on that list what its name says. The run queues of the schedulers and
  the timer list are modelled by those abstract lists.
\<close>

section \<open>Nodes and operations\<close>

record 'n list_heap =
  nxt :: "'n \<Rightarrow> 'n"
  prv :: "'n \<Rightarrow> 'n"

definition set_nxt :: "'n \<Rightarrow> 'n \<Rightarrow> 'n list_heap \<Rightarrow> 'n list_heap" where
  "set_nxt p v h = h\<lparr>nxt := (nxt h)(p := v)\<rparr>"

definition set_prv :: "'n \<Rightarrow> 'n \<Rightarrow> 'n list_heap \<Rightarrow> 'n list_heap" where
  "set_prv p v h = h\<lparr>prv := (prv h)(p := v)\<rparr>"

lemma nxt_set_nxt [simp]: "nxt (set_nxt p v h) = (nxt h)(p := v)"
  and prv_set_nxt [simp]: "prv (set_nxt p v h) = prv h"
  and nxt_set_prv [simp]: "nxt (set_prv p v h) = nxt h"
  and prv_set_prv [simp]: "prv (set_prv p v h) = (prv h)(p := v)"
  by (simp_all add: set_nxt_def set_prv_def)

definition INIT_LIST_HEAD :: "'n \<Rightarrow> 'n list_heap \<Rightarrow> 'n list_heap" where
  "INIT_LIST_HEAD p h = set_prv p p (set_nxt p p h)"

definition list_add_node :: "'n \<Rightarrow> 'n \<Rightarrow> 'n \<Rightarrow> 'n list_heap \<Rightarrow> 'n list_heap" where
  "list_add_node new prev next h =
     (let h = set_prv next new h;
          h = set_nxt new next h;
          h = set_prv new prev h
      in set_nxt prev new h)"

definition list_add :: "'n \<Rightarrow> 'n \<Rightarrow> 'n list_heap \<Rightarrow> 'n list_heap" where
  "list_add new head h = list_add_node new head (nxt h head) h"

definition list_add_tail :: "'n \<Rightarrow> 'n \<Rightarrow> 'n list_heap \<Rightarrow> 'n list_heap" where
  "list_add_tail new head h = list_add_node new (prv h head) head h"

definition list_del_node :: "'n \<Rightarrow> 'n \<Rightarrow> 'n list_heap \<Rightarrow> 'n list_heap" where
  "list_del_node prev next h = set_nxt prev next (set_prv next prev h)"

definition list_del :: "'n \<Rightarrow> 'n list_heap \<Rightarrow> 'n list_heap" where
  "list_del entry h = list_del_node (prv h entry) (nxt h entry) h"

definition list_del_init :: "'n \<Rightarrow> 'n list_heap \<Rightarrow> 'n list_heap" where
  "list_del_init entry h = INIT_LIST_HEAD entry (list_del_node (prv h entry) (nxt h entry) h)"

definition list_empty :: "'n \<Rightarrow> 'n list_heap \<Rightarrow> bool" where
  "list_empty head h \<longleftrightarrow> nxt h head = head"

definition list_splice_node :: "'n \<Rightarrow> 'n \<Rightarrow> 'n list_heap \<Rightarrow> 'n list_heap" where
  "list_splice_node list head h =
     (let first = nxt h list; last = prv h list; at = nxt h head;
          h = set_prv first head h;
          h = set_nxt head first h;
          h = set_nxt last at h
      in set_prv at last h)"

definition list_splice :: "'n \<Rightarrow> 'n \<Rightarrow> 'n list_heap \<Rightarrow> 'n list_heap" where
  "list_splice list head h = (if \<not> list_empty list h then list_splice_node list head h else h)"

definition list_splice_init :: "'n \<Rightarrow> 'n \<Rightarrow> 'n list_heap \<Rightarrow> 'n list_heap" where
  "list_splice_init list head h =
     (if \<not> list_empty list h then INIT_LIST_HEAD list (list_splice_node list head h) else h)"

definition get_first_item :: "'n \<Rightarrow> 'n list_heap \<Rightarrow> 'n" where
  "get_first_item head h = nxt h head"

text \<open>
  \<open>list_for_each\<close> visits the nodes from \<open>head->next\<close> until it is back at \<open>head\<close>. On a broken
  list it need not come back: the result is then \<open>None\<close>.
\<close>

partial_function (option) list_walk :: "'n list_heap \<Rightarrow> 'n \<Rightarrow> 'n \<Rightarrow> 'n list option" where
  "list_walk h head pos =
     (if pos = head then Some []
      else do { xs \<leftarrow> list_walk h head (nxt h pos); Some (pos # xs) })"

definition list_for_each :: "'n list_heap \<Rightarrow> 'n \<Rightarrow> 'n list option" where
  "list_for_each h head = list_walk h head (nxt h head)"

text \<open>
  The insertion loop of the schedulers: put \<open>new\<close> in front of the first node that satisfies \<open>p\<close>,
  at the tail when there is none.
\<close>

partial_function (option) list_insert_loop ::
  "('n \<Rightarrow> bool) \<Rightarrow> 'n \<Rightarrow> 'n \<Rightarrow> 'n \<Rightarrow> 'n list_heap \<Rightarrow> 'n list_heap option" where
  "list_insert_loop p new head pos h =
     (if pos = head then Some (list_add_tail new head h)
      else if p pos then Some (list_add_node new (prv h pos) pos h)
      else list_insert_loop p new head (nxt h pos) h)"

section \<open>The abstraction\<close>

fun linked :: "'n list_heap \<Rightarrow> 'n list \<Rightarrow> bool" where
  "linked h (x # y # ys) \<longleftrightarrow> nxt h x = y \<and> prv h y = x \<and> linked h (y # ys)"
| "linked h _ \<longleftrightarrow> True"

definition dll :: "'n list_heap \<Rightarrow> 'n \<Rightarrow> 'n list \<Rightarrow> bool" where
  "dll h head xs \<longleftrightarrow> distinct (head # xs) \<and> linked h (head # xs @ [head])"

lemma linked_append:
  "linked h (xs @ y # ys) \<longleftrightarrow> linked h (xs @ [y]) \<and> linked h (y # ys)"
  by (induction h xs rule: linked.induct) auto

lemma linked_pair:
  "linked h (xs @ x # y # ys) \<longleftrightarrow>
     linked h (xs @ [x]) \<and> nxt h x = y \<and> prv h y = x \<and> linked h (y # ys)"
  using linked_append [of h xs x "y # ys"] by auto

lemma linked_frame:
  assumes "\<And>x. x \<in> set (butlast xs) \<Longrightarrow> nxt h' x = nxt h x"
    and "\<And>x. x \<in> set (tl xs) \<Longrightarrow> prv h' x = prv h x"
  shows "linked h' xs = linked h xs"
  using assms by (induction h xs rule: linked.induct) auto

lemma dll_distinct: "dll h head xs \<Longrightarrow> distinct (head # xs)"
  by (simp add: dll_def)

text \<open>An operation that writes no pointer of a list leaves that list as it is.\<close>

lemma dll_frame:
  assumes "dll h head xs"
    and "\<And>x. x \<in> set (head # xs) \<Longrightarrow> nxt h' x = nxt h x \<and> prv h' x = prv h x"
  shows "dll h' head xs"
proof -
  have "linked h' (head # xs @ [head]) = linked h (head # xs @ [head])"
    using assms(2) by (intro linked_frame) (auto simp: butlast_append)
  with assms(1) show ?thesis by (simp add: dll_def)
qed

lemma dll_empty: "dll h head [] \<longleftrightarrow> nxt h head = head \<and> prv h head = head"
  by (auto simp: dll_def)

lemma dll_nxt_head: "dll h head xs \<Longrightarrow> nxt h head = hd (xs @ [head])"
  by (cases xs) (auto simp: dll_def)

lemma dll_prv_head: "dll h head xs \<Longrightarrow> prv h head = last (head # xs)"
proof (cases xs rule: rev_cases)
  case (snoc ys y)
  moreover assume "dll h head xs"
  ultimately show ?thesis by (simp add: dll_def linked_pair [of h "head # ys" y head "[]", simplified])
qed (auto simp: dll_def)

text \<open>
  The two neighbours \<open>a\<close> and \<open>b\<close> of a cut of the cycle, and the two arcs that end in \<open>a\<close> and
  start in \<open>b\<close>.
\<close>

lemma dll_cut:
  assumes "dll h head (ys @ zs)"
  obtains a b ps qs where "a = last (head # ys)" and "b = hd (zs @ [head])"
    and "head # ys = ps @ [a]" and "zs @ [head] = b # qs"
    and "linked h (ps @ [a])" and "linked h (b # qs)" and "nxt h a = b" and "prv h b = a"
proof -
  define a b where "a = last (head # ys)" and "b = hd (zs @ [head])"
  have ps: "head # ys = butlast (head # ys) @ [a]" by (simp add: a_def append_butlast_last_id)
  have qs: "zs @ [head] = b # tl (zs @ [head])" by (cases zs) (auto simp: b_def)
  from ps qs have "head # (ys @ zs) @ [head] = butlast (head # ys) @ a # b # tl (zs @ [head])"
    by (metis append.assoc append_Cons append_Nil)
  with assms have "linked h (butlast (head # ys) @ a # b # tl (zs @ [head]))"
    by (simp only: dll_def)
  then show thesis using that [OF a_def b_def ps qs] by (simp only: linked_pair)
qed

text \<open>The arcs are untouched by pointer writes at the inner ends and at nodes outside.\<close>

lemma linked_left_arc:
  assumes "distinct (head # ys)" and "head # ys = ps @ [a]"
    and "\<And>x. x \<in> set (head # ys) \<Longrightarrow> x \<noteq> a \<Longrightarrow> nxt h' x = nxt h x"
    and "\<And>x. x \<in> set ys \<Longrightarrow> prv h' x = prv h x"
  shows "linked h' (ps @ [a]) = linked h (ps @ [a])"
proof (rule linked_frame)
  have bl: "set (butlast (ps @ [a])) = set (head # ys) - {a}"
    using assms(1) unfolding assms(2) by auto
  show "nxt h' x = nxt h x" if "x \<in> set (butlast (ps @ [a]))" for x
    using that assms(3) unfolding bl by blast
  have "tl (ps @ [a]) = ys" using assms(2) by (metis list.sel(3))
  then show "prv h' x = prv h x" if "x \<in> set (tl (ps @ [a]))" for x
    using that assms(4) by simp
qed

lemma linked_right_arc:
  assumes "distinct (head # zs)" and "zs @ [head] = b # qs"
    and "\<And>x. x \<in> set zs \<Longrightarrow> nxt h' x = nxt h x"
    and "\<And>x. x \<in> set (head # zs) \<Longrightarrow> x \<noteq> b \<Longrightarrow> prv h' x = prv h x"
  shows "linked h' (b # qs) = linked h (b # qs)"
proof (rule linked_frame)
  have "butlast (b # qs) = zs" using assms(2) by (metis butlast_snoc)
  then show "nxt h' x = nxt h x" if "x \<in> set (butlast (b # qs))" for x
    using that assms(3) by simp
  have "distinct (zs @ [head])" "set (zs @ [head]) = set (head # zs)" using assms(1) by auto
  then have "set (tl (b # qs)) = set (head # zs) - {b}" unfolding assms(2) by auto
  then show "prv h' x = prv h x" if "x \<in> set (tl (b # qs))" for x
    using that assms(4) by blast
qed

section \<open>What the operations do\<close>

lemma dll_add_node:
  assumes "dll h head (ys @ zs)" and new: "new \<notin> set (head # ys @ zs)"
  shows "dll (list_add_node new (last (head # ys)) (hd (zs @ [head])) h) head (ys @ new # zs)"
proof -
  obtain a b ps qs where ab: "a = last (head # ys)" "b = hd (zs @ [head])"
    and ps: "head # ys = ps @ [a]" and qs: "zs @ [head] = b # qs"
    and lp: "linked h (ps @ [a])" and lq: "linked h (b # qs)"
    using assms(1) by (rule dll_cut)
  let ?h = "list_add_node new a b h"
  have d: "distinct (head # ys @ zs)" using assms(1) by (rule dll_distinct)
  have a: "a \<in> set (head # ys)" and b: "b \<in> set (head # zs)"
    using arg_cong [OF ps, of set] arg_cong [OF qs, of set] by auto
  have b': "b \<notin> set ys" and a': "a \<notin> set zs" using a b d by auto
  have nx: "nxt ?h = (nxt h)(new := b, a := new)"
    and pv: "prv ?h = (prv h)(b := new, new := a)"
    by (simp_all add: list_add_node_def Let_def)
  have "linked ?h (ps @ [a]) = linked h (ps @ [a])"
    using d new b' by (intro linked_left_arc [OF _ ps]) (auto simp: nx pv)
  moreover have "linked ?h (b # qs) = linked h (b # qs)"
    using d new a' by (intro linked_right_arc [OF _ qs]) (auto simp: nx pv)
  moreover have "head # (ys @ new # zs) @ [head] = ps @ a # new # b # qs"
    using ps qs by (metis append.assoc append_Cons append_Nil)
  moreover have "a \<noteq> new" "b \<noteq> new" using a b new by auto
  ultimately have "linked ?h (head # (ys @ new # zs) @ [head])"
    using lp lq by (simp add: linked_pair [of ?h ps] nx pv)
  then show ?thesis using d new by (auto simp: dll_def ab)
qed

lemma dll_list_add:
  "dll h head xs \<Longrightarrow> new \<notin> set (head # xs) \<Longrightarrow> dll (list_add new head h) head (new # xs)"
  using dll_add_node [of h head "[]" xs new] by (simp add: list_add_def dll_nxt_head)

lemma dll_list_add_tail:
  "dll h head xs \<Longrightarrow> new \<notin> set (head # xs) \<Longrightarrow> dll (list_add_tail new head h) head (xs @ [new])"
  using dll_add_node [of h head xs "[]" new] by (simp add: list_add_tail_def dll_prv_head)

lemma dll_prv_pos:
  assumes "dll h head (ys @ y # zs)" shows "prv h y = last (head # ys)"
  by (rule dll_cut [OF assms]) simp

lemma dll_nxt_pos:
  assumes "dll h head (ys @ y # zs)" shows "nxt h y = hd (zs @ [head])"
  by (rule dll_cut [of h head "ys @ [y]" zs]) (use assms in auto)

lemma dll_add_before:
  assumes "dll h head (ys @ y # zs)" and "new \<notin> set (head # ys @ y # zs)"
  shows "dll (list_add_node new (prv h y) y h) head (ys @ new # y # zs)"
  using dll_add_node [OF assms] dll_prv_pos [OF assms(1)] by simp

lemma dll_list_del_node:
  assumes "dll h head (ys @ e # zs)"
  shows "dll (list_del_node (prv h e) (nxt h e) h) head (ys @ zs)"
proof -
  obtain a ps where a: "a = last (head # ys)" and ps: "head # ys = ps @ [a]"
    and lp: "linked h (ps @ [a])"
    using assms by (rule dll_cut)
  have "dll h head ((ys @ [e]) @ zs)" using assms by simp
  then obtain b qs where b: "b = hd (zs @ [head])" and qs: "zs @ [head] = b # qs"
    and lq: "linked h (b # qs)"
    by (rule dll_cut)
  let ?h = "list_del_node a b h"
  have ab: "prv h e = a" "nxt h e = b"
    using dll_prv_pos [OF assms] dll_nxt_pos [OF assms] a b by auto
  have d: "distinct (head # ys @ e # zs)" using assms by (rule dll_distinct)
  have "a \<in> set (head # ys)" "b \<in> set (head # zs)"
    using arg_cong [OF ps, of set] arg_cong [OF qs, of set] by auto
  then have ab': "b \<notin> set ys" "a \<notin> set zs" using d by auto
  have nx: "nxt ?h = (nxt h)(a := b)" and pv: "prv ?h = (prv h)(b := a)"
    by (simp_all add: list_del_node_def)
  have "linked ?h (ps @ [a]) = linked h (ps @ [a])"
    using d ab' by (intro linked_left_arc [OF _ ps]) (auto simp: nx pv)
  moreover have "linked ?h (b # qs) = linked h (b # qs)"
    using d ab' by (intro linked_right_arc [OF _ qs]) (auto simp: nx pv)
  moreover have "head # (ys @ zs) @ [head] = ps @ a # b # qs"
    using ps qs by (metis append.assoc append_Cons append_Nil)
  ultimately have "linked ?h (head # (ys @ zs) @ [head])"
    using lp lq by (simp add: linked_pair [of ?h ps] nx pv)
  then show ?thesis using d by (simp add: dll_def ab)
qed

lemma dll_INIT_other:
  "dll h head xs \<Longrightarrow> e \<notin> set (head # xs) \<Longrightarrow> dll (INIT_LIST_HEAD e h) head xs"
  by (erule dll_frame) (auto simp: INIT_LIST_HEAD_def)

lemma dll_list_del_init:
  assumes "dll h head (ys @ e # zs)"
  shows "dll (list_del_init e h) head (ys @ zs)" and "dll (list_del_init e h) e []"
proof -
  have "e \<notin> set (head # ys @ zs)" using dll_distinct [OF assms] by auto
  then show "dll (list_del_init e h) head (ys @ zs)"
    unfolding list_del_init_def by (intro dll_INIT_other dll_list_del_node assms)
  show "dll (list_del_init e h) e []"
    by (simp add: dll_empty list_del_init_def INIT_LIST_HEAD_def)
qed

text \<open>Removing a node that is on no list changes nothing.\<close>

lemma list_del_init_unlinked: "dll h e [] \<Longrightarrow> list_del_init e h = h"
  by (cases h) (auto simp: dll_empty list_del_init_def list_del_node_def INIT_LIST_HEAD_def
      set_nxt_def set_prv_def fun_upd_idem_iff)

lemma list_empty_iff: "dll h head xs \<Longrightarrow> list_empty head h \<longleftrightarrow> xs = []"
  by (cases xs) (auto simp: list_empty_def dll_def)


lemma list_walk_dll:
  "dll h head (ys @ zs) \<Longrightarrow> list_walk h head (hd (zs @ [head])) = Some zs"
proof (induction zs arbitrary: ys)
  case Nil
  then show ?case by (simp add: list_walk.simps)
next
  case (Cons z zs)
  have "z \<noteq> head" using dll_distinct [OF Cons.prems] by auto
  moreover have "list_walk h head (hd (zs @ [head])) = Some zs"
    using Cons.IH [of "ys @ [z]"] Cons.prems by simp
  ultimately show ?case
    using dll_nxt_pos [OF Cons.prems] by (simp add: list_walk.simps [of h head z])
qed

lemma list_for_each_dll: "dll h head xs \<Longrightarrow> list_for_each h head = Some xs"
  using list_walk_dll [of h head "[]" xs] by (simp add: list_for_each_def dll_nxt_head)

lemma list_insert_loop_dll:
  assumes "dll h head (ys @ zs)" and "new \<notin> set (head # ys @ zs)"
  shows "\<exists>h'. list_insert_loop p new head (hd (zs @ [head])) h = Some h'
    \<and> dll h' head (ys @ insert_before p new zs)"
  using assms
proof (induction zs arbitrary: ys)
  case Nil
  then show ?case using dll_list_add_tail [of h head ys new] by (simp add: list_insert_loop.simps)
next
  case (Cons z zs)
  have "z \<noteq> head" using dll_distinct [OF Cons.prems(1)] by auto
  show ?case
  proof (cases "p z")
    case True
    with \<open>z \<noteq> head\<close> show ?thesis
      using dll_add_before [OF Cons.prems] by (simp add: list_insert_loop.simps)
  next
    case False
    with \<open>z \<noteq> head\<close> have "list_insert_loop p new head z h
        = list_insert_loop p new head (hd (zs @ [head])) h"
      using dll_nxt_pos [OF Cons.prems(1)] by (simp add: list_insert_loop.simps [of p new head z])
    with False Cons.IH [of "ys @ [z]"] Cons.prems show ?thesis by simp
  qed
qed

lemma linked_appendD: "linked h (xs @ ys) \<Longrightarrow> linked h xs \<and> linked h ys"
proof (induction xs)
  case (Cons x xs)
  then show ?case by (cases xs; cases ys) auto
qed simp

lemma set_butlast_distinct: "distinct xs \<Longrightarrow> xs \<noteq> [] \<Longrightarrow> set (butlast xs) = set xs - {last xs}"
  by (cases xs rule: rev_cases) auto

lemma set_tl_distinct: "distinct xs \<Longrightarrow> xs \<noteq> [] \<Longrightarrow> set (tl xs) = set xs - {hd xs}"
  by (cases xs) auto

lemma dll_list_splice_node:
  assumes l: "dll h list ls" and x: "dll h head xs"
    and disj: "set (list # ls) \<inter> set (head # xs) = {}" and ne: "ls \<noteq> []"
  shows "dll (list_splice_node list head h) head (ls @ xs)"
proof -
  define a b c where "a = hd ls" and "b = last ls" and "c = hd (xs @ [head])"
  have ptr: "nxt h list = a" "prv h list = b" "nxt h head = c"
    using dll_nxt_head [OF l] dll_prv_head [OF l] dll_nxt_head [OF x] ne
    by (auto simp: a_def b_def c_def)
  let ?h = "list_splice_node list head h"
  have nx: "nxt ?h = (nxt h)(head := a, b := c)" and pv: "prv ?h = (prv h)(a := head, c := b)"
    by (simp_all add: list_splice_node_def Let_def ptr)
  have d: "distinct (list # ls)" "distinct (head # xs)" using l x by (auto dest: dll_distinct)
  have in_ls: "a \<in> set ls" "b \<in> set ls" using ne by (auto simp: a_def b_def)
  have in_xs: "c \<in> set (xs @ [head])" by (cases xs) (auto simp: c_def)
  have "linked ?h ls = linked h ls"
    using set_butlast_distinct [of ls] set_tl_distinct [of ls] d(1) ne disj in_xs
    by (intro linked_frame) (auto simp: nx pv a_def b_def)
  moreover have "linked ?h (xs @ [head]) = linked h (xs @ [head])"
    using set_tl_distinct [of "xs @ [head]"] d(2) disj in_ls
    by (intro linked_frame) (auto simp: nx pv c_def)
  moreover have "linked h ls" "linked h (xs @ [head])"
    using linked_appendD [of h "[list]" "ls @ [list]"] linked_appendD [of h ls "[list]"]
      linked_appendD [of h "[head]" "xs @ [head]"] l x by (auto simp: dll_def)
  moreover have "ls = a # tl ls" "ls = butlast ls @ [b]" "xs @ [head] = c # tl (xs @ [head])"
    using ne by (auto simp: a_def b_def c_def)
  moreover have "a \<noteq> c" "nxt ?h b = c" "prv ?h c = b" "prv ?h a = head" "nxt ?h head = a"
    using in_ls in_xs disj by (auto simp: nx pv)
  ultimately have "linked ?h (head # ls)" "linked ?h (butlast ls @ b # c # tl (xs @ [head]))"
    by (metis linked.simps(1), metis linked_pair)
  then have "linked ?h (head # ls @ xs @ [head])"
    using \<open>ls = butlast ls @ [b]\<close> \<open>xs @ [head] = c # tl (xs @ [head])\<close>
    by (metis append.assoc append_Cons append_Nil linked_append)
  then show ?thesis using d disj by (auto simp: dll_def)
qed


lemma dll_list_splice_init:
  assumes "dll h list ls" and "dll h head xs" and "set (list # ls) \<inter> set (head # xs) = {}"
  shows "dll (list_splice_init list head h) head (ls @ xs)"
    and "dll (list_splice_init list head h) list []"
proof -
  have "list \<notin> set (head # ls @ xs)" using assms(3) dll_distinct [OF assms(1)] by auto
  then show "dll (list_splice_init list head h) head (ls @ xs)"
    using assms dll_list_splice_node [OF assms] list_empty_iff [OF assms(1)]
    by (auto simp: list_splice_init_def intro: dll_INIT_other)
  show "dll (list_splice_init list head h) list []"
    using assms(1) list_empty_iff [OF assms(1)]
    by (auto simp: list_splice_init_def dll_empty INIT_LIST_HEAD_def)
qed

section \<open>The contract the schedulers rely on\<close>

text \<open>
  What a client of the list module may assume: \<open>rep h q xs\<close> says that the queue headed by \<open>q\<close>
  holds \<open>xs\<close> in this order.
\<close>

locale intrusive_list =
  fixes rep :: "'h \<Rightarrow> 'n \<Rightarrow> 'n list \<Rightarrow> bool"
    and add_head add_tail :: "'n \<Rightarrow> 'n \<Rightarrow> 'h \<Rightarrow> 'h"
    and remove :: "'n \<Rightarrow> 'h \<Rightarrow> 'h"
    and first :: "'n \<Rightarrow> 'h \<Rightarrow> 'n"
    and emptyp :: "'n \<Rightarrow> 'h \<Rightarrow> bool"
    and each :: "'h \<Rightarrow> 'n \<Rightarrow> 'n list option"
  assumes rep_distinct: "rep h q xs \<Longrightarrow> distinct (q # xs)"
    and rep_add_head: "rep h q xs \<Longrightarrow> x \<notin> set (q # xs) \<Longrightarrow> rep (add_head x q h) q (x # xs)"
    and rep_add_tail: "rep h q xs \<Longrightarrow> x \<notin> set (q # xs) \<Longrightarrow> rep (add_tail x q h) q (xs @ [x])"
    and rep_remove: "rep h q xs \<Longrightarrow> x \<in> set xs \<Longrightarrow> rep (remove x h) q (remove1 x xs)"
    and first_hd: "rep h q (x # xs) \<Longrightarrow> first q h = x"
    and emptyp_iff: "rep h q xs \<Longrightarrow> emptyp q h \<longleftrightarrow> xs = []"
    and each_all: "rep h q xs \<Longrightarrow> each h q = Some xs"
begin

text \<open>A queue represents one list only.\<close>

lemma rep_unique: "rep h q xs \<Longrightarrow> rep h q ys \<Longrightarrow> xs = ys"
  by (metis each_all option.inject)

text \<open>The round-robin step of the I/O-sensitive scheduler: the head goes to the tail.\<close>

lemma rep_rotate:
  assumes "rep h q (x # xs)"
  shows "rep (add_tail x q (remove x h)) q (xs @ [x])"
  using rep_remove [OF assms, of x] rep_add_tail [of "remove x h" q xs x] rep_distinct [OF assms]
  by auto

text \<open>Nodes added at the tail one after the other are visited in that order.\<close>

lemma rep_fold_add_tail:
  assumes "rep h q xs" and "distinct ys" and "set ys \<inter> set (q # xs) = {}"
  shows "rep (fold (\<lambda>y. add_tail y q) ys h) q (xs @ ys)"
  using assms
proof (induction ys arbitrary: h xs)
  case Nil
  then show ?case by simp
next
  case (Cons y ys)
  then have "rep (add_tail y q h) q (xs @ [y])" by (intro rep_add_tail) auto
  from Cons.IH [OF this] Cons.prems show ?case by auto
qed

end

lemma remove1_split: "e \<in> set xs \<Longrightarrow> \<exists>ys zs. xs = ys @ e # zs \<and> remove1 e xs = ys @ zs"
proof -
  assume "e \<in> set xs"
  then obtain ys zs where "xs = ys @ e # zs" "e \<notin> set ys" by (metis split_list_first)
  then have "remove1 e xs = ys @ zs" by (simp add: remove1_append)
  with \<open>xs = ys @ e # zs\<close> show ?thesis by blast
qed

interpretation lh: intrusive_list dll list_add list_add_tail list_del_init get_first_item
  list_empty list_for_each
proof unfold_locales
  show "dll (list_del_init e h) q (remove1 e xs)" if "dll h q xs" "e \<in> set xs" for h q xs e
    using that dll_list_del_init(1) remove1_split by metis
  show "get_first_item q h = x" if "dll h q (x # xs)" for h q x xs
    using dll_nxt_head [OF that] by (simp add: get_first_item_def)
qed (rule dll_distinct dll_list_add dll_list_add_tail list_empty_iff list_for_each_dll; assumption)+

section \<open>Adding a node that is still linked\<close>

text \<open>
  \<open>sched_arinc653_init_data\<close> initialises a node and appends it to the thread list of the pCPU
  without taking it off the list first. Where \<open>reset_thread_data\<close> runs it on a registered thread
  the node is still linked. If it is the last one it then points at itself, and a walk over the
  list does not come back; otherwise the nodes behind it are lost.
\<close>

definition relink_tail :: "'n \<Rightarrow> 'n \<Rightarrow> 'n list_heap \<Rightarrow> 'n list_heap" where
  "relink_tail e head h = list_add_tail e head (INIT_LIST_HEAD e h)"

lemma list_walk_self_loop: "nxt h e = e \<Longrightarrow> e \<noteq> head \<Longrightarrow> list_walk h head e = None"
proof (rule ccontr)
  assume e: "nxt h e = e" "e \<noteq> head" and "list_walk h head e \<noteq> None"
  then obtain xs where "list_walk h head e = Some xs" by auto
  moreover from this e have "list_walk h head e = Some (e # xs)"
    by (subst list_walk.simps) simp
  ultimately show False by simp
qed

lemma list_walk_prefix:
  assumes "linked h (y # ys @ [e])" and "head \<notin> set (y # ys)" and "nxt h' = (nxt h)(e := n)"
    and "e \<notin> set (y # ys)"
  shows "list_walk h' head y = map_option (\<lambda>xs. y # ys @ xs) (list_walk h' head e)"
  using assms
proof (induction ys arbitrary: y)
  case Nil
  then show ?case by (simp add: list_walk.simps [of h' head y] map_conv_bind_option o_def)
next
  case (Cons z zs)
  then have "list_walk h' head z = map_option (\<lambda>xs. z # zs @ xs) (list_walk h' head e)" by simp
  with Cons.prems show ?case
    by (auto simp: list_walk.simps [of h' head y] map_conv_bind_option o_def)
qed


lemma relink_last:
  assumes "dll h head (ys @ [e])"
  shows "list_for_each (relink_tail e head h) head = None"
proof -
  let ?h = "relink_tail e head h"
  have d: "distinct (head # ys @ [e])" and "linked h (head # ys @ e # [head])"
    using assms by (auto simp: dll_def)
  then have l: "linked h (head # ys @ [e])" using linked_append [of h "head # ys" e "[head]"] by simp
  have "prv h head = e" using dll_prv_head [OF assms] by simp
  then have nx: "nxt ?h = (nxt h)(e := e)"
    using d by (auto simp: relink_tail_def list_add_tail_def list_add_node_def INIT_LIST_HEAD_def Let_def)
  have loop: "list_walk ?h head e = None" using d nx by (intro list_walk_self_loop) auto
  show ?thesis
  proof (cases ys)
    case Nil
    with l d nx loop show ?thesis by (simp add: list_for_each_def)
  next
    case (Cons y zs)
    with l d have "list_walk ?h head y = map_option (\<lambda>xs. y # zs @ xs) (list_walk ?h head e)"
      by (intro list_walk_prefix [OF _ _ nx]) auto
    with Cons l d nx loop show ?thesis by (simp add: list_for_each_def)
  qed
qed

lemma relink_inner:
  assumes "dll h head (ys @ e # z # zs)"
  shows "list_for_each (relink_tail e head h) head = Some (ys @ [e])"
proof -
  let ?h = "relink_tail e head h" and ?b = "last (z # zs)"
  have d: "distinct (head # ys @ e # z # zs)" and "linked h (head # ys @ e # (z # zs @ [head]))"
    using assms by (auto simp: dll_def)
  then have l: "linked h (head # ys @ [e])"
    using linked_append [of h "head # ys" e "z # zs @ [head]"] by simp
  have b: "prv h head = ?b" using dll_prv_head [OF assms] by simp
  have "?b \<in> set (z # zs)" by (rule last_in_set) simp
  then have "?b \<noteq> e" "?b \<noteq> head" "?b \<notin> set ys" using d by auto
  then have nx: "nxt ?h = (nxt h)(e := head, ?b := e)"
    using d b by (auto simp: relink_tail_def list_add_tail_def list_add_node_def INIT_LIST_HEAD_def Let_def)
  have e: "list_walk ?h head e = Some [e]"
    using d nx \<open>?b \<noteq> e\<close> by (auto simp: list_walk.simps [of ?h head e] list_walk.simps [of ?h head head])
  have "linked (set_nxt ?b e h) (head # ys @ [e]) = linked h (head # ys @ [e])"
    using \<open>?b \<noteq> head\<close> \<open>?b \<notin> set ys\<close> by (intro linked_frame) (auto simp: butlast_append)
  then have "linked (set_nxt ?b e h) (head # ys @ [e])" using l by simp
  moreover have "nxt ?h = (nxt (set_nxt ?b e h))(e := head)"
    using nx \<open>?b \<noteq> e\<close> by (simp add: fun_upd_twist)
  ultimately have "list_walk ?h head (nxt ?h head) = Some (ys @ [e])" if "ys = y # us" for y us
    using that d list_walk_prefix [of "set_nxt ?b e h" y us e head ?h head] e by auto
  then show ?thesis
    using d l nx e \<open>?b \<noteq> head\<close> by (cases ys) (auto simp: list_for_each_def)
qed

section \<open>Properties\<close>

text \<open>
  Claim C30. The ordered insertion every scheduler queue uses (\<open>list_for_each\<close> with
  \<open>list_add_node\<close> before the first node that satisfies the test, else \<open>list_add_tail\<close>), run on
  a well-formed circular list, ends, and the nodes it leaves linked are exactly the abstract
  insertion of the new node.
\<close>

theorem ordered_insert_refines:
  assumes "dll h head xs" and "new \<notin> set (head # xs)"
  shows "\<exists>h'. list_insert_loop p new head (nxt h head) h = Some h'
    \<and> dll h' head (insert_before p new xs)
    \<and> list_for_each h' head = Some (insert_before p new xs)"
proof -
  obtain h' where "list_insert_loop p new head (hd (xs @ [head])) h = Some h'"
    "dll h' head (insert_before p new xs)"
    using list_insert_loop_dll [of h head "[]" xs new p] assms by auto
  then show ?thesis using list_for_each_dll by (auto simp: dll_nxt_head [OF assms(1)])
qed

definition two_ring :: "nat list_heap" where
  "two_ring = \<lparr>nxt = (\<lambda>n. if n = 0 then 1 else 0), prv = (\<lambda>n. if n = 0 then 1 else 0)\<rparr>"

theorem ordered_insert_refines_witness:
  "\<exists>h'. list_insert_loop (\<lambda>n. n < 5) 7 0 (nxt two_ring 0) two_ring = Some h' \<and> dll h' 0 [7, 1]
     \<and> list_for_each h' 0 = Some [7, 1]"
proof -
  have "dll two_ring 0 [1]" by (simp add: dll_def two_ring_def)
  from ordered_insert_refines [OF this, of 7 "\<lambda>n. n < 5"] show ?thesis by simp
qed

end
