(* ===== verification/Sched_Types.thy ===== *)
theory Sched_Types
  imports Timer Bits List_Head
begin

text \<open>
  The data of the scheduler framework (\<open>include/common/schedule.h\<close>) and of its policies
  (\<open>core/sched/\<close>), and the small operations the policies share. Threads live in a store named by
  references; the idle thread of pCPU \<open>p\<close> is \<open>Idle p\<close>. The private area \<open>data\<close> of a thread, which
  each policy overlays with its own struct, is one field per policy: a thread belongs to one pCPU
  and a pCPU to one policy, so no area is read under two types. A run queue is the list of the
  threads whose node hangs on it; that a list stands for the linked nodes is the refinement of
  \<open>List_Head\<close>. \<open>sched_ctl\<close> of a thread and the argument of the hooks name a per-pCPU control block by
  its pCPU; \<open>priv\<close> is the policy's control block of the same pCPU.
\<close>

section \<open>Threads\<close>

datatype thread_object_state = THREAD_STS_RUNNING | THREAD_STS_RUNNABLE | THREAD_STS_BLOCKED

definition PRIO_IDLE :: u32 where "PRIO_IDLE = 0"
definition PRIO_LOW :: u32 where "PRIO_LOW = 1"
definition PRIO_HIGH :: u32 where "PRIO_HIGH = 2"
definition PRIO_MAX :: u32 where "PRIO_MAX = 3"

record sched_params =
  prio :: u32
  bvt_weight :: u8
  bvt_warp_value :: s32
  bvt_warp_limit :: u32
  bvt_unwarp_period :: u32
  cbs_period_us :: u32
  cbs_budget_us :: u32
  bfp_period_us :: u32
  bfp_budget_us :: u32

record sched_latency_stats =
  switches :: u64
  last_wait_ticks :: u64
  max_wait_ticks :: u64
  state_since :: u64
  runnable_since :: u64
  runtime_ticks :: u64
  wait_hist :: "u64 list"

definition SCHED_LATENCY_HIST_BUCKETS :: nat where "SCHED_LATENCY_HIST_BUCKETS = 8"

record sched_iorr_data =
  iorr_slice_cycles :: u64
  iorr_last_cycles :: u64
  iorr_left_cycles :: s64

record sched_bvt_data =
  mcu :: u64
  weight :: u8
  vt_ratio :: u64
  warp_on :: bool
  warp_value :: s32
  warp_limit :: u32
  unwarp_period :: u32
  warp_left :: u32
  last_unwarp_tsc :: u64
  avt :: s64
  evt :: s64
  residual :: u64
  start_tsc :: u64

datatype sched_rtds_queue = RTDS_QUEUE_NONE | RTDS_QUEUE_READY | RTDS_QUEUE_DEPLETED

record sched_rtds_data =
  rtds_period_ticks :: u64
  rtds_budget_ticks :: u64
  rtds_remaining_ticks :: u64
  rtds_deadline_ticks :: u64
  rtds_last_start_ticks :: u64
  rtds_queue :: sched_rtds_queue

record sched_cbs_data =
  cbs_period_ticks :: u64
  cbs_budget_ticks :: u64
  cbs_remaining_ticks :: u64
  cbs_deadline_ticks :: u64
  cbs_last_start_ticks :: u64
  cbs_depleted_count :: u64
  cbs_replenish_count :: u64
  cbs_wake_replenish_count :: u64
  cbs_late_account_count :: u64

datatype sched_bfp_queue = BFP_QUEUE_NONE | BFP_QUEUE_READY | BFP_QUEUE_DEPLETED

record sched_bfp_data =
  bfp_period_ticks :: u64
  bfp_budget_ticks :: u64
  bfp_remaining_ticks :: u64
  bfp_next_replenish_ticks :: u64
  bfp_last_start_ticks :: u64
  bfp_depleted_count :: u64
  bfp_replenish_count :: u64
  bfp_overrun_count :: u64
  bfp_priority :: u32
  bfp_queue :: sched_bfp_queue

record thread_object =
  node_linked :: bool
  name :: string
  pcpu_id :: nat
  sched_ctl :: "nat option"
  status :: thread_object_state
  be_blocking :: bool
  is_vcpu :: bool
  priority_pending :: bool
  freeze_epoch :: u64
  deferred_wake :: bool
  vm_id :: nat
  vcpu_id :: nat
  ptrauth_return_authenticated :: bool
  switch_out :: bool
  switch_in :: bool
  latency :: sched_latency_stats
  prio_data :: s32
  iorr_data :: sched_iorr_data
  bvt_data :: sched_bvt_data
  rtds_data :: sched_rtds_data
  cbs_data :: sched_cbs_data
  bfp_data :: sched_bfp_data

text \<open>
  \<open>node_linked\<close> tells whether the thread's registry node hangs on a list (\<open>!list_empty(&obj->node)\<close>).
  \<open>switch_out\<close> and \<open>switch_in\<close> tell whether the thread has the callback.
\<close>

section \<open>Control blocks\<close>

datatype sched_policy_id =
    SCHED_POLICY_NONE | SCHED_POLICY_NOOP | SCHED_POLICY_IORR | SCHED_POLICY_BVT
  | SCHED_POLICY_RTDS | SCHED_POLICY_CBS | SCHED_POLICY_PRIO | SCHED_POLICY_ARINC653
  | SCHED_POLICY_BFP

text \<open>The eight \<open>acrn_scheduler\<close> objects, by name.\<close>

datatype sched_id =
    Sched_noop | Sched_iorr | Sched_bvt | Sched_rtds | Sched_cbs | Sched_prio | Sched_arinc653
  | Sched_bfp

record sched_control =
  ctl_pcpu_id :: nat
  flags :: u64
  curr_obj :: "thread_ref option"
  scheduler :: "sched_id option"
  priv :: bool
  scheduler_ticks :: u64
  context_switches :: u64
  reschedule_requests :: u64
  quiesce_request_vm_mask :: u64
  ctl_priority_pending :: bool

text \<open>\<open>priv\<close> tells whether the pointer to the policy's control block is set.\<close>

record sched_rtds_control =
  rtds_ready_queue :: "thread_ref list"
  rtds_depleted_queue :: "thread_ref list"

record sched_bvt_control =
  bvt_runqueue :: "thread_ref list"
  svt :: s64

record sched_cbs_control =
  cbs_runqueue :: "thread_ref list"
  cbs_timer_deadline_ticks :: u64
  cbs_admission_utilization :: u64

record sched_bfp_control =
  bfp_ready_queue :: "thread_ref list"
  bfp_depleted_queue :: "thread_ref list"
  bfp_timer_deadline_ticks :: u64
  bfp_admitted_vcpus :: nat

record sched_arinc653_entry =
  ent_vm_id :: nat
  ent_vcpu_id :: nat
  ent_runtime_us :: u32
  ent_runtime_ticks :: u64
  ent_obj :: "thread_ref option"

record sched_arinc653_control =
  entries :: "sched_arinc653_entry list"
  major_frame_ticks :: u64
  frame_start_ticks :: u64
  next_major_frame_ticks :: u64
  next_switch_ticks :: u64
  arinc_timer_deadline_ticks :: u64
  major_frame_us :: u32
  entry_count :: nat
  sched_index :: nat
  suspended :: bool

text \<open>
  The nodes of the ARINC653 thread lists: the head in the control block of a pCPU, and the node in
  the private area of a thread. This list stays a heap, as its nodes may be linked twice.
\<close>

datatype arinc_node = ThreadList nat | ThreadNode thread_ref

record sched_quiesce_slot =
  slot_obj :: "thread_ref option"
  request_generation :: u64
  ack_generation :: u64

section \<open>Configuration\<close>

record sched_cpupool_config =
  pool_configured :: bool
  has_pcpu_mask :: bool
  pcpu_mask :: u64
  policy :: sched_policy_id
  pool_period_us :: u32
  pool_budget_us :: u32
  ai_assist :: bool
  ai_min_budget_us :: u32
  ai_max_budget_us :: u32
  ai_max_step_us :: u32
  ai_min_update_ms :: u32

record sched_platform_config =
  plat_configured :: bool
  strict_placement :: bool
  exclusive :: sched_cpupool_config
  shared :: sched_cpupool_config

datatype acrn_vm_load_order = PRE_LAUNCHED_VM | SERVICE_VM | POST_LAUNCHED_VM

record acrn_vm_config =
  load_order :: acrn_vm_load_order
  vm_name :: string
  cpu_affinity :: u64
  cpu_affinity_order :: "nat list"
  vm_sched_params :: sched_params

text \<open>
  \<open>cpu_affinity_order\<close> holds the first \<open>cpu_affinity_num\<close> entries of the array. A name whose first
  character is NUL is the empty list.
\<close>

definition MAX_PCPU_NUM :: nat where "MAX_PCPU_NUM = 8"
definition CONFIG_MAX_VM_NUM :: nat where "CONFIG_MAX_VM_NUM = 16"
definition MAX_VCPUS_PER_VM :: nat where "MAX_VCPUS_PER_VM = MAX_PCPU_NUM"
definition NEED_RESCHEDULE :: nat where "NEED_RESCHEDULE = 1"
definition BSP_CPU_ID :: nat where "BSP_CPU_ID = 0"

section \<open>The system\<close>

record sched_sys = timer_sys +
  threads :: "thread_ref \<Rightarrow> thread_object"
  sched_ctls :: "nat \<Rightarrow> sched_control"
  thread_list :: "thread_ref list"
  thread_count :: u32
  sched_quiesce_slots :: "nat \<Rightarrow> nat \<Rightarrow> sched_quiesce_slot"
  platform_config :: sched_platform_config
  vm_configs :: "nat \<Rightarrow> acrn_vm_config"
  pcpu_flag :: "nat \<Rightarrow> u64"
  pcpu_nums :: nat
  ptrauth_policy_enabled :: bool
  ptrauth_ready :: "nat \<Rightarrow> bool"
  noop_thread_obj :: "nat \<Rightarrow> thread_ref option"
  prio_queue :: "nat \<Rightarrow> thread_ref list"
  iorr_runqueue :: "nat \<Rightarrow> thread_ref list"
  bvt_ctl :: "nat \<Rightarrow> sched_bvt_control"
  rtds_ctl :: "nat \<Rightarrow> sched_rtds_control"
  cbs_ctl :: "nat \<Rightarrow> sched_cbs_control"
  bfp_ctl :: "nat \<Rightarrow> sched_bfp_control"
  arinc_ctl :: "nat \<Rightarrow> sched_arinc653_control"
  arinc_lists :: "arinc_node list_heap"

definition upd_thread :: "thread_ref \<Rightarrow> (thread_object \<Rightarrow> thread_object) \<Rightarrow> sched_sys \<Rightarrow> sched_sys" where
  "upd_thread t f s = s\<lparr>threads := (threads s)(t := f (threads s t))\<rparr>"

definition upd_ctl :: "nat \<Rightarrow> (sched_control \<Rightarrow> sched_control) \<Rightarrow> sched_sys \<Rightarrow> sched_sys" where
  "upd_ctl p f s = s\<lparr>sched_ctls := (sched_ctls s)(p := f (sched_ctls s p))\<rparr>"

text \<open>Following the pointer \<open>sched_ctl\<close> of a thread; through the null pointer it faults.\<close>

definition with_ctl :: "thread_ref \<Rightarrow> (nat \<Rightarrow> sched_sys \<Rightarrow> sched_sys) \<Rightarrow> sched_sys \<Rightarrow> sched_sys" where
  "with_ctl t k s =
     (case sched_ctl (threads s t) of
        Some p \<Rightarrow> k p s
      | None \<Rightarrow> (if fault s = None then s\<lparr>fault := Some NullDeref\<rparr> else s))"

text \<open>The state after a loop; where the loop does not end the pCPU has stopped in it.\<close>

definition or_diverges :: "sched_sys \<Rightarrow> sched_sys option \<Rightarrow> sched_sys" where
  "or_diverges s r =
     (case r of
        Some s' \<Rightarrow> s'
      | None \<Rightarrow> (if fault s = None then s\<lparr>fault := Some Diverges\<rparr> else s))"

section \<open>Shared operations\<close>

definition is_idle_thread :: "thread_ref \<Rightarrow> sched_sys \<Rightarrow> bool" where
  "is_idle_thread t s \<longleftrightarrow> t = Idle (pcpu_id (threads s t))"

definition is_blocked :: "thread_ref \<Rightarrow> sched_sys \<Rightarrow> bool" where
  "is_blocked t s \<longleftrightarrow> status (threads s t) = THREAD_STS_BLOCKED"

definition is_running :: "thread_ref \<Rightarrow> sched_sys \<Rightarrow> bool" where
  "is_running t s \<longleftrightarrow> status (threads s t) = THREAD_STS_RUNNING"

definition is_runnable_or_running :: "thread_ref \<Rightarrow> sched_sys \<Rightarrow> bool" where
  "is_runnable_or_running t s \<longleftrightarrow>
     status (threads s t) = THREAD_STS_RUNNING \<or> status (threads s t) = THREAD_STS_RUNNABLE"

text \<open>\<open>get_cpu_var(idle)\<close>\<close>

definition idle_var :: "sched_sys \<Rightarrow> thread_ref" where
  "idle_var s = Idle (cur_pcpu s)"

definition sched_account_tick :: "nat \<Rightarrow> sched_sys \<Rightarrow> sched_sys" where
  "sched_account_tick p s = upd_ctl p (\<lambda>c. c\<lparr>scheduler_ticks := scheduler_ticks c + 1\<rparr>) s"

definition make_reschedule_request :: "nat \<Rightarrow> sched_sys \<Rightarrow> sched_sys" where
  "make_reschedule_request p s =
     (let s = upd_ctl p (\<lambda>c. c\<lparr>reschedule_requests := reschedule_requests c + 1,
                               flags := bitmap_set NEED_RESCHEDULE (flags c)\<rparr>) s
      in if cur_pcpu s \<noteq> p then log_event (SendReschedule p) s else s)"

definition need_reschedule :: "nat \<Rightarrow> sched_sys \<Rightarrow> bool" where
  "need_reschedule p s \<longleftrightarrow> bitmap_test NEED_RESCHEDULE (flags (sched_ctls s p))"

definition AFFINITY_CPU :: "nat \<Rightarrow> u64" where
  "AFFINITY_CPU n = push_bit n 1"

definition sched_cpupool_contains :: "sched_cpupool_config \<Rightarrow> nat \<Rightarrow> bool" where
  "sched_cpupool_contains pool p \<longleftrightarrow>
     pool_configured pool \<and> has_pcpu_mask pool \<and> and (pcpu_mask pool) (AFFINITY_CPU p) \<noteq> 0"

definition sched_get_pcpu_pool_config :: "nat \<Rightarrow> sched_sys \<Rightarrow> sched_cpupool_config option" where
  "sched_get_pcpu_pool_config p s =
     (let cfg = platform_config s
      in if plat_configured cfg then
           if sched_cpupool_contains (exclusive cfg) p then Some (exclusive cfg)
           else if sched_cpupool_contains (shared cfg) p then Some (shared cfg)
           else None
         else None)"

text \<open>\<open>per_cpu(sched_ctl, p).curr_obj\<close>\<close>

definition curr :: "nat \<Rightarrow> sched_sys \<Rightarrow> thread_ref option" where
  "curr p s = curr_obj (sched_ctls s p)"


section \<open>What a policy hook leaves alone\<close>

text \<open>
  The fields of a thread that belong to the framework. A hook called from the framework
  (\<open>pick_next\<close>, \<open>sleep\<close>, \<open>wake\<close>, \<open>prioritize\<close>, \<open>init_data\<close>, \<open>deinit_data\<close>) works on the private data,
  the queues and the timers only.
\<close>

definition thread_core :: "thread_object \<Rightarrow> thread_object" where
  "thread_core th = th\<lparr>prio_data := 0,
     iorr_data := \<lparr>iorr_slice_cycles = 0, iorr_last_cycles = 0, iorr_left_cycles = 0\<rparr>,
     bvt_data := \<lparr>mcu = 0, weight = 0, vt_ratio = 0, warp_on = False, warp_value = 0,
       warp_limit = 0, unwarp_period = 0, warp_left = 0, last_unwarp_tsc = 0, avt = 0, evt = 0,
       residual = 0, start_tsc = 0\<rparr>,
     rtds_data := \<lparr>rtds_period_ticks = 0, rtds_budget_ticks = 0, rtds_remaining_ticks = 0,
       rtds_deadline_ticks = 0, rtds_last_start_ticks = 0, rtds_queue = RTDS_QUEUE_NONE\<rparr>,
     cbs_data := \<lparr>cbs_period_ticks = 0, cbs_budget_ticks = 0, cbs_remaining_ticks = 0,
       cbs_deadline_ticks = 0, cbs_last_start_ticks = 0, cbs_depleted_count = 0,
       cbs_replenish_count = 0, cbs_wake_replenish_count = 0, cbs_late_account_count = 0\<rparr>,
     bfp_data := \<lparr>bfp_period_ticks = 0, bfp_budget_ticks = 0, bfp_remaining_ticks = 0,
       bfp_next_replenish_ticks = 0, bfp_last_start_ticks = 0, bfp_depleted_count = 0,
       bfp_replenish_count = 0, bfp_overrun_count = 0, bfp_priority = 0,
       bfp_queue = BFP_QUEUE_NONE\<rparr>\<rparr>"

lemma thread_coreD:
  assumes "thread_core th = thread_core th'"
  shows "pcpu_id th = pcpu_id th'" "sched_ctl th = sched_ctl th'" "status th = status th'"
    "be_blocking th = be_blocking th'" "is_vcpu th = is_vcpu th'" "name th = name th'"
    "priority_pending th = priority_pending th'" "freeze_epoch th = freeze_epoch th'"
    "deferred_wake th = deferred_wake th'" "vm_id th = vm_id th'" "vcpu_id th = vcpu_id th'"
    "ptrauth_return_authenticated th = ptrauth_return_authenticated th'"
    "switch_out th = switch_out th'" "switch_in th = switch_in th'" "latency th = latency th'"
    "node_linked th = node_linked th'"
  using assms by (cases th; cases th'; simp add: thread_core_def)+

lemma thread_core_upd [simp]:
  "thread_core (th\<lparr>prio_data := v1\<rparr>) = thread_core th"
  "thread_core (th\<lparr>iorr_data := v2\<rparr>) = thread_core th"
  "thread_core (th\<lparr>bvt_data := v3\<rparr>) = thread_core th"
  "thread_core (th\<lparr>rtds_data := v4\<rparr>) = thread_core th"
  "thread_core (th\<lparr>cbs_data := v5\<rparr>) = thread_core th"
  "thread_core (th\<lparr>bfp_data := v6\<rparr>) = thread_core th"
  by (simp_all add: thread_core_def)

definition hook_frame :: "sched_sys \<Rightarrow> sched_sys \<Rightarrow> bool" where
  "hook_frame s s' \<longleftrightarrow>
     (\<forall>t. thread_core (threads s' t) = thread_core (threads s t))
     \<and> sched_ctls s' = sched_ctls s \<and> thread_list s' = thread_list s
     \<and> thread_count s' = thread_count s \<and> sched_quiesce_slots s' = sched_quiesce_slots s
     \<and> platform_config s' = platform_config s \<and> vm_configs s' = vm_configs s
     \<and> pcpu_flag s' = pcpu_flag s \<and> pcpu_nums s' = pcpu_nums s
     \<and> cur_pcpu s' = cur_pcpu s \<and> khz s' = khz s \<and> evlog s' = evlog s
     \<and> (\<forall>t. func (timers s' t) = func (timers s t))
     \<and> (fault s \<noteq> None \<longrightarrow> fault s' = fault s)"

lemma hook_frame_refl [simp, intro]: "hook_frame s s"
  by (simp add: hook_frame_def)

lemma hook_frame_trans: "hook_frame s s' \<Longrightarrow> hook_frame s' s'' \<Longrightarrow> hook_frame s s''"
  by (simp add: hook_frame_def)

lemma hook_frameD:
  assumes "hook_frame s s'"
  shows "pcpu_id (threads s' t) = pcpu_id (threads s t)"
    "sched_ctl (threads s' t) = sched_ctl (threads s t)"
    "status (threads s' t) = status (threads s t)"
    "be_blocking (threads s' t) = be_blocking (threads s t)"
    "is_vcpu (threads s' t) = is_vcpu (threads s t)"
    "vm_id (threads s' t) = vm_id (threads s t)"
    "vcpu_id (threads s' t) = vcpu_id (threads s t)"
    "freeze_epoch (threads s' t) = freeze_epoch (threads s t)"
    "priority_pending (threads s' t) = priority_pending (threads s t)"
    "deferred_wake (threads s' t) = deferred_wake (threads s t)"
    "latency (threads s' t) = latency (threads s t)"
    "node_linked (threads s' t) = node_linked (threads s t)"
    "sched_ctls s' = sched_ctls s" "cur_pcpu s' = cur_pcpu s" "khz s' = khz s"
    "thread_list s' = thread_list s" "thread_count s' = thread_count s"
    "sched_quiesce_slots s' = sched_quiesce_slots s" "platform_config s' = platform_config s"
    "pcpu_flag s' = pcpu_flag s" "pcpu_nums s' = pcpu_nums s" "evlog s' = evlog s"
    "vm_configs s' = vm_configs s" "func (timers s' tm) = func (timers s tm)"
    "is_idle_thread t s' = is_idle_thread t s" "is_blocked t s' = is_blocked t s"
    "is_running t s' = is_running t s" "curr p s' = curr p s"
    "fault s \<noteq> None \<Longrightarrow> fault s' = fault s"
  using assms thread_coreD [of "threads s' t" "threads s t"]
  by (simp_all add: hook_frame_def is_idle_thread_def is_blocked_def is_running_def curr_def)

lemma upd_thread_simps [simp]:
  "threads (upd_thread t f s) = (threads s)(t := f (threads s t))"
  "sched_ctls (upd_thread t f s) = sched_ctls s" "thread_list (upd_thread t f s) = thread_list s"
  "thread_count (upd_thread t f s) = thread_count s"
  "sched_quiesce_slots (upd_thread t f s) = sched_quiesce_slots s"
  "platform_config (upd_thread t f s) = platform_config s"
  "vm_configs (upd_thread t f s) = vm_configs s" "pcpu_flag (upd_thread t f s) = pcpu_flag s"
  "ptrauth_policy_enabled (upd_thread t f s) = ptrauth_policy_enabled s"
  "ptrauth_ready (upd_thread t f s) = ptrauth_ready s"
  "pcpu_nums (upd_thread t f s) = pcpu_nums s" "timers (upd_thread t f s) = timers s"
  "timer_list (upd_thread t f s) = timer_list s" "hw_timer (upd_thread t f s) = hw_timer s"
  "cur_pcpu (upd_thread t f s) = cur_pcpu s" "tsc (upd_thread t f s) = tsc s"
  "khz (upd_thread t f s) = khz s" "fault (upd_thread t f s) = fault s"
  "evlog (upd_thread t f s) = evlog s" "noop_thread_obj (upd_thread t f s) = noop_thread_obj s"
  "prio_queue (upd_thread t f s) = prio_queue s" "iorr_runqueue (upd_thread t f s) = iorr_runqueue s"
  "bvt_ctl (upd_thread t f s) = bvt_ctl s" "rtds_ctl (upd_thread t f s) = rtds_ctl s"
  "cbs_ctl (upd_thread t f s) = cbs_ctl s" "bfp_ctl (upd_thread t f s) = bfp_ctl s"
  "arinc_ctl (upd_thread t f s) = arinc_ctl s" "arinc_lists (upd_thread t f s) = arinc_lists s"
  by (simp_all add: upd_thread_def)

lemma upd_ctl_simps [simp]:
  "sched_ctls (upd_ctl p g s) = (sched_ctls s)(p := g (sched_ctls s p))"
  "threads (upd_ctl p g s) = threads s" "thread_list (upd_ctl p g s) = thread_list s"
  "thread_count (upd_ctl p g s) = thread_count s"
  "sched_quiesce_slots (upd_ctl p g s) = sched_quiesce_slots s"
  "platform_config (upd_ctl p g s) = platform_config s"
  "vm_configs (upd_ctl p g s) = vm_configs s" "pcpu_flag (upd_ctl p g s) = pcpu_flag s"
  "ptrauth_policy_enabled (upd_ctl p g s) = ptrauth_policy_enabled s"
  "ptrauth_ready (upd_ctl p g s) = ptrauth_ready s"
  "pcpu_nums (upd_ctl p g s) = pcpu_nums s" "timers (upd_ctl p g s) = timers s"
  "timer_list (upd_ctl p g s) = timer_list s" "hw_timer (upd_ctl p g s) = hw_timer s"
  "cur_pcpu (upd_ctl p g s) = cur_pcpu s" "tsc (upd_ctl p g s) = tsc s"
  "khz (upd_ctl p g s) = khz s" "fault (upd_ctl p g s) = fault s"
  "evlog (upd_ctl p g s) = evlog s" "noop_thread_obj (upd_ctl p g s) = noop_thread_obj s"
  "prio_queue (upd_ctl p g s) = prio_queue s" "iorr_runqueue (upd_ctl p g s) = iorr_runqueue s"
  "bvt_ctl (upd_ctl p g s) = bvt_ctl s" "rtds_ctl (upd_ctl p g s) = rtds_ctl s"
  "cbs_ctl (upd_ctl p g s) = cbs_ctl s" "bfp_ctl (upd_ctl p g s) = bfp_ctl s"
  "arinc_ctl (upd_ctl p g s) = arinc_ctl s" "arinc_lists (upd_ctl p g s) = arinc_lists s"
  by (simp_all add: upd_ctl_def)


section \<open>Machine and timer operations keep the scheduler's state\<close>

lemma more_eqD:
  assumes "timer_sys.more s' = timer_sys.more s"
  shows "threads s' = threads s"
    "sched_ctls s' = sched_ctls s"
    "thread_list s' = thread_list s"
    "thread_count s' = thread_count s"
    "sched_quiesce_slots s' = sched_quiesce_slots s"
    "platform_config s' = platform_config s"
    "vm_configs s' = vm_configs s"
    "pcpu_flag s' = pcpu_flag s"
    "pcpu_nums s' = pcpu_nums s"
    "noop_thread_obj s' = noop_thread_obj s"
    "prio_queue s' = prio_queue s"
    "iorr_runqueue s' = iorr_runqueue s"
    "bvt_ctl s' = bvt_ctl s"
    "rtds_ctl s' = rtds_ctl s"
    "cbs_ctl s' = cbs_ctl s"
    "bfp_ctl s' = bfp_ctl s"
    "arinc_ctl s' = arinc_ctl s"
    "arinc_lists s' = arinc_lists s"
  using assms by (cases s; cases s'; simp)+

lemma more_timer_ops [simp]:
  "timer_sys.more (del_timer tr s) = timer_sys.more s"
  "timer_sys.more (update_timer tr d q s) = timer_sys.more s"
  "timer_sys.more (snd (add_timer tr s)) = timer_sys.more s"
  "timer_sys.more (initialize_timer tr fn pd d q s) = timer_sys.more s"
  "timer_sys.more (log_event e s) = timer_sys.more s"
  by (auto simp: del_timer_def update_timer_def add_timer_def initialize_timer_def log_event_def
      limit_period_def local_add_timer_def update_architecture_timer_def Let_def split_def
      split: option.split list.split)

lemmas sched_tick_read_frame [simp] =
  more_eqD [of "tick_read s" s for s, simplified]

lemmas sched_assertion_frame [simp] =
  more_eqD [of "assertion b m s" s for b m s, simplified]

lemmas sched_panic_frame [simp] =
  more_eqD [of "panic m s" s for m s, simplified]

lemmas sched_del_timer_frame [simp] =
  more_eqD [of "del_timer tr s" s for tr s, simplified]

lemmas sched_update_timer_frame [simp] =
  more_eqD [of "update_timer tr d q s" s for tr d q s, simplified]

lemmas sched_add_timer_frame [simp] =
  more_eqD [of "snd (add_timer tr s)" s for tr s, simplified]

lemmas sched_initialize_timer_frame [simp] =
  more_eqD [of "initialize_timer tr fn pd d q s" s for tr fn pd d q s, simplified]

lemmas sched_log_event_frame [simp] =
  more_eqD [of "log_event e s" s for e s, simplified]

lemma func_timer_ops [simp]:
  "func (timers (del_timer tr s) x) = func (timers s x)"
  "func (timers (update_timer tr d q s) x) = func (timers s x)"
  "func (timers (snd (add_timer tr s)) x) = func (timers s x)"
  by (auto simp: del_timer_def update_timer_def add_timer_def set_timer_mode_def
      limit_period_def local_add_timer_def update_architecture_timer_def Let_def split_def
      split: option.split list.split)

lemma machine_timer_ops [simp]:
  "khz (del_timer tr s) = khz s" "evlog (del_timer tr s) = evlog s" "tsc (del_timer tr s) = tsc s"
  "khz (update_timer tr d q s) = khz s" "evlog (update_timer tr d q s) = evlog s"
  "tsc (update_timer tr d q s) = tsc s" "cur_pcpu (update_timer tr d q s) = cur_pcpu s"
  "khz (snd (add_timer tr s)) = khz s" "evlog (snd (add_timer tr s)) = evlog s"
  "tsc (snd (add_timer tr s)) = tsc s"
  by (auto simp: del_timer_def update_timer_def add_timer_def set_timer_mode_def
      limit_period_def local_add_timer_def update_architecture_timer_def Let_def split_def
      split: option.split list.split)

lemma hook_frame_timer_ops [intro, simp]:
  "hook_frame s (tick_read s)" "hook_frame s (del_timer tr s)" "hook_frame s (update_timer tr d q s)"
  "hook_frame s (snd (add_timer tr s))" "hook_frame s (assertion b m s)" "hook_frame s (panic m s)"
  using fault_add_timer [of s tr]
  by (auto simp: hook_frame_def assertion_def panic_def)

lemma hook_frame_upd_thread [intro]:
  "thread_core (f (threads s t)) = thread_core (threads s t) \<Longrightarrow> hook_frame s (upd_thread t f s)"
  by (simp add: hook_frame_def)

lemma hook_frame_queues [intro, simp]:
  "hook_frame s (s\<lparr>noop_thread_obj := q1\<rparr>)" "hook_frame s (s\<lparr>prio_queue := q2\<rparr>)"
  "hook_frame s (s\<lparr>iorr_runqueue := q2\<rparr>)" "hook_frame s (s\<lparr>bvt_ctl := q3\<rparr>)"
  "hook_frame s (s\<lparr>rtds_ctl := q4\<rparr>)" "hook_frame s (s\<lparr>cbs_ctl := q5\<rparr>)"
  "hook_frame s (s\<lparr>bfp_ctl := q6\<rparr>)" "hook_frame s (s\<lparr>arinc_ctl := q7\<rparr>)"
  "hook_frame s (s\<lparr>arinc_lists := q8\<rparr>)"
  by (simp_all add: hook_frame_def)

lemma hook_frame_with_ctl:
  "(\<And>p. sched_ctl (threads s t) = Some p \<Longrightarrow> hook_frame s (k p s)) \<Longrightarrow> hook_frame s (with_ctl t k s)"
  by (auto simp: with_ctl_def hook_frame_def split: option.split)

text \<open>Sequencing: a hook that is a chain of steps.\<close>

lemmas hook_frame_steps =
  hook_frame_timer_ops [THEN hook_frame_trans [rotated]]
  hook_frame_queues [THEN hook_frame_trans [rotated]]

lemma hook_frame_fault [simp, intro]: "hook_frame s (if fault s = None then s\<lparr>fault := x\<rparr> else s)"
  by (simp add: hook_frame_def)

lemma hook_frame_if: "hook_frame s x \<Longrightarrow> hook_frame s y \<Longrightarrow> hook_frame s (if b then x else y)"
  by simp

lemma timer_ok_sched_cong [simp]:
  "timer_ok (upd_thread t f s) = timer_ok s" "timer_ok (upd_ctl p g s) = timer_ok s"
  "timer_ok (s\<lparr>noop_thread_obj := q1\<rparr>) = timer_ok s" "timer_ok (s\<lparr>prio_queue := q2\<rparr>) = timer_ok s"
  "timer_ok (s\<lparr>iorr_runqueue := q2\<rparr>) = timer_ok s" "timer_ok (s\<lparr>bvt_ctl := q3\<rparr>) = timer_ok s"
  "timer_ok (s\<lparr>rtds_ctl := q4\<rparr>) = timer_ok s" "timer_ok (s\<lparr>cbs_ctl := q5\<rparr>) = timer_ok s"
  "timer_ok (s\<lparr>bfp_ctl := q6\<rparr>) = timer_ok s" "timer_ok (s\<lparr>arinc_ctl := q7\<rparr>) = timer_ok s"
  "timer_ok (s\<lparr>arinc_lists := q8\<rparr>) = timer_ok s"
  "timer_ok (log_event e s) = timer_ok s"
  by (rule timer_ok_cong; simp add: log_event_def)+

lemma timer_ok_with_ctl:
  "timer_ok s \<Longrightarrow> (\<And>p. timer_ok (k p s)) \<Longrightarrow> timer_ok (with_ctl t k s)"
  by (auto simp: with_ctl_def timer_ok_def split: option.split)

lemma hook_frame_or_diverges:
  "(\<And>s'. r = Some s' \<Longrightarrow> hook_frame s s') \<Longrightarrow> hook_frame s (or_diverges s r)"
  by (cases r) (simp_all add: or_diverges_def)

lemma timer_ok_or_diverges:
  "timer_ok s \<Longrightarrow> (\<And>s'. r = Some s' \<Longrightarrow> timer_ok s') \<Longrightarrow> timer_ok (or_diverges s r)"
  by (auto simp: or_diverges_def timer_ok_def split: option.split)

lemma or_diverges_Some [simp]: "or_diverges s (Some s') = s'"
  by (simp add: or_diverges_def)

lemma or_diverges_None [simp]: "or_diverges s None = (if fault s = None then s\<lparr>fault := Some Diverges\<rparr> else s)"
  by (simp add: or_diverges_def)

lemma with_ctl_Some [simp]: "sched_ctl (threads s t) = Some p \<Longrightarrow> with_ctl t k s = k p s"
  by (simp add: with_ctl_def)

end
