(* ===== verification/Sched_Core.thy ===== *)
theory Sched_Core
  imports Sched_Types
begin

text \<open>
  The scheduler framework, \<open>core/schedule.c\<close>. The hooks of the policy that owns a pCPU are a record
  of optional functions, the struct \<open>acrn_scheduler\<close>; every operation that calls a hook takes it as
  its argument, and the theory \<open>Sched_Dispatch\<close> supplies the policy configured for the pCPU. A
  function that takes the scheduler lock is one step; the \<open>_locked\<close> helpers are the code between
  taking and releasing it.
\<close>

section \<open>The hooks of a policy\<close>

record acrn_scheduler =
  sched_name :: string
  stat_desc :: string
  hook_init :: "(nat \<Rightarrow> sched_sys \<Rightarrow> sched_sys) option"
  hook_init_data :: "(thread_ref \<Rightarrow> sched_params \<Rightarrow> sched_sys \<Rightarrow> sched_sys) option"
  hook_pick_next :: "(nat \<Rightarrow> sched_sys \<Rightarrow> thread_ref \<times> sched_sys) option"
  hook_sleep :: "(thread_ref \<Rightarrow> sched_sys \<Rightarrow> sched_sys) option"
  hook_wake :: "(thread_ref \<Rightarrow> sched_sys \<Rightarrow> sched_sys) option"
  hook_yield :: "(nat \<Rightarrow> sched_sys \<Rightarrow> sched_sys) option"
  hook_prioritize :: "(thread_ref \<Rightarrow> sched_sys \<Rightarrow> sched_sys) option"
  hook_deinit_data :: "(thread_ref \<Rightarrow> sched_sys \<Rightarrow> sched_sys) option"
  hook_deinit :: "(nat \<Rightarrow> sched_sys \<Rightarrow> sched_sys) option"
  hook_suspend :: "(nat \<Rightarrow> sched_sys \<Rightarrow> sched_sys) option"
  hook_resume :: "(nat \<Rightarrow> sched_sys \<Rightarrow> sched_sys) option"

text \<open>\<open>if (scheduler->hook != NULL) scheduler->hook(x);\<close>\<close>

definition call_hook :: "('x \<Rightarrow> sched_sys \<Rightarrow> sched_sys) option \<Rightarrow> 'x \<Rightarrow> sched_sys \<Rightarrow> sched_sys" where
  "call_hook h x s = (case h of None \<Rightarrow> s | Some f \<Rightarrow> f x s)"

section \<open>Thread registry\<close>

definition sched_get_thread_count :: "sched_sys \<Rightarrow> u32" where
  "sched_get_thread_count s = thread_count s"

text \<open>
  The threads copied out, in order, and what is written to \<open>truncated\<close> (nothing where it returns early
  or the pointer is null). The arguments tell whether the two pointers are set.
\<close>

definition sched_snapshot_threads ::
  "bool \<Rightarrow> nat \<Rightarrow> bool \<Rightarrow> sched_sys \<Rightarrow> thread_ref list \<times> bool option" where
  "sched_snapshot_threads has_buf max_threads has_truncated s =
     (if \<not> has_buf \<or> max_threads = 0 then ([], None)
      else (take max_threads (thread_list s),
            if has_truncated then Some (max_threads < length (thread_list s)) else None))"

definition register_thread_object :: "thread_ref \<Rightarrow> sched_sys \<Rightarrow> sched_sys" where
  "register_thread_object t s =
     (if node_linked (threads s t) then s
      else upd_thread t (\<lambda>th. th\<lparr>node_linked := True\<rparr>)
             (s\<lparr>thread_list := thread_list s @ [t], thread_count := thread_count s + 1\<rparr>))"

definition unregister_thread_object :: "thread_ref \<Rightarrow> sched_sys \<Rightarrow> sched_sys" where
  "unregister_thread_object t s =
     (if node_linked (threads s t)
      then upd_thread t (\<lambda>th. th\<lparr>node_linked := False\<rparr>)
             (s\<lparr>thread_list := remove1 t (thread_list s),
                thread_count := (if thread_count s \<noteq> 0 then thread_count s - 1 else thread_count s)\<rparr>)
      else s)"

section \<open>Latency accounting\<close>

definition TRACE_SCHED_THREAD_VCPU_FLAG :: u32 where "TRACE_SCHED_THREAD_VCPU_FLAG = 0x80000000"
definition TRACE_SCHED_THREAD_VM_MASK :: u32 where "TRACE_SCHED_THREAD_VM_MASK = 0x7fff"
definition TRACE_SCHED_THREAD_VCPU_MASK :: u32 where "TRACE_SCHED_THREAD_VCPU_MASK = 0xffff"
definition TRACE_SCHED_THREAD_TAG_MASK :: u32 where "TRACE_SCHED_THREAD_TAG_MASK = 0xff"

definition name_byte :: "nat \<Rightarrow> string \<Rightarrow> u32" where
  "name_byte i n = (if i < length n then of_nat (of_char (n ! i)) else 0)"

definition sched_trace_thread_token :: "thread_object \<Rightarrow> u32" where
  "sched_trace_thread_token obj =
     (if is_vcpu obj
      then or (or TRACE_SCHED_THREAD_VCPU_FLAG
                  (push_bit 16 (and (of_nat (vm_id obj)) TRACE_SCHED_THREAD_VM_MASK)))
              (and (of_nat (vcpu_id obj)) TRACE_SCHED_THREAD_VCPU_MASK)
      else or (push_bit 8 (name_byte 0 (name obj)))
              (and (name_byte 1 (name obj)) TRACE_SCHED_THREAD_TAG_MASK))"

definition sched_add_runtime :: "u64 \<Rightarrow> sched_latency_stats \<Rightarrow> sched_latency_stats" where
  "sched_add_runtime ticks l =
     (if ticks > UINT64_MAX - runtime_ticks l then l\<lparr>runtime_ticks := UINT64_MAX\<rparr>
      else l\<lparr>runtime_ticks := runtime_ticks l + ticks\<rparr>)"

definition sched_latency_hist_bucket :: "u32 \<Rightarrow> u64 \<Rightarrow> nat" where
  "sched_latency_hist_bucket rate wait_ticks =
     (let wait_us = ticks_to_us rate wait_ticks
      in if wait_us < 100 then 0
         else if wait_us < 500 then 1
         else if wait_us < 1000 then 2
         else if wait_us < 5000 then 3
         else if wait_us < 10000 then 4
         else if wait_us < 15000 then 5
         else if wait_us < 20000 then 6
         else 7)"

definition sched_latency_hist_bucket_name :: "nat \<Rightarrow> string" where
  "sched_latency_hist_bucket_name bucket =
     (let names = [''<100us'', ''<500us'', ''<1ms'', ''<5ms'', ''<10ms'', ''<15ms'', ''<20ms'',
                   ''>=20ms'']
      in if bucket < SCHED_LATENCY_HIST_BUCKETS then names ! bucket else ''?'')"

definition sched_record_wait_latency :: "u32 \<Rightarrow> u64 \<Rightarrow> sched_latency_stats \<Rightarrow> sched_latency_stats" where
  "sched_record_wait_latency rate wait_ticks l =
     (let bucket = sched_latency_hist_bucket rate wait_ticks
      in if wait_hist l ! bucket \<noteq> UINT64_MAX
         then l\<lparr>wait_hist := (wait_hist l)[bucket := wait_hist l ! bucket + 1]\<rparr> else l)"

definition sched_mark_runnable :: "u64 \<Rightarrow> sched_latency_stats \<Rightarrow> sched_latency_stats" where
  "sched_mark_runnable now l = l\<lparr>state_since := now, runnable_since := now\<rparr>"

definition sched_mark_blocked :: "u64 \<Rightarrow> sched_latency_stats \<Rightarrow> sched_latency_stats" where
  "sched_mark_blocked now l = l\<lparr>state_since := now, runnable_since := 0\<rparr>"

definition sched_mark_running :: "u32 \<Rightarrow> u64 \<Rightarrow> sched_latency_stats \<Rightarrow> sched_latency_stats" where
  "sched_mark_running rate now l =
     (let l = (if runnable_since l \<noteq> 0 then
                 let wait_ticks = now - runnable_since l;
                     l = l\<lparr>last_wait_ticks := wait_ticks\<rparr>;
                     l = (if wait_ticks > max_wait_ticks l then l\<lparr>max_wait_ticks := wait_ticks\<rparr> else l)
                 in sched_record_wait_latency rate wait_ticks l
               else l)
      in l\<lparr>switches := switches l + 1, state_since := now, runnable_since := 0\<rparr>)"

definition sched_mark_not_running :: "u64 \<Rightarrow> bool \<Rightarrow> sched_latency_stats \<Rightarrow> sched_latency_stats" where
  "sched_mark_not_running now runnable l =
     (let l = (if state_since l \<noteq> 0 then sched_add_runtime (now - state_since l) l else l)
      in l\<lparr>state_since := now, runnable_since := (if runnable then now else 0)\<rparr>)"

text \<open>
  What is written to \<open>stats\<close>, and the state with the tick counter read; \<open>has_stats\<close> tells whether the
  pointer is set.
\<close>

definition sched_get_latency ::
  "thread_ref option \<Rightarrow> bool \<Rightarrow> sched_sys \<Rightarrow> sched_latency_stats option \<times> sched_sys" where
  "sched_get_latency obj has_stats s =
     (case obj of
        None \<Rightarrow> (None, s)
      | Some t \<Rightarrow>
          if \<not> has_stats then (None, s)
          else
            let stats = latency (threads s t);
                now = cpu_ticks s
            in (Some (
                if status (threads s t) = THREAD_STS_RUNNABLE \<and> runnable_since stats \<noteq> 0 then
                  let wait_ticks = now - runnable_since stats
                  in if wait_ticks > max_wait_ticks stats then stats\<lparr>max_wait_ticks := wait_ticks\<rparr> else stats
                else if status (threads s t) = THREAD_STS_RUNNING \<and> state_since stats \<noteq> 0 then
                  let run_ticks = now - state_since stats
                  in if run_ticks > UINT64_MAX - runtime_ticks stats
                     then stats\<lparr>runtime_ticks := UINT64_MAX\<rparr>
                     else stats\<lparr>runtime_ticks := runtime_ticks stats + run_ticks\<rparr>
                else stats), tick_read s))"

definition upd_latency ::
  "thread_ref \<Rightarrow> (sched_latency_stats \<Rightarrow> sched_latency_stats) \<Rightarrow> sched_sys \<Rightarrow> sched_sys" where
  "upd_latency t f s = upd_thread t (\<lambda>th. th\<lparr>latency := f (latency th)\<rparr>) s"

definition set_thread_status :: "thread_ref \<Rightarrow> thread_object_state \<Rightarrow> sched_sys \<Rightarrow> sched_sys" where
  "set_thread_status t st s = upd_thread t (\<lambda>th. th\<lparr>status := st\<rparr>) s"

section \<open>Thread data\<close>

definition zero_latency :: sched_latency_stats where
  "zero_latency = \<lparr>switches = 0, last_wait_ticks = 0, max_wait_ticks = 0, state_since = 0,
     runnable_since = 0, runtime_ticks = 0, wait_hist = replicate 8 0\<rparr>"

definition init_thread_data :: "acrn_scheduler \<Rightarrow> thread_ref \<Rightarrow> sched_params \<Rightarrow> sched_sys \<Rightarrow> sched_sys" where
  "init_thread_data sch t params s =
     (let s = upd_thread t (\<lambda>th. th\<lparr>node_linked := False\<rparr>) s;
          s = upd_latency t (\<lambda>_. zero_latency) s;
          s = (case hook_init_data sch of None \<Rightarrow> s | Some f \<Rightarrow> f t params s);
          s = set_thread_status t THREAD_STS_BLOCKED s;
          s = upd_thread t (\<lambda>th. th\<lparr>priority_pending := False, freeze_epoch := 0,
                                    deferred_wake := False\<rparr>) s;
          now = cpu_ticks s;
          s = tick_read s;
          s = upd_latency t (\<lambda>l. l\<lparr>state_since := now\<rparr>) s
      in register_thread_object t s)"

definition reset_thread_data ::
  "acrn_scheduler \<Rightarrow> thread_ref option \<Rightarrow> sched_params option \<Rightarrow> sched_sys \<Rightarrow> int \<times> sched_sys" where
  "reset_thread_data sch obj params s =
     (case (obj, params) of
        (Some t, Some prm) \<Rightarrow>
          (case sched_ctl (threads s t) of
             None \<Rightarrow> (- EINVAL, s)
           | Some c \<Rightarrow>
               if pcpu_id (threads s t) \<ge> pcpu_nums s then (- EINVAL, s)
               else if \<not> is_blocked t s \<or> be_blocking (threads s t) \<or> curr c s = Some t
                       \<or> freeze_epoch (threads s t) \<noteq> 0 then (- EBUSY, s)
               else
                 let s = (case hook_init_data sch of None \<Rightarrow> s | Some f \<Rightarrow> f t prm s)
                 in (0, upd_thread t (\<lambda>th. th\<lparr>priority_pending := False, deferred_wake := False\<rparr>) s))
      | _ \<Rightarrow> (- EINVAL, s))"

definition deinit_thread_data :: "acrn_scheduler \<Rightarrow> thread_ref \<Rightarrow> sched_sys \<Rightarrow> sched_sys" where
  "deinit_thread_data sch t s =
     unregister_thread_object t (call_hook (hook_deinit_data sch) t s)"

section \<open>Idle work and reschedule requests\<close>

definition NEED_SHUTDOWN_VM :: nat where "NEED_SHUTDOWN_VM = 2"
definition NEED_RESET_VM :: nat where "NEED_RESET_VM = 3"
definition NEED_SYSTEM_SUSPEND :: nat where "NEED_SYSTEM_SUSPEND = 4"

definition has_system_suspend_request :: "nat \<Rightarrow> sched_sys \<Rightarrow> bool" where
  "has_system_suspend_request p s \<longleftrightarrow> p < pcpu_nums s \<and> bitmap_test NEED_SYSTEM_SUSPEND (pcpu_flag s p)"

definition has_reset_vm_request :: "nat \<Rightarrow> sched_sys \<Rightarrow> bool" where
  "has_reset_vm_request p s \<longleftrightarrow> p < pcpu_nums s \<and> bitmap_test NEED_RESET_VM (pcpu_flag s p)"

definition sched_idle_work_pending_locked :: "nat \<Rightarrow> sched_sys \<Rightarrow> bool" where
  "sched_idle_work_pending_locked p s \<longleftrightarrow>
     (let ctl = sched_ctls s p
      in has_system_suspend_request (ctl_pcpu_id ctl) s \<or> has_reset_vm_request (ctl_pcpu_id ctl) s
         \<or> quiesce_request_vm_mask ctl \<noteq> 0)"

text \<open>
  The loop over the registry; \<open>obj\<close> is the thread the loop variable holds when the loop ends,
  \<open>None\<close> while no thread was looked at.
\<close>

fun only_runnable_loop ::
  "nat \<Rightarrow> thread_ref \<Rightarrow> sched_sys \<Rightarrow> thread_ref list \<Rightarrow> nat \<Rightarrow> thread_ref option
     \<Rightarrow> nat \<times> thread_ref option" where
  "only_runnable_loop p current s [] runnable obj = (runnable, obj)"
| "only_runnable_loop p current s (t # ts) runnable obj =
     (if pcpu_id (threads s t) \<noteq> p \<or> is_idle_thread t s \<or> be_blocking (threads s t)
         \<or> \<not> is_runnable_or_running t s
      then only_runnable_loop p current s ts runnable (Some t)
      else if Suc runnable > 1 \<or> t \<noteq> current then (Suc runnable, Some t)
      else only_runnable_loop p current s ts (Suc runnable) (Some t))"

definition sched_current_is_only_runnable_locked :: "nat \<Rightarrow> sched_sys \<Rightarrow> bool" where
  "sched_current_is_only_runnable_locked p s =
     (case curr p s of
        None \<Rightarrow> False
      | Some current \<Rightarrow>
          if is_idle_thread current s \<or> be_blocking (threads s current)
             \<or> \<not> is_runnable_or_running current s then False
          else let (runnable, obj) =
                 only_runnable_loop (ctl_pcpu_id (sched_ctls s p)) current s (thread_list s) 0 None
               in runnable = 1 \<and> obj = Some current)"

definition sched_clear_reschedule_if_current_only :: "nat \<Rightarrow> sched_sys \<Rightarrow> bool \<times> sched_sys" where
  "sched_clear_reschedule_if_current_only p s =
     (if \<not> sched_idle_work_pending_locked p s \<and> bitmap_test NEED_RESCHEDULE (flags (sched_ctls s p))
         \<and> sched_current_is_only_runnable_locked p s
      then (True, upd_ctl p (\<lambda>c. c\<lparr>flags := bitmap_clear NEED_RESCHEDULE (flags c)\<rparr>) s)
      else (False, s))"

section \<open>Choosing and switching\<close>

text \<open>The deferred priority requests, consumed along the registry.\<close>

definition consume_priority_one :: "acrn_scheduler \<Rightarrow> nat \<Rightarrow> thread_ref \<Rightarrow> sched_sys \<Rightarrow> sched_sys" where
  "consume_priority_one sch p t s =
     (if pcpu_id (threads s t) = p \<and> priority_pending (threads s t) then
        let s = upd_thread t (\<lambda>th. th\<lparr>priority_pending := False\<rparr>) s
        in case hook_prioritize sch of
             None \<Rightarrow> s
           | Some f \<Rightarrow> if is_runnable_or_running t s \<and> \<not> be_blocking (threads s t) then f t s else s
      else s)"

definition consume_priority :: "acrn_scheduler \<Rightarrow> nat \<Rightarrow> sched_sys \<Rightarrow> sched_sys" where
  "consume_priority sch p s =
     (if ctl_priority_pending (sched_ctls s p) then
        let s = upd_ctl p (\<lambda>c. c\<lparr>ctl_priority_pending := False\<rparr>) s
        in fold (consume_priority_one sch p) (thread_list s) s
      else s)"

definition choose_next :: "acrn_scheduler \<Rightarrow> nat \<Rightarrow> sched_sys \<Rightarrow> thread_ref \<times> sched_sys" where
  "choose_next sch p s =
     (if sched_idle_work_pending_locked p s then (Idle p, s)
      else (case hook_pick_next sch of None \<Rightarrow> (Idle p, s) | Some pick \<Rightarrow> pick p s))"

definition arm64_ptrauth_active_current :: "sched_sys \<Rightarrow> bool" where
  "arm64_ptrauth_active_current s \<longleftrightarrow>
     ptrauth_policy_enabled s \<and> cur_pcpu s < MAX_PCPU_NUM \<and> ptrauth_ready s (cur_pcpu s)"

definition leave_thread :: "thread_ref \<Rightarrow> thread_ref \<Rightarrow> u64 \<Rightarrow> sched_sys \<Rightarrow> sched_sys" where
  "leave_thread prev next now s =
     (let s = log_event (TraceSchedNext (sched_trace_thread_token (threads s prev))
                (sched_trace_thread_token (threads s next))) s;
          s = (if switch_out (threads s prev) then log_event (SwitchOut prev) s else s);
          s = upd_latency prev (sched_mark_not_running now (\<not> be_blocking (threads s prev))) s;
          s = set_thread_status prev
                (if be_blocking (threads s prev) then THREAD_STS_BLOCKED else THREAD_STS_RUNNABLE) s
      in upd_thread prev (\<lambda>th. th\<lparr>be_blocking := False\<rparr>) s)"

definition enter_thread :: "thread_ref \<Rightarrow> u64 \<Rightarrow> sched_sys \<Rightarrow> sched_sys" where
  "enter_thread next now s =
     (let s = (if switch_in (threads s next) then log_event (SwitchIn next) s else s);
          s = upd_latency next (sched_mark_running (khz s) now) s
      in set_thread_status next THREAD_STS_RUNNING s)"

definition switch_threads :: "nat \<Rightarrow> thread_ref option \<Rightarrow> thread_ref \<Rightarrow> sched_sys \<Rightarrow> sched_sys" where
  "switch_threads p prev next s =
     (let active = arm64_ptrauth_active_current s;
          authenticate_return = (active \<and> ptrauth_return_authenticated (threads s next));
          s = (if active then upd_thread next (\<lambda>th. th\<lparr>ptrauth_return_authenticated := True\<rparr>) s else s);
          now = cpu_ticks s;
          s = tick_read s;
          s = (case prev of None \<Rightarrow> s | Some t \<Rightarrow> leave_thread t next now s);
          s = enter_thread next now s;
          s = upd_ctl p (\<lambda>c. c\<lparr>curr_obj := Some next, context_switches := context_switches c + 1\<rparr>) s
      in log_event (SwitchTo prev next (if active then Some authenticate_return else None)) s)"

definition schedule_with :: "acrn_scheduler \<Rightarrow> sched_sys \<Rightarrow> sched_sys" where
  "schedule_with sch s =
     (let p = cur_pcpu s;
          prev = curr p s;
          s = consume_priority sch p s;
          (next, s) = choose_next sch p s;
          s = upd_ctl p (\<lambda>c. c\<lparr>flags := bitmap_clear NEED_RESCHEDULE (flags c)\<rparr>) s
      in if prev \<noteq> Some next then switch_threads p prev next s else s)"

section \<open>Sleep and wake\<close>

definition sleep_thread_locked :: "acrn_scheduler \<Rightarrow> thread_ref \<Rightarrow> sched_sys \<Rightarrow> bool \<times> sched_sys" where
  "sleep_thread_locked sch t s =
     (let p = pcpu_id (threads s t);
          wake_owned = (\<not> is_blocked t s \<and> \<not> be_blocking (threads s t));
          s = call_hook (hook_sleep sch) t s
      in if is_running t s then
           (wake_owned, upd_thread t (\<lambda>th. th\<lparr>be_blocking := True\<rparr>) (make_reschedule_request p s))
         else
           let now = cpu_ticks s;
               s = tick_read s;
               s = upd_latency t (sched_mark_blocked now) s
           in (wake_owned, set_thread_status t THREAD_STS_BLOCKED s))"

definition sleep_thread :: "acrn_scheduler \<Rightarrow> thread_ref \<Rightarrow> sched_sys \<Rightarrow> sched_sys" where
  "sleep_thread sch t s = snd (sleep_thread_locked sch t s)"

definition wake_thread_locked :: "acrn_scheduler \<Rightarrow> thread_ref \<Rightarrow> sched_sys \<Rightarrow> sched_sys" where
  "wake_thread_locked sch t s =
     (if is_blocked t s \<or> be_blocking (threads s t) then
        let p = pcpu_id (threads s t);
            s = call_hook (hook_wake sch) t s;
            s = (if is_blocked t s then
                   let now = cpu_ticks s;
                       s = tick_read s;
                       s = upd_latency t (sched_mark_runnable now) s;
                       s = set_thread_status t THREAD_STS_RUNNABLE s
                   in make_reschedule_request p s
                 else s)
        in upd_thread t (\<lambda>th. th\<lparr>be_blocking := False\<rparr>) s
      else s)"

definition quiesce_slot :: "thread_ref \<Rightarrow> sched_sys \<Rightarrow> sched_quiesce_slot" where
  "quiesce_slot t s = sched_quiesce_slots s (pcpu_id (threads s t)) (vm_id (threads s t))"

definition upd_slot ::
  "nat \<Rightarrow> nat \<Rightarrow> (sched_quiesce_slot \<Rightarrow> sched_quiesce_slot) \<Rightarrow> sched_sys \<Rightarrow> sched_sys" where
  "upd_slot p vm f s = s\<lparr>sched_quiesce_slots := (sched_quiesce_slots s)
     (p := (sched_quiesce_slots s p)(vm := f (sched_quiesce_slots s p vm)))\<rparr>"

definition quiesce_target :: "thread_ref \<Rightarrow> sched_sys \<Rightarrow> bool" where
  "quiesce_target t s \<longleftrightarrow> is_vcpu (threads s t) \<and> pcpu_id (threads s t) < MAX_PCPU_NUM
     \<and> vm_id (threads s t) < CONFIG_MAX_VM_NUM"

definition thread_quiesce_active_locked :: "thread_ref \<Rightarrow> sched_sys \<Rightarrow> bool" where
  "thread_quiesce_active_locked t s \<longleftrightarrow>
     quiesce_target t s \<and> slot_obj (quiesce_slot t s) = Some t \<and> request_generation (quiesce_slot t s) \<noteq> 0"

definition wake_thread :: "acrn_scheduler \<Rightarrow> thread_ref \<Rightarrow> sched_sys \<Rightarrow> sched_sys" where
  "wake_thread sch t s =
     (if \<not> thread_quiesce_active_locked t s then
        if freeze_epoch (threads s t) \<noteq> 0 then upd_thread t (\<lambda>th. th\<lparr>deferred_wake := True\<rparr>) s
        else wake_thread_locked sch t s
      else s)"

section \<open>Quiesce\<close>

definition request_thread_quiesce :: "thread_ref option \<Rightarrow> u64 \<Rightarrow> sched_sys \<Rightarrow> bool \<times> sched_sys" where
  "request_thread_quiesce obj generation s =
     (case obj of
        None \<Rightarrow> (False, s)
      | Some t \<Rightarrow>
          if \<not> quiesce_target t s \<or> generation = 0 then (False, s)
          else
            let p = pcpu_id (threads s t);
                slot = quiesce_slot t s
            in case sched_ctl (threads s t) of
                 None \<Rightarrow> (False, s)
               | Some c \<Rightarrow>
                   if slot_obj slot = None \<or> slot_obj slot = Some t
                      \<or> request_generation slot = ack_generation slot then
                     let s = upd_slot p (vm_id (threads s t))
                               (\<lambda>sl. sl\<lparr>slot_obj := Some t, request_generation := generation\<rparr>) s;
                         s = upd_ctl c (\<lambda>ct. ct\<lparr>quiesce_request_vm_mask :=
                               bitmap_set (vm_id (threads s t)) (quiesce_request_vm_mask ct)\<rparr>) s
                     in (True, make_reschedule_request p s)
                   else (False, s))"

definition is_thread_quiesced :: "thread_ref option \<Rightarrow> u64 \<Rightarrow> sched_sys \<Rightarrow> bool" where
  "is_thread_quiesced obj generation s =
     (case obj of
        None \<Rightarrow> False
      | Some t \<Rightarrow> quiesce_target t s \<and> generation \<noteq> 0
          \<and> slot_obj (quiesce_slot t s) = Some t
          \<and> request_generation (quiesce_slot t s) = generation
          \<and> ack_generation (quiesce_slot t s) = generation)"

definition release_thread_quiesce :: "thread_ref option \<Rightarrow> sched_sys \<Rightarrow> sched_sys" where
  "release_thread_quiesce obj s =
     (case obj of
        None \<Rightarrow> s
      | Some t \<Rightarrow>
          if \<not> quiesce_target t s then s
          else if slot_obj (quiesce_slot t s) = Some t then
            let vm = vm_id (threads s t);
                p = pcpu_id (threads s t)
            in with_ctl t (\<lambda>c s.
                 upd_slot p vm (\<lambda>sl. sl\<lparr>request_generation := 0, ack_generation := 0, slot_obj := None\<rparr>)
                   (upd_ctl c (\<lambda>ct. ct\<lparr>quiesce_request_vm_mask :=
                      bitmap_clear vm (quiesce_request_vm_mask ct)\<rparr>) s)) s
          else s)"

text \<open>The loop over the bits of \<open>request_vm_mask\<close>, lowest first.\<close>

definition ack_one :: "nat \<Rightarrow> nat \<Rightarrow> sched_sys \<Rightarrow> bool \<times> sched_sys" where
  "ack_one p vm s =
     (let slot = sched_quiesce_slots s p vm
      in case slot_obj slot of
           None \<Rightarrow> (False, s)
         | Some t \<Rightarrow>
             if curr p s = Some (Idle p) \<and> is_vcpu (threads s t) \<and> pcpu_id (threads s t) = p
                \<and> vm_id (threads s t) = vm \<and> request_generation slot \<noteq> 0 \<and> is_blocked t s
                \<and> \<not> be_blocking (threads s t) \<and> curr p s \<noteq> Some t
             then (True, upd_slot p vm (\<lambda>sl. sl\<lparr>ack_generation := request_generation slot\<rparr>)
                     (upd_ctl p (\<lambda>c. c\<lparr>quiesce_request_vm_mask :=
                        bitmap_clear vm (quiesce_request_vm_mask c)\<rparr>) s))
             else (False, s))"

function ack_loop :: "nat \<Rightarrow> u64 \<Rightarrow> bool \<Rightarrow> sched_sys \<Rightarrow> bool \<times> sched_sys" where
  "ack_loop p request_vm_mask acked s =
     (let vm = ffs64 request_vm_mask
      in if vm < CONFIG_MAX_VM_NUM then
           let (a, s) = ack_one p vm s
           in ack_loop p (bitmap_clear vm request_vm_mask) (acked \<or> a) s
         else (acked, s))"
  by pat_completeness auto

termination
proof (relation "measure (\<lambda>(p, m, a, s). unat m)")
  fix p :: nat and m :: u64 and acked a :: bool and s s' :: sched_sys and vm
  assume "vm = ffs64 m" and "vm < CONFIG_MAX_VM_NUM"
  then have "m \<noteq> 0" using ffs64_none [of m] by (simp add: CONFIG_MAX_VM_NUM_def)
  then have "bitmap_test (ffs64 m) m" using ffs64_least [of m] by (simp add: bitmap_test_bit)
  then show "((p, bitmap_clear vm m, acked \<or> a, s'), (p, m, acked, s)) \<in> measure (\<lambda>(p, m, a, s). unat m)"
    using \<open>vm = ffs64 m\<close> by (simp add: bitmap_clear_less)
qed simp

declare ack_loop.simps [simp del]

definition sched_ack_quiesce_from_idle :: "nat \<Rightarrow> sched_sys \<Rightarrow> bool \<times> sched_sys" where
  "sched_ack_quiesce_from_idle p s = ack_loop p (quiesce_request_vm_mask (sched_ctls s p)) False s"

section \<open>Freeze and thaw\<close>

text \<open>
  The results are \<open>frozen\<close> and \<open>*wake_owned\<close>; the pointer \<open>wake_owned\<close> is taken to be set, as in its one
  caller (\<open>core/pm.c\<close>).
\<close>

definition freeze_thread ::
  "acrn_scheduler \<Rightarrow> thread_ref option \<Rightarrow> u64 \<Rightarrow> sched_sys \<Rightarrow> bool \<times> bool \<times> sched_sys" where
  "freeze_thread sch obj epoch s =
     (case obj of
        None \<Rightarrow> (False, False, s)
      | Some t \<Rightarrow>
          if epoch = 0 then (False, False, s)
          else if freeze_epoch (threads s t) = 0 \<or> freeze_epoch (threads s t) = epoch then
            let s = (if freeze_epoch (threads s t) = 0
                     then upd_thread t (\<lambda>th. th\<lparr>freeze_epoch := epoch, deferred_wake := False\<rparr>) s
                     else s);
                (wake_owned, s) = sleep_thread_locked sch t s
            in (True, wake_owned, s)
          else (False, False, s))"

definition is_thread_frozen :: "thread_ref option \<Rightarrow> u64 \<Rightarrow> sched_sys \<Rightarrow> bool" where
  "is_thread_frozen obj epoch s =
     (case obj of
        None \<Rightarrow> False
      | Some t \<Rightarrow> epoch \<noteq> 0 \<and> freeze_epoch (threads s t) = epoch \<and> is_blocked t s
          \<and> \<not> be_blocking (threads s t)
          \<and> (case sched_ctl (threads s t) of None \<Rightarrow> False | Some c \<Rightarrow> curr c s \<noteq> Some t))"

definition thaw_thread ::
  "acrn_scheduler \<Rightarrow> thread_ref option \<Rightarrow> u64 \<Rightarrow> bool \<Rightarrow> sched_sys \<Rightarrow> bool \<times> sched_sys" where
  "thaw_thread sch obj epoch wake_owned s =
     (case obj of
        None \<Rightarrow> (False, s)
      | Some t \<Rightarrow>
          if epoch = 0 then (False, s)
          else if freeze_epoch (threads s t) = epoch then
            let replay_wake = (wake_owned \<or> deferred_wake (threads s t));
                s = upd_thread t (\<lambda>th. th\<lparr>freeze_epoch := 0, deferred_wake := False\<rparr>) s
            in (True, if replay_wake then wake_thread_locked sch t s else s)
          else (False, s))"

section \<open>Priority, yield, first run, idle loop\<close>

definition request_thread_priority_no_resched :: "acrn_scheduler \<Rightarrow> thread_ref \<Rightarrow> sched_sys \<Rightarrow> sched_sys" where
  "request_thread_priority_no_resched sch t s =
     (case hook_prioritize sch of
        None \<Rightarrow> s
      | Some _ \<Rightarrow>
          upd_ctl (pcpu_id (threads s t)) (\<lambda>c. c\<lparr>ctl_priority_pending := True\<rparr>)
            (upd_thread t (\<lambda>th. th\<lparr>priority_pending := True\<rparr>) s))"

definition request_thread_priority :: "acrn_scheduler \<Rightarrow> thread_ref \<Rightarrow> sched_sys \<Rightarrow> sched_sys" where
  "request_thread_priority sch t s =
     make_reschedule_request (pcpu_id (threads s t)) (request_thread_priority_no_resched sch t s)"

definition yield_current :: "sched_sys \<Rightarrow> sched_sys" where
  "yield_current s = make_reschedule_request (cur_pcpu s) s"

text \<open>
  \<open>sleep_thread_sync\<close> spins until the thread is blocked. \<open>env n\<close> is what the other pCPUs do while the
  loop is in its \<open>n\<close>-th round.
\<close>

partial_function (option) wait_blocked ::
  "(nat \<Rightarrow> sched_sys \<Rightarrow> sched_sys) \<Rightarrow> thread_ref \<Rightarrow> nat \<Rightarrow> sched_sys \<Rightarrow> sched_sys option" where
  "wait_blocked env t n s = (if is_blocked t s then Some s else wait_blocked env t (Suc n) (env n s))"

definition sleep_thread_sync ::
  "(nat \<Rightarrow> sched_sys \<Rightarrow> sched_sys) \<Rightarrow> acrn_scheduler \<Rightarrow> thread_ref \<Rightarrow> sched_sys \<Rightarrow> sched_sys option" where
  "sleep_thread_sync env sch t s = wait_blocked env t 0 (sleep_thread sch t s)"

text \<open>\<open>run_thread\<close> up to the call of the thread's entry function.\<close>

definition run_thread :: "thread_ref \<Rightarrow> sched_sys \<Rightarrow> sched_sys" where
  "run_thread t s =
     (let s = upd_ctl (cur_pcpu s) (\<lambda>c. c\<lparr>curr_obj := Some t\<rparr>) s;
          now = cpu_ticks s;
          s = tick_read s;
          s = upd_latency t (sched_mark_running (khz s) now) s
      in set_thread_status t THREAD_STS_RUNNING s)"

definition take_pcpu_flag :: "nat \<Rightarrow> nat \<Rightarrow> sched_sys \<Rightarrow> bool \<times> sched_sys" where
  "take_pcpu_flag n p s =
     (let (old, v) = bitmap_test_and_clear n (pcpu_flag s p)
      in (old, s\<lparr>pcpu_flag := (pcpu_flag s)(p := v)\<rparr>))"

definition need_system_suspend :: "nat \<Rightarrow> sched_sys \<Rightarrow> bool \<times> sched_sys" where
  "need_system_suspend p s = (if p < pcpu_nums s then take_pcpu_flag NEED_SYSTEM_SUSPEND p s else (False, s))"

definition need_reset_vm :: "nat \<Rightarrow> sched_sys \<Rightarrow> bool \<times> sched_sys" where
  "need_reset_vm p s = (if p < pcpu_nums s then take_pcpu_flag NEED_RESET_VM p s else (False, s))"

definition need_shutdown_vm :: "nat \<Rightarrow> sched_sys \<Rightarrow> bool \<times> sched_sys" where
  "need_shutdown_vm p s = take_pcpu_flag NEED_SHUTDOWN_VM p s"

definition need_offline :: "nat \<Rightarrow> bool" where
  "need_offline p = False"

text \<open>One turn of the loop in \<open>default_idle\<close>. What the work itself does is an event.\<close>

definition default_idle_turn :: "acrn_scheduler \<Rightarrow> nat \<Rightarrow> sched_sys \<Rightarrow> sched_sys" where
  "default_idle_turn sch p s =
     (let (acked, s) = sched_ack_quiesce_from_idle p s;
          s = (if acked then make_reschedule_request p s else s);
          (susp, s) = need_system_suspend p s
      in if susp then make_reschedule_request p (log_event (PmProcessFromIdle p) s)
         else if need_reschedule p s then schedule_with sch s
         else if need_offline p then log_event (CpuDead p) s
         else
           let (rst, s) = need_reset_vm p s
           in if rst then log_event (ResetVmFromIdle p) s
              else
                let (shut, s) = need_shutdown_vm p s
                in if shut then log_event (ShutdownVmFromIdle p) s
                   else log_event (CpuDoIdle p) s)"

end
