(* ===== verification/Sched_Contract.thy ===== *)
theory Sched_Contract
  imports Sched_Core
begin

text \<open>
  The contract between the framework and a policy. \<open>core_inv\<close> is the framework's invariant of one
  pCPU: exactly one thread is RUNNING and it is the current one, only a running thread can be on its
  way to sleep, and every thread on the policy's run queues is ready to run. The locale
  \<open>sched_policy\<close> states what the framework relies on from the hooks; the framework's operations
  keep the invariant in every such policy.
\<close>

section \<open>The invariant of a pCPU\<close>

definition managed :: "nat \<Rightarrow> thread_ref \<Rightarrow> sched_sys \<Rightarrow> bool" where
  "managed p t s \<longleftrightarrow>
     pcpu_id (threads s t) = p \<and> sched_ctl (threads s t) = Some p \<and> t \<noteq> Idle p"

definition eligible :: "nat \<Rightarrow> thread_ref \<Rightarrow> sched_sys \<Rightarrow> bool" where
  "eligible p t s \<longleftrightarrow> managed p t s \<and> \<not> is_blocked t s \<and> \<not> be_blocking (threads s t)"

definition base_inv :: "nat \<Rightarrow> sched_sys \<Rightarrow> bool" where
  "base_inv p s \<longleftrightarrow>
     ctl_pcpu_id (sched_ctls s p) = p
     \<and> pcpu_id (threads s (Idle p)) = p \<and> \<not> be_blocking (threads s (Idle p))
     \<and> (\<forall>t. is_vcpu (threads s t) \<and> pcpu_id (threads s t) = p \<longrightarrow> managed p t s)
     \<and> (\<forall>t. pcpu_id (threads s t) = p \<longrightarrow> (is_running t s \<longleftrightarrow> curr p s = Some t))
     \<and> (\<forall>t. pcpu_id (threads s t) = p \<and> be_blocking (threads s t) \<longrightarrow> is_running t s)
     \<and> (\<exists>t. curr p s = Some t \<and> (t = Idle p \<or> managed p t s))"

definition queue_inv :: "thread_ref list \<Rightarrow> nat \<Rightarrow> sched_sys \<Rightarrow> bool" where
  "queue_inv q p s \<longleftrightarrow> distinct q \<and> (\<forall>t \<in> set q. eligible p t s)"

lemma managed_frame: "hook_frame s s' \<Longrightarrow> managed p t s' = managed p t s"
  by (simp add: managed_def hook_frameD)

lemma eligible_frame: "hook_frame s s' \<Longrightarrow> eligible p t s' = eligible p t s"
  by (simp add: eligible_def managed_frame hook_frameD)

lemma base_inv_frame: "hook_frame s s' \<Longrightarrow> base_inv p s' = base_inv p s"
  by (simp add: base_inv_def managed_frame hook_frameD)

lemma queue_inv_frame: "hook_frame s s' \<Longrightarrow> queue_inv q p s' = queue_inv q p s"
  by (simp add: queue_inv_def eligible_frame)

lemma queue_inv_subset:
  "queue_inv q p s \<Longrightarrow> distinct q' \<Longrightarrow> set q' \<subseteq> set q \<Longrightarrow> queue_inv q' p s"
  by (auto simp: queue_inv_def)

lemma base_inv_currE:
  assumes "base_inv p s"
  obtains c where "curr p s = Some c" "c = Idle p \<or> managed p c s" "is_running c s"
    "pcpu_id (threads s c) = p" "is_idle_thread c s \<longleftrightarrow> c = Idle p"
proof -
  obtain c where c: "curr p s = Some c" "c = Idle p \<or> managed p c s" using assms by (auto simp: base_inv_def)
  then have pc: "pcpu_id (threads s c) = p" using assms by (auto simp: base_inv_def managed_def)
  show thesis by (rule that [OF c]) (use assms c pc in \<open>auto simp: base_inv_def is_idle_thread_def\<close>)
qed

lemma not_idle_managed: "managed p t s \<Longrightarrow> \<not> is_idle_thread t s"
  by (auto simp: managed_def is_idle_thread_def)

section \<open>The parts of the state that belong to the policies\<close>

text \<open>
  The framework changes none of this between hooks: the private data and the place of the threads,
  the queues, and the timers.
\<close>

definition policy_same :: "sched_sys \<Rightarrow> sched_sys \<Rightarrow> bool" where
  "policy_same s s' \<longleftrightarrow>
     (\<forall>t. prio_data (threads s' t) = prio_data (threads s t)
        \<and> iorr_data (threads s' t) = iorr_data (threads s t)
        \<and> bvt_data (threads s' t) = bvt_data (threads s t)
        \<and> rtds_data (threads s' t) = rtds_data (threads s t)
        \<and> cbs_data (threads s' t) = cbs_data (threads s t)
        \<and> bfp_data (threads s' t) = bfp_data (threads s t)
        \<and> pcpu_id (threads s' t) = pcpu_id (threads s t)
        \<and> sched_ctl (threads s' t) = sched_ctl (threads s t)
        \<and> is_vcpu (threads s' t) = is_vcpu (threads s t))
     \<and> noop_thread_obj s' = noop_thread_obj s \<and> prio_queue s' = prio_queue s
     \<and> iorr_runqueue s' = iorr_runqueue s \<and> bvt_ctl s' = bvt_ctl s \<and> rtds_ctl s' = rtds_ctl s
     \<and> cbs_ctl s' = cbs_ctl s \<and> bfp_ctl s' = bfp_ctl s \<and> arinc_ctl s' = arinc_ctl s \<and> arinc_lists s' = arinc_lists s
     \<and> timers s' = timers s \<and> timer_list s' = timer_list s \<and> fault s' = fault s
     \<and> khz s' = khz s \<and> cur_pcpu s' = cur_pcpu s"

lemma policy_same_refl [simp]: "policy_same s s"
  by (simp add: policy_same_def)

lemma policy_same_trans: "policy_same s s' \<Longrightarrow> policy_same s' s'' \<Longrightarrow> policy_same s s''"
  by (simp add: policy_same_def)

lemma policy_same_prims [simp, intro]:
  "policy_same s (upd_latency t f s)" "policy_same s (set_thread_status t st s)"
  "policy_same s (upd_thread t (\<lambda>th. th\<lparr>be_blocking := b\<rparr>) s)"
  "policy_same s (upd_thread t (\<lambda>th. th\<lparr>priority_pending := b\<rparr>) s)"
  "policy_same s (upd_thread t (\<lambda>th. th\<lparr>deferred_wake := b\<rparr>) s)"
  "policy_same s (upd_thread t (\<lambda>th. th\<lparr>ptrauth_return_authenticated := b\<rparr>) s)"
  "policy_same s (upd_thread t (\<lambda>th. th\<lparr>freeze_epoch := e, deferred_wake := b\<rparr>) s)"
  "policy_same s (upd_ctl p g s)" "policy_same s (log_event e2 s)" "policy_same s (tick_read s)"
  by (auto simp: policy_same_def upd_latency_def set_thread_status_def log_event_def)

lemma policy_same_timer_ok: "policy_same s s' \<Longrightarrow> timer_ok s' = timer_ok s"
  by (rule timer_ok_cong) (simp_all add: policy_same_def)

lemma policy_same_make_reschedule [simp]: "policy_same s (make_reschedule_request p s)"
  by (auto simp: policy_same_def make_reschedule_request_def Let_def log_event_def)

lemma core_make_reschedule [simp]:
  "threads (make_reschedule_request p s) = threads s"
  "curr q (make_reschedule_request p s) = curr q s"
  "ctl_pcpu_id (sched_ctls (make_reschedule_request p s) q) = ctl_pcpu_id (sched_ctls s q)"
  "cur_pcpu (make_reschedule_request p s) = cur_pcpu s"
  by (simp_all add: make_reschedule_request_def Let_def curr_def)

lemma need_reschedule_after_request: "need_reschedule p (make_reschedule_request p s)"
  by (simp add: need_reschedule_def make_reschedule_request_def Let_def)

section \<open>What a context switch does to the threads\<close>

lemma upd_latency_core [simp]:
  "status (threads (upd_latency t f s) u) = status (threads s u)"
  "be_blocking (threads (upd_latency t f s) u) = be_blocking (threads s u)"
  "pcpu_id (threads (upd_latency t f s) u) = pcpu_id (threads s u)"
  "sched_ctl (threads (upd_latency t f s) u) = sched_ctl (threads s u)"
  "is_vcpu (threads (upd_latency t f s) u) = is_vcpu (threads s u)"
  "sched_ctls (upd_latency t f s) = sched_ctls s" "cur_pcpu (upd_latency t f s) = cur_pcpu s"
  by (simp_all add: upd_latency_def)

lemma set_thread_status_core [simp]:
  "status (threads (set_thread_status t st s) u) = (if u = t then st else status (threads s u))"
  "be_blocking (threads (set_thread_status t st s) u) = be_blocking (threads s u)"
  "pcpu_id (threads (set_thread_status t st s) u) = pcpu_id (threads s u)"
  "sched_ctl (threads (set_thread_status t st s) u) = sched_ctl (threads s u)"
  "is_vcpu (threads (set_thread_status t st s) u) = is_vcpu (threads s u)"
  "sched_ctls (set_thread_status t st s) = sched_ctls s" "cur_pcpu (set_thread_status t st s) = cur_pcpu s"
  by (simp_all add: set_thread_status_def)

lemma leave_thread_core:
  "status (threads (leave_thread prev nx now s) u) =
     (if u = prev then if be_blocking (threads s prev) then THREAD_STS_BLOCKED else THREAD_STS_RUNNABLE
      else status (threads s u))"
  "be_blocking (threads (leave_thread prev nx now s) u) = (u \<noteq> prev \<and> be_blocking (threads s u))"
  "sched_ctls (leave_thread prev nx now s) = sched_ctls s"
  "cur_pcpu (leave_thread prev nx now s) = cur_pcpu s"
  "policy_same s (leave_thread prev nx now s)"
  by (auto simp: leave_thread_def Let_def policy_same_def upd_latency_def set_thread_status_def log_event_def)

lemma enter_thread_core:
  "status (threads (enter_thread nx now s) u) = (if u = nx then THREAD_STS_RUNNING else status (threads s u))"
  "be_blocking (threads (enter_thread nx now s) u) = be_blocking (threads s u)"
  "sched_ctls (enter_thread nx now s) = sched_ctls s"
  "cur_pcpu (enter_thread nx now s) = cur_pcpu s"
  "policy_same s (enter_thread nx now s)"
  by (auto simp: enter_thread_def Let_def policy_same_def upd_latency_def set_thread_status_def log_event_def)

lemmas policy_same_step =
  policy_same_prims [THEN policy_same_trans [rotated]]
  policy_same_make_reschedule [THEN policy_same_trans [rotated]]
  leave_thread_core(5) [THEN policy_same_trans [rotated]]
  enter_thread_core(5) [THEN policy_same_trans [rotated]]

lemma switch_threads_core:
  assumes "prev = Some c" and "c \<noteq> nx"
  shows "status (threads (switch_threads p prev nx s) u) =
      (if u = nx then THREAD_STS_RUNNING
       else if u = c then if be_blocking (threads s c) then THREAD_STS_BLOCKED else THREAD_STS_RUNNABLE
       else status (threads s u))"
    and "be_blocking (threads (switch_threads p prev nx s) u) = (u \<noteq> c \<and> be_blocking (threads s u))"
    and "curr q (switch_threads p prev nx s) = (if q = p then Some nx else curr q s)"
    and "ctl_pcpu_id (sched_ctls (switch_threads p prev nx s) q) = ctl_pcpu_id (sched_ctls s q)"
    and "cur_pcpu (switch_threads p prev nx s) = cur_pcpu s"
    and "policy_same s (switch_threads p prev nx s)"
proof -
  show "policy_same s (switch_threads p prev nx s)"
    unfolding switch_threads_def assms(1) Let_def option.case
    by (cases "arm64_ptrauth_active_current s"; simp; intro policy_same_step policy_same_refl)
qed (use assms in \<open>auto simp: switch_threads_def Let_def leave_thread_core enter_thread_core curr_def\<close>)

section \<open>The contract\<close>

definition hook_ok :: "(nat \<Rightarrow> sched_sys \<Rightarrow> bool) \<Rightarrow> nat \<Rightarrow> sched_sys \<Rightarrow> sched_sys \<Rightarrow> bool" where
  "hook_ok wfq p s s' \<longleftrightarrow> hook_frame s s' \<and> wfq p s' \<and> (timer_ok s \<longrightarrow> timer_ok s')"

definition pcpu_inv ::
  "(nat \<Rightarrow> sched_sys \<Rightarrow> thread_ref list) \<Rightarrow> (nat \<Rightarrow> sched_sys \<Rightarrow> bool) \<Rightarrow> nat \<Rightarrow> sched_sys \<Rightarrow> bool" where
  "pcpu_inv rq wfq p s \<longleftrightarrow> base_inv p s \<and> queue_inv (rq p s) p s \<and> wfq p s \<and> timer_ok s"

text \<open>
  The registry holds the threads of the pCPU that were set up for it, and its idle thread, for
  which nothing asks priority.
\<close>

definition registry_inv :: "nat \<Rightarrow> sched_sys \<Rightarrow> bool" where
  "registry_inv p s \<longleftrightarrow>
     (\<forall>t \<in> set (thread_list s). pcpu_id (threads s t) = p \<and> priority_pending (threads s t) \<longrightarrow> managed p t s)"

lemma switch_threads_registry:
  "thread_list (switch_threads p c t s) = thread_list s"
  "pcpu_id (threads (switch_threads p c t s) u) = pcpu_id (threads s u)"
  "sched_ctl (threads (switch_threads p c t s) u) = sched_ctl (threads s u)"
  "priority_pending (threads (switch_threads p c t s) u) = priority_pending (threads s u)"
  by (auto simp: switch_threads_def leave_thread_def enter_thread_def Let_def upd_latency_def set_thread_status_def
      log_event_def split: option.split)

locale sched_policy =
  fixes sch :: acrn_scheduler
    and rq :: "nat \<Rightarrow> sched_sys \<Rightarrow> thread_ref list"
    and wfq :: "nat \<Rightarrow> sched_sys \<Rightarrow> bool"
  assumes rq_same: "policy_same s s' \<Longrightarrow> rq p s' = rq p s"
    and wfq_same: "policy_same s s' \<Longrightarrow> wfq p s \<Longrightarrow> wfq p s'"
    and pick_ok: "\<lbrakk>base_inv p s; queue_inv (rq p s) p s; wfq p s; cur_pcpu s = p;
        hook_pick_next sch = Some pick; pick p s = (t, s')\<rbrakk>
      \<Longrightarrow> hook_ok wfq p s s' \<and> queue_inv (rq p s') p s \<and> (t = Idle p \<or> eligible p t s)"
    and sleep_ok: "\<lbrakk>base_inv p s; queue_inv (rq p s) p s; wfq p s; managed p t s;
        call_hook (hook_sleep sch) t s = s'\<rbrakk>
      \<Longrightarrow> hook_ok wfq p s s' \<and> distinct (rq p s') \<and> set (rq p s') \<subseteq> set (rq p s) - {t}"
    and wake_ok: "\<lbrakk>base_inv p s; queue_inv (rq p s) p s; wfq p s; managed p t s; t \<notin> set (rq p s);
        call_hook (hook_wake sch) t s = s'\<rbrakk>
      \<Longrightarrow> hook_ok wfq p s s' \<and> distinct (rq p s') \<and> set (rq p s') \<subseteq> insert t (set (rq p s))"
    and prioritize_ok: "\<lbrakk>base_inv p s; queue_inv (rq p s) p s; wfq p s; eligible p t s;
        hook_prioritize sch = Some f; f t s = s'\<rbrakk>
      \<Longrightarrow> hook_ok wfq p s s' \<and> distinct (rq p s') \<and> set (rq p s') \<subseteq> insert t (set (rq p s))"
begin

lemma pcpu_inv_blocked_not_queued:
  "pcpu_inv rq wfq p s \<Longrightarrow> is_blocked t s \<or> be_blocking (threads s t) \<Longrightarrow> t \<notin> set (rq p s)"
  by (auto simp: pcpu_inv_def queue_inv_def eligible_def)

text \<open>A framework update that leaves base invariant and eligibility intact.\<close>

lemma pcpu_inv_same:
  assumes "pcpu_inv rq wfq p s" and "policy_same s s'" and "base_inv p s'"
    and "\<And>t. t \<in> set (rq p s) \<Longrightarrow> eligible p t s'"
  shows "pcpu_inv rq wfq p s'"
  using assms rq_same [OF assms(2)] wfq_same [OF assms(2)] policy_same_timer_ok [OF assms(2)]
  by (auto simp: pcpu_inv_def queue_inv_def)

text \<open>A framework update that touches neither thread states nor the current thread.\<close>

lemma pcpu_inv_quiet:
  assumes "pcpu_inv rq wfq p s" and "policy_same s s'"
    and "\<And>t. status (threads s' t) = status (threads s t)"
    and "\<And>t. be_blocking (threads s' t) = be_blocking (threads s t)"
    and "curr p s' = curr p s" and "ctl_pcpu_id (sched_ctls s' p) = ctl_pcpu_id (sched_ctls s p)"
  shows "pcpu_inv rq wfq p s'"
proof -
  have eq: "pcpu_id (threads s' t) = pcpu_id (threads s t)"
    "sched_ctl (threads s' t) = sched_ctl (threads s t)" "is_vcpu (threads s' t) = is_vcpu (threads s t)" for t
    using assms(2) by (simp_all add: policy_same_def)
  have m: "managed p t s' = managed p t s" for t by (simp add: managed_def eq)
  show ?thesis
    by (rule pcpu_inv_same [OF assms(1,2)])
      (use assms in \<open>auto simp: pcpu_inv_def base_inv_def queue_inv_def eligible_def m eq is_blocked_def is_running_def\<close>)
qed

lemma pcpu_inv_hook:
  assumes "pcpu_inv rq wfq p s" and "hook_ok wfq p s s'" and "queue_inv (rq p s') p s"
  shows "pcpu_inv rq wfq p s'"
  using assms by (auto simp: pcpu_inv_def hook_ok_def base_inv_frame queue_inv_frame)

lemma make_reschedule_inv: "pcpu_inv rq wfq p s \<Longrightarrow> pcpu_inv rq wfq p (make_reschedule_request q s)"
  by (rule pcpu_inv_quiet) simp_all

section \<open>Priority requests\<close>

lemma prioritize_inv:
  assumes "pcpu_inv rq wfq p s" and "eligible p t s" and "hook_prioritize sch = Some f"
  shows "pcpu_inv rq wfq p (f t s)" and "hook_frame s (f t s)"
proof -
  have "hook_ok wfq p s (f t s) \<and> distinct (rq p (f t s)) \<and> set (rq p (f t s)) \<subseteq> insert t (set (rq p s))"
    using assms prioritize_ok by (auto simp: pcpu_inv_def)
  moreover from this have "queue_inv (rq p (f t s)) p s"
    using assms by (auto simp: queue_inv_def pcpu_inv_def)
  ultimately show "pcpu_inv rq wfq p (f t s)" "hook_frame s (f t s)"
    using assms(1) pcpu_inv_hook by (auto simp: hook_ok_def)
qed

lemma consume_one_inv:
  assumes "pcpu_inv rq wfq p s" and "pcpu_id (threads s t) = p \<and> priority_pending (threads s t) \<longrightarrow> managed p t s"
  shows "pcpu_inv rq wfq p (consume_priority_one sch p t s)"
    and "curr q (consume_priority_one sch p t s) = curr q s"
    and "cur_pcpu (consume_priority_one sch p t s) = cur_pcpu s"
    and "pcpu_id (threads (consume_priority_one sch p t s) u) = pcpu_id (threads s u)"
    and "managed p u (consume_priority_one sch p t s) = managed p u s"
    and "priority_pending (threads (consume_priority_one sch p t s) u) \<Longrightarrow> priority_pending (threads s u)"
    and "status (threads (consume_priority_one sch p t s) u) = status (threads s u)"
    and "be_blocking (threads (consume_priority_one sch p t s) u) = be_blocking (threads s u)"
    and "sched_idle_work_pending_locked p (consume_priority_one sch p t s) = sched_idle_work_pending_locked p s"
    and "thread_list (consume_priority_one sch p t s) = thread_list s"
proof -
  let ?s = "upd_thread t (\<lambda>th. th\<lparr>priority_pending := False\<rparr>) s"
  have I: "pcpu_inv rq wfq p ?s" by (rule pcpu_inv_quiet [OF assms(1)]) (simp_all add: curr_def)
  have el: "eligible p t ?s" if "managed p t s" "is_runnable_or_running t ?s" "\<not> be_blocking (threads ?s t)"
    using that by (auto simp: eligible_def managed_def is_runnable_or_running_def is_blocked_def)
  have P: "pcpu_inv rq wfq p (f t ?s)" "hook_frame ?s (f t ?s)"
    if "managed p t s" "is_runnable_or_running t ?s" "\<not> be_blocking (threads ?s t)" "hook_prioritize sch = Some f" for f
    using prioritize_inv [OF I el [OF that(1-3)] that(4)] .
  let ?r = "consume_priority_one sch p t s"
  have F: "?r = s \<or> (pcpu_inv rq wfq p ?r \<and> hook_frame ?s ?r)"
    using P I assms(2) by (auto simp: consume_priority_one_def Let_def split: option.split)
  then show "pcpu_inv rq wfq p ?r" using assms(1) by auto
  show "curr q ?r = curr q s" using F by (auto simp: hook_frameD curr_def)
  show "cur_pcpu ?r = cur_pcpu s" using F by (auto simp: hook_frameD)
  show "pcpu_id (threads ?r u) = pcpu_id (threads s u)" using F by (auto simp: hook_frameD)
  show "managed p u ?r = managed p u s" using F by (auto simp: managed_def hook_frameD)
  show "status (threads ?r u) = status (threads s u)" using F by (auto simp: hook_frameD)
  show "be_blocking (threads ?r u) = be_blocking (threads s u)"
    using F by (auto simp: hook_frameD split: if_splits)
  show "sched_idle_work_pending_locked p ?r = sched_idle_work_pending_locked p s"
    using F by (auto simp: hook_frameD sched_idle_work_pending_locked_def has_system_suspend_request_def
        has_reset_vm_request_def)
  show "thread_list ?r = thread_list s" using F by (auto simp: hook_frameD)
  show "priority_pending (threads s u)" if "priority_pending (threads ?r u)"
    using F that by (auto simp: hook_frameD split: if_splits)
qed

lemma fold_consume_inv:
  assumes "pcpu_inv rq wfq p s"
    and "\<forall>t \<in> set ts. pcpu_id (threads s t) = p \<and> priority_pending (threads s t) \<longrightarrow> managed p t s"
  shows "pcpu_inv rq wfq p (fold (consume_priority_one sch p) ts s)
    \<and> curr q (fold (consume_priority_one sch p) ts s) = curr q s
    \<and> cur_pcpu (fold (consume_priority_one sch p) ts s) = cur_pcpu s
    \<and> sched_idle_work_pending_locked p (fold (consume_priority_one sch p) ts s)
        = sched_idle_work_pending_locked p s
    \<and> (\<forall>u. status (threads (fold (consume_priority_one sch p) ts s) u) = status (threads s u)
         \<and> be_blocking (threads (fold (consume_priority_one sch p) ts s) u) = be_blocking (threads s u)
         \<and> managed p u (fold (consume_priority_one sch p) ts s) = managed p u s)
    \<and> thread_list (fold (consume_priority_one sch p) ts s) = thread_list s
    \<and> (\<forall>u. pcpu_id (threads (fold (consume_priority_one sch p) ts s) u) = pcpu_id (threads s u)
         \<and> (priority_pending (threads (fold (consume_priority_one sch p) ts s) u) \<longrightarrow> priority_pending (threads s u)))"
  using assms
proof (induction ts arbitrary: s)
  case (Cons t ts)
  note C = consume_one_inv [OF Cons.prems(1), of t]
  have "pcpu_id (threads s t) = p \<and> priority_pending (threads s t) \<longrightarrow> managed p t s"
    using Cons.prems(2) by simp
  note C = C [OF this]
  have "\<forall>u \<in> set ts. pcpu_id (threads (consume_priority_one sch p t s) u) = p
      \<and> priority_pending (threads (consume_priority_one sch p t s) u)
      \<longrightarrow> managed p u (consume_priority_one sch p t s)"
    using Cons.prems(2) C(4,5,6) by auto
  from Cons.IH [OF C(1) this] C show ?case by simp
qed simp

lemma consume_priority_inv:
  assumes "pcpu_inv rq wfq p s" and "registry_inv p s"
  shows "pcpu_inv rq wfq p (consume_priority sch p s)" and "curr q (consume_priority sch p s) = curr q s"
    and "cur_pcpu (consume_priority sch p s) = cur_pcpu s"
    and "eligible p u (consume_priority sch p s) = eligible p u s"
    and "status (threads (consume_priority sch p s) u) = status (threads s u)"
    and "be_blocking (threads (consume_priority sch p s) u) = be_blocking (threads s u)"
    and "sched_idle_work_pending_locked p (consume_priority sch p s) = sched_idle_work_pending_locked p s"
    and "registry_inv p (consume_priority sch p s)"
proof -
  let ?s = "upd_ctl p (\<lambda>c. c\<lparr>ctl_priority_pending := False\<rparr>) s"
  have I: "pcpu_inv rq wfq p ?s" by (rule pcpu_inv_quiet [OF assms(1)]) (simp_all add: curr_def)
  have R: "\<forall>t \<in> set (thread_list s). pcpu_id (threads ?s t) = p \<and> priority_pending (threads ?s t) \<longrightarrow> managed p t ?s"
    using assms(2) by (simp add: registry_inv_def managed_def)
  note F = fold_consume_inv [OF I R]
  have m: "managed p v ?s = managed p v s" "curr v' ?s = curr v' s" for v v'
    by (simp_all add: managed_def curr_def)
  have w: "sched_idle_work_pending_locked p ?s = sched_idle_work_pending_locked p s"
    by (simp add: sched_idle_work_pending_locked_def has_system_suspend_request_def has_reset_vm_request_def Let_def)
  show "pcpu_inv rq wfq p (consume_priority sch p s)" "curr q (consume_priority sch p s) = curr q s"
    "cur_pcpu (consume_priority sch p s) = cur_pcpu s"
    "eligible p u (consume_priority sch p s) = eligible p u s"
    "status (threads (consume_priority sch p s) u) = status (threads s u)"
    "be_blocking (threads (consume_priority sch p s) u) = be_blocking (threads s u)"
    "sched_idle_work_pending_locked p (consume_priority sch p s) = sched_idle_work_pending_locked p s"
    using F assms(1) m w by (auto simp: consume_priority_def Let_def eligible_def is_blocked_def)
  show "registry_inv p (consume_priority sch p s)"
    using F assms(2) m by (auto simp: consume_priority_def Let_def registry_inv_def)
qed

section \<open>Scheduling\<close>

lemma choose_next_inv:
  assumes "pcpu_inv rq wfq p s" and "cur_pcpu s = p" and "choose_next sch p s = (t, s')"
  shows "pcpu_inv rq wfq p s'" and "hook_frame s s'" and "t = Idle p \<or> eligible p t s"
proof -
  have "hook_ok wfq p s s' \<and> queue_inv (rq p s') p s \<and> (t = Idle p \<or> eligible p t s)"
    if "hook_pick_next sch = Some pick" "pick p s = (t, s')" for pick
    using assms that by (auto simp: pcpu_inv_def dest: pick_ok)
  moreover have "s' = s \<and> t = Idle p \<or> (\<exists>pick. hook_pick_next sch = Some pick \<and> pick p s = (t, s'))"
    using assms(3) by (auto simp: choose_next_def split: if_splits option.splits)
  ultimately show "pcpu_inv rq wfq p s'" and "hook_frame s s'" and "t = Idle p \<or> eligible p t s"
    using assms(1) pcpu_inv_hook [OF assms(1)] by (auto simp: hook_ok_def)
qed

lemma switch_inv:
  assumes I: "pcpu_inv rq wfq p s" and c: "curr p s = Some c" and "c \<noteq> t"
    and t: "t = Idle p \<or> eligible p t s"
  shows "pcpu_inv rq wfq p (switch_threads p (Some c) t s)"
proof (rule pcpu_inv_same [OF I])
  let ?s = "switch_threads p (Some c) t s"
  note S = switch_threads_core [OF refl \<open>c \<noteq> t\<close>]
  show ps: "policy_same s ?s" by (rule S)
  then have eq: "pcpu_id (threads ?s u) = pcpu_id (threads s u)"
    "sched_ctl (threads ?s u) = sched_ctl (threads s u)" "is_vcpu (threads ?s u) = is_vcpu (threads s u)" for u
    by (simp_all add: policy_same_def)
  have m: "managed p u ?s = managed p u s" for u by (simp add: managed_def eq)
  have B: "base_inv p s" using I by (simp add: pcpu_inv_def)
  have pt: "pcpu_id (threads s t) = p" "\<not> be_blocking (threads s t)"
    using t B by (auto simp: eligible_def managed_def base_inv_def)
  show "base_inv p ?s"
    using B c \<open>c \<noteq> t\<close> pt t
    by (auto simp: base_inv_def m eq S is_running_def eligible_def)
  show "eligible p u ?s" if "u \<in> set (rq p s)" for u
    using that I c by (auto simp: pcpu_inv_def queue_inv_def eligible_def is_blocked_def m S)
qed

theorem schedule_inv:
  assumes "pcpu_inv rq wfq p s" and "registry_inv p s" and "cur_pcpu s = p"
  shows "pcpu_inv rq wfq p (schedule_with sch s)"
    and "\<exists>t. curr p (schedule_with sch s) = Some t \<and> (t = Idle p \<or> eligible p t s)"
proof -
  let ?s1 = "consume_priority sch p s"
  obtain t s2 where ch: "choose_next sch p ?s1 = (t, s2)" by fastforce
  let ?s3 = "upd_ctl p (\<lambda>c. c\<lparr>flags := bitmap_clear NEED_RESCHEDULE (flags c)\<rparr>) s2"
  note C = consume_priority_inv [OF assms(1,2)]
  have "cur_pcpu ?s1 = p" using C(3) assms(3) by simp
  note N = choose_next_inv [OF C(1) this ch]
  have I3: "pcpu_inv rq wfq p ?s3" by (rule pcpu_inv_quiet [OF N(1)]) (simp_all add: curr_def)
  obtain c where c: "curr p s = Some c" using assms(1) by (auto simp: pcpu_inv_def base_inv_def)
  have c3: "curr p ?s3 = Some c" using c C(2) N(2) by (simp add: hook_frameD curr_def)
  have "managed p t ?s3 = managed p t s2" by (simp add: managed_def)
  then have t3: "t = Idle p \<or> eligible p t ?s3"
    using N(2,3) by (auto simp: eligible_def managed_frame hook_frameD is_blocked_def)
  have t0: "t = Idle p \<or> eligible p t s" using N(3) C(4) by simp
  have eq: "schedule_with sch s = (if c \<noteq> t then switch_threads p (Some c) t ?s3 else ?s3)"
    using assms(3) c ch by (simp add: schedule_with_def Let_def)
  show "pcpu_inv rq wfq p (schedule_with sch s)"
    using switch_inv [OF I3 c3 _ t3] I3 by (simp add: eq)
  show "\<exists>t. curr p (schedule_with sch s) = Some t \<and> (t = Idle p \<or> eligible p t s)"
    using t0 c3 switch_threads_core(3) [OF refl] by (auto simp: eq)
qed

lemma registry_frame: "hook_frame s s' \<Longrightarrow> registry_inv p s' = registry_inv p s"
  by (simp add: registry_inv_def managed_frame hook_frameD)

theorem schedule_registry:
  assumes "pcpu_inv rq wfq p s" and "registry_inv p s" and "cur_pcpu s = p"
  shows "registry_inv p (schedule_with sch s)"
proof -
  let ?s1 = "consume_priority sch p s"
  obtain t s2 where ch: "choose_next sch p ?s1 = (t, s2)" by fastforce
  note C = consume_priority_inv [OF assms(1,2)]
  have "cur_pcpu ?s1 = p" using C(3) assms(3) by simp
  then have "registry_inv p s2" using choose_next_inv(2) [OF C(1) _ ch] registry_frame C(8) by blast
  then have 3: "registry_inv p (upd_ctl p f s2)" for f by (simp add: registry_inv_def managed_def)
  then have "registry_inv p (switch_threads p c t (upd_ctl p f s2))" for c f
    using switch_threads_registry [of p c t "upd_ctl p f s2"] by (simp add: registry_inv_def managed_def)
  with 3 show ?thesis using assms(3) ch by (simp add: schedule_with_def Let_def)
qed

section \<open>Sleep and wake\<close>

lemma sleep_locked_inv:
  assumes I: "pcpu_inv rq wfq p s" and m: "managed p t s"
  shows "pcpu_inv rq wfq p (snd (sleep_thread_locked sch t s))"
    and "t \<notin> set (rq p (snd (sleep_thread_locked sch t s)))"
    and "is_running t s \<Longrightarrow> be_blocking (threads (snd (sleep_thread_locked sch t s)) t)
           \<and> need_reschedule p (snd (sleep_thread_locked sch t s))"
    and "\<not> is_running t s \<Longrightarrow> is_blocked t (snd (sleep_thread_locked sch t s))"
proof -
  let ?h = "call_hook (hook_sleep sch) t s" and ?r = "snd (sleep_thread_locked sch t s)"
  have H: "hook_ok wfq p s ?h" "distinct (rq p ?h)" "set (rq p ?h) \<subseteq> set (rq p s) - {t}"
    using I m sleep_ok [of p s t] by (auto simp: pcpu_inv_def)
  then have F: "hook_frame s ?h" by (simp add: hook_ok_def)
  have J: "pcpu_inv rq wfq p ?h"
    using I H by (intro pcpu_inv_hook [OF I H(1)] queue_inv_subset [OF _ H(2)]) (auto simp: pcpu_inv_def)
  have pt: "pcpu_id (threads s t) = p" "pcpu_id (threads ?h t) = p" "t \<noteq> Idle p"
    using m F by (simp_all add: managed_def hook_frameD)
  let ?run = "upd_thread t (\<lambda>th. th\<lparr>be_blocking := True\<rparr>) (make_reschedule_request p ?h)"
  let ?blk = "set_thread_status t THREAD_STS_BLOCKED
    (upd_latency t (sched_mark_blocked (cpu_ticks ?h)) (tick_read ?h))"
  have r: "?r = (if is_running t s then ?run else ?blk)"
    using pt F by (simp add: sleep_thread_locked_def Let_def hook_frameD)
  have psr: "policy_same ?h ?run" and psb: "policy_same ?h ?blk"
    by (intro policy_same_step policy_same_refl)+
  have mr: "managed p u ?run = managed p u ?h" "managed p u ?blk = managed p u ?h" for u
    by (simp_all add: managed_def)
  have Bh: "base_inv p ?h" using J by (simp add: pcpu_inv_def)
  have IR: "pcpu_inv rq wfq p ?run" if "is_running t s"
    by (rule pcpu_inv_same [OF J psr])
      (use that Bh H F J mr pt in \<open>auto simp: base_inv_def pcpu_inv_def queue_inv_def eligible_def hook_frameD
         is_blocked_def is_running_def curr_def [of _ "upd_thread _ _ _"] curr_def [symmetric]\<close>)
  have IB: "pcpu_inv rq wfq p ?blk" if "\<not> is_running t s"
    by (rule pcpu_inv_same [OF J psb])
      (use that Bh H F J mr pt in \<open>auto simp: base_inv_def pcpu_inv_def queue_inv_def eligible_def hook_frameD
         is_blocked_def is_running_def curr_def\<close>)
  show "pcpu_inv rq wfq p ?r" using IR IB by (simp add: r)
  show "t \<notin> set (rq p ?r)" using H(3) rq_same [OF psr] rq_same [OF psb] by (auto simp: r)
  show "be_blocking (threads ?r t) \<and> need_reschedule p ?r" if "is_running t s"
    using that need_reschedule_after_request [of p ?h] by (simp add: r need_reschedule_def)
  show "is_blocked t ?r" if "\<not> is_running t s" using that by (simp add: r is_blocked_def)
qed

lemma wake_locked_inv:
  assumes I: "pcpu_inv rq wfq p s" and m: "managed p t s"
  shows "pcpu_inv rq wfq p (wake_thread_locked sch t s)"
    and "eligible p t (wake_thread_locked sch t s)"
    and "is_blocked t s \<Longrightarrow> need_reschedule p (wake_thread_locked sch t s)"
proof -
  let ?h = "call_hook (hook_wake sch) t s" and ?r = "wake_thread_locked sch t s"
  have "pcpu_inv rq wfq p ?r \<and> eligible p t ?r \<and> (is_blocked t s \<longrightarrow> need_reschedule p ?r)"
  proof (cases "is_blocked t s \<or> be_blocking (threads s t)")
    case False
    then show ?thesis using I m by (simp add: wake_thread_locked_def eligible_def)
  next
    case True
    have "t \<notin> set (rq p s)" using pcpu_inv_blocked_not_queued [OF I True] .
    then have H: "hook_ok wfq p s ?h" "distinct (rq p ?h)" "set (rq p ?h) \<subseteq> insert t (set (rq p s))"
      using I m wake_ok [of p s t] by (auto simp: pcpu_inv_def)
    then have F: "hook_frame s ?h" and T: "timer_ok ?h" and W: "wfq p ?h"
      using I by (auto simp: hook_ok_def pcpu_inv_def)
    let ?b = "make_reschedule_request p (set_thread_status t THREAD_STS_RUNNABLE
       (upd_latency t (sched_mark_runnable (cpu_ticks ?h)) (tick_read ?h)))"
    let ?s1 = "if is_blocked t s then ?b else ?h"
    define s2 where "s2 = upd_thread t (\<lambda>th. th\<lparr>be_blocking := False\<rparr>) ?s1"
    have r: "?r = s2" using True m F
      by (simp add: wake_thread_locked_def s2_def Let_def hook_frameD managed_def)
    have ps: "policy_same ?h s2"
      by (cases "is_blocked t s"; simp add: s2_def; intro policy_same_step policy_same_refl)
    have pt: "pcpu_id (threads s t) = p" "t \<noteq> Idle p" using m by (simp_all add: managed_def)
    have core: "status (threads s2 u) = (if u = t \<and> is_blocked t s then THREAD_STS_RUNNABLE else status (threads s u))"
      "be_blocking (threads s2 u) = (u \<noteq> t \<and> be_blocking (threads s u))" "curr q s2 = curr q s"
      "ctl_pcpu_id (sched_ctls s2 q) = ctl_pcpu_id (sched_ctls s q)"
      "is_vcpu (threads s2 u) = is_vcpu (threads s u)" "pcpu_id (threads s2 u) = pcpu_id (threads s u)"
      "managed p u s2 = managed p u s" for u q
      using F by (auto simp: s2_def is_blocked_def hook_frameD curr_def managed_def make_reschedule_request_def Let_def)
    have el: "eligible p t s2" using m by (simp add: eligible_def core is_blocked_def)
    have B: "base_inv p s2"
      using I pt by (auto simp: pcpu_inv_def base_inv_def core is_running_def is_blocked_def)
    have "eligible p u s2" if "u \<in> set (rq p ?h)" for u
      using that H(3) el I by (auto simp: pcpu_inv_def queue_inv_def eligible_def core is_blocked_def)
    then have "pcpu_inv rq wfq p s2"
      using B H(2) T W rq_same [OF ps] wfq_same [OF ps] policy_same_timer_ok [OF ps]
      by (simp add: pcpu_inv_def queue_inv_def)
    moreover have "need_reschedule p s2" if "is_blocked t s"
      using that need_reschedule_after_request [of p] by (simp add: s2_def need_reschedule_def)
    ultimately show ?thesis using el r by simp
  qed
  then show "pcpu_inv rq wfq p ?r" "eligible p t ?r" "is_blocked t s \<Longrightarrow> need_reschedule p ?r" by blast+
qed

lemma gate_inv:
  assumes "pcpu_inv rq wfq p s"
  shows "pcpu_inv rq wfq p (upd_thread t (\<lambda>th. th\<lparr>freeze_epoch := e, deferred_wake := b\<rparr>) s)"
    and "pcpu_inv rq wfq p (upd_thread t (\<lambda>th. th\<lparr>deferred_wake := b\<rparr>) s)"
  by (rule pcpu_inv_quiet [OF assms]; simp add: curr_def)+

theorem wake_thread_inv:
  assumes "pcpu_inv rq wfq p s" and "managed p t s"
  shows "pcpu_inv rq wfq p (wake_thread sch t s)"
  using assms by (simp add: wake_thread_def wake_locked_inv gate_inv)

theorem freeze_thread_inv:
  assumes I: "pcpu_inv rq wfq p s" and m: "managed p t s"
  shows "pcpu_inv rq wfq p (snd (snd (freeze_thread sch (Some t) e s)))"
proof -
  let ?s = "upd_thread t (\<lambda>th. th\<lparr>freeze_epoch := e, deferred_wake := False\<rparr>) s"
  have "managed p t ?s" using m by (simp add: managed_def)
  note S = sleep_locked_inv(1) [OF gate_inv(1) [OF I] this] sleep_locked_inv(1) [OF I m]
  then show ?thesis using I by (simp add: freeze_thread_def Let_def split_def)
qed

theorem thaw_thread_inv:
  assumes I: "pcpu_inv rq wfq p s" and m: "managed p t s"
  shows "pcpu_inv rq wfq p (snd (thaw_thread sch (Some t) e w s))"
proof -
  have "managed p t (upd_thread t (\<lambda>th. th\<lparr>freeze_epoch := 0, deferred_wake := False\<rparr>) s)"
    using m by (simp add: managed_def)
  from wake_locked_inv(1) [OF gate_inv(1) [OF I] this] show ?thesis
    using I gate_inv(1) [OF I] by (simp add: thaw_thread_def Let_def)
qed

end

section \<open>Policies that lose no thread\<close>

text \<open>
  \<open>ready_inv\<close>: every thread that could run waits on a queue, except, in a policy that takes the
  running thread off its queue (\<open>res\<close> false), the running one. A policy whose hooks drop no thread
  keeps it through sleep, wake and every scheduling that asks the policy. When idle work makes
  \<open>schedule\<close> pass over the policy, it is kept by the policies that leave the running thread queued.
\<close>

definition ready_inv ::
  "bool \<Rightarrow> (nat \<Rightarrow> sched_sys \<Rightarrow> thread_ref list) \<Rightarrow> nat \<Rightarrow> sched_sys \<Rightarrow> bool" where
  "ready_inv res rq p s \<longleftrightarrow>
     (\<forall>t. eligible p t s \<and> (res \<or> \<not> is_running t s) \<longrightarrow> t \<in> set (rq p s))"

locale sched_policy_live = sched_policy +
  fixes res :: bool
  assumes pick_keeps: "\<lbrakk>base_inv p s; queue_inv (rq p s) p s; wfq p s; cur_pcpu s = p;
        hook_pick_next sch = Some pick; pick p s = (t, s');
        u \<in> set (rq p s) \<or> \<not> res \<and> curr p s = Some u; eligible p u s\<rbrakk>
      \<Longrightarrow> \<not> res \<and> u = t \<or> u \<in> set (rq p s')"
    and pick_some: "hook_pick_next sch \<noteq> None"
    and sleep_keeps: "\<lbrakk>base_inv p s; queue_inv (rq p s) p s; wfq p s; managed p t s;
        u \<in> set (rq p s); u \<noteq> t\<rbrakk> \<Longrightarrow> u \<in> set (rq p (call_hook (hook_sleep sch) t s))"
    and wake_keeps: "\<lbrakk>base_inv p s; queue_inv (rq p s) p s; wfq p s; managed p t s; t \<notin> set (rq p s);
        u \<in> set (rq p s) \<or> u = t\<rbrakk> \<Longrightarrow> u \<in> set (rq p (call_hook (hook_wake sch) t s))"
    and prioritize_keeps: "\<lbrakk>base_inv p s; queue_inv (rq p s) p s; wfq p s; eligible p t s;
        hook_prioritize sch = Some f; u \<in> set (rq p s)\<rbrakk> \<Longrightarrow> u \<in> set (rq p (f t s))"
begin

lemma sleep_ready:
  assumes I: "pcpu_inv rq wfq p s" and R: "ready_inv res rq p s" and m: "managed p t s"
  shows "ready_inv res rq p (sleep_thread sch t s)"
proof -
  let ?h = "call_hook (hook_sleep sch) t s" and ?r = "snd (sleep_thread_locked sch t s)"
  have F: "hook_frame s ?h" using I m sleep_ok [of p s t] by (auto simp: pcpu_inv_def hook_ok_def)
  have pt: "pcpu_id (threads s t) = p" using m by (simp add: managed_def)
  have ps: "policy_same ?h ?r"
    by (cases "is_running t ?h"; simp add: sleep_thread_locked_def Let_def; intro policy_same_step policy_same_refl)
  have other: "u \<noteq> t \<and> eligible p u s \<and> is_running u ?r = is_running u s" if "eligible p u ?r" for u
    using that F pt by (auto simp: sleep_thread_locked_def Let_def eligible_def managed_def is_blocked_def
        is_running_def hook_frameD split: if_splits)
  show ?thesis
    unfolding ready_inv_def sleep_thread_def rq_same [OF ps]
    using other R I m sleep_keeps [of p s t] by (auto simp: ready_inv_def pcpu_inv_def)
qed

lemma wake_ready:
  assumes I: "pcpu_inv rq wfq p s" and R: "ready_inv res rq p s" and m: "managed p t s"
  shows "ready_inv res rq p (wake_thread_locked sch t s)"
proof (cases "is_blocked t s \<or> be_blocking (threads s t)")
  case False
  then show ?thesis using R by (simp add: wake_thread_locked_def)
next
  case True
  let ?h = "call_hook (hook_wake sch) t s" and ?r = "wake_thread_locked sch t s"
  have nq: "t \<notin> set (rq p s)" using pcpu_inv_blocked_not_queued [OF I True] .
  have F: "hook_frame s ?h" using I m nq wake_ok [of p s t] by (auto simp: pcpu_inv_def hook_ok_def)
  have ps: "policy_same ?h ?r" using True
    by (cases "is_blocked t ?h"; simp add: wake_thread_locked_def Let_def; intro policy_same_step policy_same_refl)
  have other: "u = t \<or> eligible p u s \<and> is_running u ?r = is_running u s" if "eligible p u ?r" for u
    using that F True by (auto simp: wake_thread_locked_def Let_def eligible_def managed_def is_blocked_def
        is_running_def hook_frameD split: if_splits)
  show ?thesis
    unfolding ready_inv_def rq_same [OF ps]
    using other R I m nq wake_keeps [of p s t] by (auto simp: ready_inv_def pcpu_inv_def)
qed

lemma consume_keeps:
  assumes "pcpu_inv rq wfq p s" and "registry_inv p s" and u: "u \<in> set (rq p s)"
  shows "u \<in> set (rq p (consume_priority sch p s))"
proof -
  have step: "u \<in> set (rq p (consume_priority_one sch p t s))"
    if I: "pcpu_inv rq wfq p s" and u: "u \<in> set (rq p s)"
      and M: "pcpu_id (threads s t) = p \<and> priority_pending (threads s t) \<longrightarrow> managed p t s" for t s
  proof -
    let ?s = "upd_thread t (\<lambda>th. th\<lparr>priority_pending := False\<rparr>) s"
    have I': "pcpu_inv rq wfq p ?s" by (rule pcpu_inv_quiet [OF I]) (simp_all add: curr_def)
    have u': "u \<in> set (rq p ?s)" using u rq_same [OF policy_same_prims(4)] by simp
    have "eligible p t ?s" if "managed p t s" "is_runnable_or_running t ?s" "\<not> be_blocking (threads ?s t)"
      using that by (auto simp: eligible_def managed_def is_runnable_or_running_def is_blocked_def)
    then show ?thesis
      using u u' I' M prioritize_keeps [of p ?s t]
      by (auto simp: consume_priority_one_def Let_def pcpu_inv_def split: option.split)
  qed
  have "u \<in> set (rq p (fold (consume_priority_one sch p) ts s))"
    if "pcpu_inv rq wfq p s" and "u \<in> set (rq p s)"
      and "\<forall>t \<in> set ts. pcpu_id (threads s t) = p \<and> priority_pending (threads s t) \<longrightarrow> managed p t s" for ts s
    using that
  proof (induction ts arbitrary: s)
    case (Cons t ts)
    have M: "pcpu_id (threads s t) = p \<and> priority_pending (threads s t) \<longrightarrow> managed p t s"
      using Cons.prems(3) by simp
    note C = consume_one_inv [OF Cons.prems(1) M]
    have "\<forall>u \<in> set ts. pcpu_id (threads (consume_priority_one sch p t s) u) = p
        \<and> priority_pending (threads (consume_priority_one sch p t s) u)
        \<longrightarrow> managed p u (consume_priority_one sch p t s)"
      using Cons.prems(3) C(4,5,6) by auto
    from Cons.IH [OF C(1) step [OF Cons.prems(1,2) M] this] show ?case by simp
  qed simp
  moreover have "pcpu_inv rq wfq p (upd_ctl p (\<lambda>c. c\<lparr>ctl_priority_pending := False\<rparr>) s)"
    by (rule pcpu_inv_quiet [OF assms(1)]) (simp_all add: curr_def)
  moreover have "rq p (upd_ctl p (\<lambda>c. c\<lparr>ctl_priority_pending := False\<rparr>) s) = rq p s"
    by (rule rq_same) simp
  ultimately show ?thesis
    using u assms(2) by (auto simp: consume_priority_def Let_def registry_inv_def managed_def)
qed

theorem schedule_ready:
  assumes I: "pcpu_inv rq wfq p s" and R: "ready_inv res rq p s" and G: "registry_inv p s"
    and p: "cur_pcpu s = p" and W: "res \<or> \<not> sched_idle_work_pending_locked p s"
  shows "ready_inv res rq p (schedule_with sch s)"
proof -
  let ?s1 = "consume_priority sch p s"
  note C = consume_priority_inv [OF I G]
  obtain t s2 where ch': "choose_next sch p ?s1 = (t, s2)" by fastforce
  let ?s3 = "upd_ctl p (\<lambda>c. c\<lparr>flags := bitmap_clear NEED_RESCHEDULE (flags c)\<rparr>) s2"
  have p1: "cur_pcpu ?s1 = p" using C(3) p by simp
  note N = choose_next_inv [OF C(1) p1 ch']
  obtain c where c: "curr p s = Some c" "is_running c s" "pcpu_id (threads s c) = p"
    using I by (auto simp: pcpu_inv_def elim: base_inv_currE)
  have run1: "is_running u ?s1 = is_running u s" for u by (simp add: is_running_def C(5))
  have q: "\<not> res \<and> u = t \<or> u \<in> set (rq p s2)" if e: "eligible p u s" for u
  proof -
    have u: "u \<in> set (rq p s) \<or> \<not> res \<and> curr p s = Some u"
      using that R c I by (auto simp: ready_inv_def pcpu_inv_def base_inv_def eligible_def managed_def)
    then have u1: "u \<in> set (rq p ?s1) \<or> \<not> res \<and> curr p ?s1 = Some u"
      using consume_keeps [OF I G, of u] C(2) by auto
    show ?thesis
    proof (cases "sched_idle_work_pending_locked p s")
      case True
      then show ?thesis using W u1 ch' C(7) by (simp add: choose_next_def)
    next
      case False
      obtain pick where pick: "hook_pick_next sch = Some pick" using pick_some by blast
      then have "pick p ?s1 = (t, s2)" using False ch' C(7) by (simp add: choose_next_def)
      from pick_keeps [OF _ _ _ p1 pick this u1] show ?thesis
        using C(1,4) e by (auto simp: pcpu_inv_def)
    qed
  qed
  have el: "eligible p u s2 = eligible p u s" "curr p s2 = Some c" for u
    using N(2) C(2,4) c by (simp_all add: eligible_frame hook_frameD)
  have eq: "schedule_with sch s = (if c \<noteq> t then switch_threads p (Some c) t ?s3 else ?s3)"
    using p c ch' by (simp add: schedule_with_def Let_def)
  have S: "policy_same s2 (schedule_with sch s)"
    using switch_threads_core(6) [of "Some c" c t ?s3 p] policy_same_prims(8)
    by (auto simp: eq intro: policy_same_trans)
  have "(res \<or> u \<noteq> t) \<and> eligible p u s"
    if u: "eligible p u (schedule_with sch s)" "res \<or> \<not> is_running u (schedule_with sch s)" for u
  proof (cases "c = t")
    case True
    then have "is_running c (schedule_with sch s)" using c N(2) run1 by (simp add: eq is_running_def hook_frameD C(5))
    with u True show ?thesis
      using el by (auto simp: eq eligible_def managed_def is_blocked_def)
  next
    case False
    note K = switch_threads_core [OF refl False, where p = p and s = ?s3]
    have r: "res \<or> u \<noteq> t" using u(2) False by (auto simp: eq is_running_def K)
    have "managed p u (schedule_with sch s) = managed p u s2"
      using S by (simp add: managed_def policy_same_def)
    moreover have "is_running c s2" using c N(2) run1 by (simp add: is_running_def hook_frameD C(5))
    moreover have "u = t \<Longrightarrow> u \<noteq> Idle p \<Longrightarrow> eligible p u s2" using N(3) N(2) by (simp add: eligible_frame)
    ultimately have "eligible p u s2" using u False
      by (auto simp: eq eligible_def is_blocked_def is_running_def managed_def K split: if_splits)
    with r el(1) show ?thesis by simp
  qed
  then show ?thesis
    unfolding ready_inv_def rq_same [OF S] using q by blast
qed

end

end
