(* ===== verification/Sched_Noop.thy ===== *)
theory Sched_Noop
  imports Sched_Contract
begin

text \<open>
  \<open>core/sched/noop.c\<close>: a pCPU with one thread. The policy remembers the runnable thread, if any.
\<close>

definition sched_noop_init :: "nat \<Rightarrow> sched_sys \<Rightarrow> sched_sys" where
  "sched_noop_init p s = upd_ctl p (\<lambda>c. c\<lparr>priv := True\<rparr>) s"

definition sched_noop_pick_next :: "nat \<Rightarrow> sched_sys \<Rightarrow> thread_ref \<times> sched_sys" where
  "sched_noop_pick_next p s =
     (case noop_thread_obj s p of Some t \<Rightarrow> (t, s) | None \<Rightarrow> (idle_var s, s))"

definition sched_noop_sleep :: "thread_ref \<Rightarrow> sched_sys \<Rightarrow> sched_sys" where
  "sched_noop_sleep t =
     with_ctl t (\<lambda>p s. if noop_thread_obj s p = Some t
                       then s\<lparr>noop_thread_obj := (noop_thread_obj s)(p := None)\<rparr> else s)"

definition sched_noop_wake :: "thread_ref \<Rightarrow> sched_sys \<Rightarrow> sched_sys" where
  "sched_noop_wake t =
     with_ctl t (\<lambda>p s. if noop_thread_obj s p = None
                       then s\<lparr>noop_thread_obj := (noop_thread_obj s)(p := Some t)\<rparr> else s)"

definition sched_noop :: acrn_scheduler where
  "sched_noop = \<lparr>sched_name = ''sched_noop'', stat_desc = ''policy:single-runnable'',
     hook_init = Some sched_noop_init, hook_init_data = None,
     hook_pick_next = Some sched_noop_pick_next, hook_sleep = Some sched_noop_sleep,
     hook_wake = Some sched_noop_wake, hook_yield = None, hook_prioritize = None,
     hook_deinit_data = None, hook_deinit = None, hook_suspend = None, hook_resume = None\<rparr>"

definition noop_rq :: "nat \<Rightarrow> sched_sys \<Rightarrow> thread_ref list" where
  "noop_rq p s = (case noop_thread_obj s p of None \<Rightarrow> [] | Some t \<Rightarrow> [t])"

interpretation noop: sched_policy sched_noop noop_rq "\<lambda>p s. True"
proof unfold_locales
  fix p s pick t s'
  assume "queue_inv (noop_rq p s) p s" "cur_pcpu s = p" "hook_pick_next sched_noop = Some pick"
    "pick p s = (t, s')"
  then show "hook_ok (\<lambda>p s. True) p s s' \<and> queue_inv (noop_rq p s') p s \<and> (t = Idle p \<or> eligible p t s)"
    by (auto simp: sched_noop_def sched_noop_pick_next_def noop_rq_def hook_ok_def queue_inv_def
        idle_var_def split: option.splits)
qed (auto simp: noop_rq_def policy_same_def sched_noop_def call_hook_def sched_noop_sleep_def
    sched_noop_wake_def hook_ok_def managed_def queue_inv_def split: option.splits if_splits)

end
