(* ===== verification/Sched_Prio.thy ===== *)
theory Sched_Prio
  imports Sched_Contract
begin

text \<open>
  \<open>core/sched/prio.c\<close>: fixed priorities. The run queue holds the runnable threads, the running one
  included, by falling priority and in order of arrival within a priority.
\<close>

section \<open>Model\<close>

definition sched_prio_init :: "nat \<Rightarrow> sched_sys \<Rightarrow> sched_sys" where
  "sched_prio_init p s =
     (let s = assertion (ctl_pcpu_id (sched_ctls s p) = cur_pcpu s) ''init scheduler on wrong cpu!'' s;
          s = upd_ctl p (\<lambda>c. c\<lparr>priv := True\<rparr>) s
      in s\<lparr>prio_queue := (prio_queue s)(p := [])\<rparr>)"

definition sched_prio_init_data :: "thread_ref \<Rightarrow> sched_params \<Rightarrow> sched_sys \<Rightarrow> sched_sys" where
  "sched_prio_init_data t params s = upd_thread t (\<lambda>th. th\<lparr>prio_data := prio params\<rparr>) s"

definition sched_prio_pick_next :: "nat \<Rightarrow> sched_sys \<Rightarrow> thread_ref \<times> sched_sys" where
  "sched_prio_pick_next p s =
     (case prio_queue s p of t # _ \<Rightarrow> (t, s) | [] \<Rightarrow> (idle_var s, s))"

text \<open>\<open>iter_data->priority < data->priority\<close> compares two \<open>int\<close>s.\<close>

definition prio_less :: "sched_sys \<Rightarrow> thread_ref \<Rightarrow> thread_ref \<Rightarrow> bool" where
  "prio_less s x y \<longleftrightarrow> sint (prio_data (threads s x)) < sint (prio_data (threads s y))"

definition prio_queue_add :: "thread_ref \<Rightarrow> sched_sys \<Rightarrow> sched_sys" where
  "prio_queue_add t =
     with_ctl t (\<lambda>p s.
       let q = prio_queue s p;
           q' = (if q = [] then [t]
                 else if \<exists>x \<in> set q. prio_less s x t then insert_before (\<lambda>x. prio_less s x t) t q
                 else if t \<in> set q then q else q @ [t])
       in s\<lparr>prio_queue := (prio_queue s)(p := q')\<rparr>)"

definition prio_queue_remove :: "thread_ref \<Rightarrow> sched_sys \<Rightarrow> sched_sys" where
  "prio_queue_remove t s =
     (case sched_ctl (threads s t) of
        None \<Rightarrow> s
      | Some p \<Rightarrow> s\<lparr>prio_queue := (prio_queue s)(p := remove1 t (prio_queue s p))\<rparr>)"

definition sched_prio_sleep :: "thread_ref \<Rightarrow> sched_sys \<Rightarrow> sched_sys" where
  "sched_prio_sleep t s = prio_queue_remove t s"

definition sched_prio_wake :: "thread_ref \<Rightarrow> sched_sys \<Rightarrow> sched_sys" where
  "sched_prio_wake t s = prio_queue_add t s"

definition sched_prio :: acrn_scheduler where
  "sched_prio = \<lparr>sched_name = ''sched_prio'', stat_desc = ''policy:priority'',
     hook_init = Some sched_prio_init, hook_init_data = Some sched_prio_init_data,
     hook_pick_next = Some sched_prio_pick_next, hook_sleep = Some sched_prio_sleep,
     hook_wake = Some sched_prio_wake, hook_yield = None, hook_prioritize = None,
     hook_deinit_data = None, hook_deinit = None, hook_suspend = None, hook_resume = None\<rparr>"

section \<open>Correctness\<close>

definition prio_rq :: "nat \<Rightarrow> sched_sys \<Rightarrow> thread_ref list" where
  "prio_rq p s = prio_queue s p"

text \<open>The queue after an insertion, for a thread that is not queued.\<close>

lemma prio_queue_add_fresh:
  assumes "sched_ctl (threads s t) = Some p" and "t \<notin> set (prio_queue s p)"
  shows "prio_queue_add t s =
    s\<lparr>prio_queue := (prio_queue s)(p := insert_before (\<lambda>x. prio_less s x t) t (prio_queue s p))\<rparr>"
proof -
  have "insert_before P t q = q @ [t]" if "\<not> (\<exists>x \<in> set q. P x)" for P and q :: "thread_ref list"
    using that by (induction q) auto
  from this [of "prio_queue s p" "\<lambda>x. prio_less s x t"] assms show ?thesis
    by (auto simp: prio_queue_add_def Let_def)
qed

interpretation prio: sched_policy_live sched_prio prio_rq "\<lambda>p s. True" True
  by unfold_locales
    (auto simp: prio_rq_def policy_same_def sched_prio_def call_hook_def sched_prio_sleep_def
      prio_queue_remove_def sched_prio_wake_def prio_queue_add_fresh sched_prio_pick_next_def
      hook_ok_def managed_def queue_inv_def idle_var_def
      dest: set_remove1_subset [THEN subsetD] split: list.splits)

interpretation prio_order: queue_order "\<lambda>x y. prio_less s y x" for s
  by unfold_locales (auto simp: prio_less_def)

definition prio_sorted :: "nat \<Rightarrow> sched_sys \<Rightarrow> bool" where
  "prio_sorted p s \<longleftrightarrow> in_order (\<lambda>x y. prio_less s y x) (prio_queue s p)"

lemma prio_less_queue [simp]: "prio_less (s\<lparr>prio_queue := q\<rparr>) x y = prio_less s x y"
  by (simp add: prio_less_def)

lemma prio_sorted_wake:
  assumes "prio_sorted p s" and "sched_ctl (threads s t) = Some p" and "t \<notin> set (prio_queue s p)"
  shows "prio_sorted p (sched_prio_wake t s)"
  using assms(1) unfolding prio_sorted_def sched_prio_wake_def prio_queue_add_fresh [OF assms(2,3)]
  by (simp add: prio_order.order_insert)

lemma prio_sorted_sleep:
  "prio_sorted p s \<Longrightarrow> sched_ctl (threads s t) = Some p \<Longrightarrow> prio_sorted p (sched_prio_sleep t s)"
  by (simp add: prio_sorted_def sched_prio_sleep_def prio_queue_remove_def prio_order.order_remove)

lemma prio_pick_highest:
  assumes "prio_sorted p s" and "x \<in> set (prio_queue s p)"
  shows "\<exists>t. sched_prio_pick_next p s = (t, s) \<and> t \<in> set (prio_queue s p) \<and> \<not> prio_less s t x"
  using assms prio_order.order_hd [of s]
  by (cases "prio_queue s p") (auto simp: sched_prio_pick_next_def prio_sorted_def)

text \<open>A woken thread waits behind the threads of its own priority.\<close>

lemma prio_wake_position:
  assumes "prio_sorted p s" and "sched_ctl (threads s t) = Some p" and "t \<notin> set (prio_queue s p)"
  obtains front rear where "prio_queue s p = front @ rear"
    "prio_queue (sched_prio_wake t s) p = front @ t # rear"
    "\<forall>x \<in> set front. \<not> prio_less s x t" "\<forall>x \<in> set rear. prio_less s x t"
  using prio_order.order_position [of s "prio_queue s p" t] assms(1) that
  by (auto simp: prio_sorted_def sched_prio_wake_def prio_queue_add_fresh [OF assms(2,3)])

end
