(* ===== verification/Sched_Iorr.thy ===== *)
theory Sched_Iorr
  imports Sched_Contract
begin

text \<open>
  \<open>core/sched/iorr.c\<close>: round robin with a slice of 10 ms, woken threads first. \<open>left_cycles\<close> is an
  \<open>int64_t\<close>. The loop that tops up the slice of the next thread ends only if the slice is positive;
  where it does not, the pCPU stops in it.
\<close>

section \<open>Model\<close>

definition CONFIG_SLICE_MS :: u64 where "CONFIG_SLICE_MS = 10"

definition upd_iorr :: "thread_ref \<Rightarrow> (sched_iorr_data \<Rightarrow> sched_iorr_data) \<Rightarrow> sched_sys \<Rightarrow> sched_sys" where
  "upd_iorr t f s = upd_thread t (\<lambda>th. th\<lparr>iorr_data := f (iorr_data th)\<rparr>) s"

definition iorr_is_inqueue :: "thread_ref \<Rightarrow> sched_sys \<Rightarrow> bool" where
  "iorr_is_inqueue t s =
     (case sched_ctl (threads s t) of None \<Rightarrow> False | Some p \<Rightarrow> t \<in> set (iorr_runqueue s p))"

definition runqueue_add_head :: "thread_ref \<Rightarrow> sched_sys \<Rightarrow> sched_sys" where
  "runqueue_add_head t =
     with_ctl t (\<lambda>p s. if iorr_is_inqueue t s then s
                       else s\<lparr>iorr_runqueue := (iorr_runqueue s)(p := t # iorr_runqueue s p)\<rparr>)"

definition runqueue_add_tail :: "thread_ref \<Rightarrow> sched_sys \<Rightarrow> sched_sys" where
  "runqueue_add_tail t =
     with_ctl t (\<lambda>p s. if iorr_is_inqueue t s then s
                       else s\<lparr>iorr_runqueue := (iorr_runqueue s)(p := iorr_runqueue s p @ [t])\<rparr>)"

definition runqueue_remove :: "thread_ref \<Rightarrow> sched_sys \<Rightarrow> sched_sys" where
  "runqueue_remove t s =
     (case sched_ctl (threads s t) of
        None \<Rightarrow> s
      | Some p \<Rightarrow> s\<lparr>iorr_runqueue := (iorr_runqueue s)(p := remove1 t (iorr_runqueue s p))\<rparr>)"

definition iorr_consume :: "u64 \<Rightarrow> sched_iorr_data \<Rightarrow> sched_iorr_data" where
  "iorr_consume now d = d\<lparr>iorr_left_cycles := iorr_left_cycles d - (now - iorr_last_cycles d)\<rparr>"

definition iorr_sched_tick_handler :: "nat \<Rightarrow> sched_sys \<Rightarrow> sched_sys" where
  "iorr_sched_tick_handler c s =
     (let p = cur_pcpu s;
          now = cpu_ticks s;
          s = tick_read s;
          s = sched_account_tick c s
      in case curr c s of
           None \<Rightarrow> s
         | Some t \<Rightarrow>
             if is_idle_thread t s \<and> iorr_runqueue s c = [] then s
             else
               let s = (if is_idle_thread t s then s
                        else upd_iorr t (\<lambda>d. (iorr_consume now d)\<lparr>iorr_last_cycles := now\<rparr>) s)
               in if is_idle_thread t s \<or> sint (iorr_left_cycles (iorr_data (threads s t))) \<le> 0
                  then make_reschedule_request p s else s)"

definition sched_iorr_add_timer :: "nat \<Rightarrow> sched_sys \<Rightarrow> int \<times> sched_sys" where
  "sched_iorr_add_timer c s =
     (let tick_period = TICKS_PER_MS s;
          tm = IorrTick (ctl_pcpu_id (sched_ctls s c));
          now = cpu_ticks s;
          s = tick_read s;
          s = initialize_timer (Some tm) (Some Iorr_sched_tick_handler) c (now + tick_period) tick_period s;
          (r, s) = add_timer (Some tm) s
      in (if r < 0 then - 1 else 0, s))"

definition sched_iorr_del_timer :: "nat \<Rightarrow> sched_sys \<Rightarrow> sched_sys" where
  "sched_iorr_del_timer c s = del_timer (Some (IorrTick c)) s"

definition sched_iorr_init :: "nat \<Rightarrow> sched_sys \<Rightarrow> sched_sys" where
  "sched_iorr_init c s =
     (let s = assertion (cur_pcpu s = ctl_pcpu_id (sched_ctls s c)) ''init scheduler on wrong cpu!'' s;
          s = upd_ctl c (\<lambda>ct. ct\<lparr>priv := True\<rparr>) s;
          s = s\<lparr>iorr_runqueue := (iorr_runqueue s)(c := [])\<rparr>
      in snd (sched_iorr_add_timer c s))"

definition sched_iorr_deinit :: "nat \<Rightarrow> sched_sys \<Rightarrow> sched_sys" where
  "sched_iorr_deinit c s = sched_iorr_del_timer c s"

definition sched_iorr_suspend :: "nat \<Rightarrow> sched_sys \<Rightarrow> sched_sys" where
  "sched_iorr_suspend c s = sched_iorr_del_timer c s"

definition sched_iorr_resume :: "nat \<Rightarrow> sched_sys \<Rightarrow> sched_sys" where
  "sched_iorr_resume c s = snd (sched_iorr_add_timer c s)"

definition sched_iorr_init_data :: "thread_ref \<Rightarrow> sched_params \<Rightarrow> sched_sys \<Rightarrow> sched_sys" where
  "sched_iorr_init_data t params s =
     (let slc = CONFIG_SLICE_MS * TICKS_PER_MS s
      in upd_iorr t (\<lambda>d. d\<lparr>iorr_slice_cycles := slc, iorr_left_cycles := slc\<rparr>) s)"

text \<open>\<open>while (data->left_cycles <= 0) data->left_cycles += data->slice_cycles;\<close>\<close>

partial_function (option) iorr_replenish :: "s64 \<Rightarrow> u64 \<Rightarrow> s64 option" where
  "iorr_replenish left slc =
     (if sint left \<le> 0 then iorr_replenish (left + slc) slc else Some left)"

declare iorr_replenish.simps [code]

definition iorr_charge_current :: "thread_ref \<Rightarrow> u64 \<Rightarrow> sched_sys \<Rightarrow> sched_sys" where
  "iorr_charge_current t now s =
     (if \<not> is_idle_thread t s \<and> iorr_is_inqueue t s then
        let s = upd_iorr t (iorr_consume now) s;
            s = upd_iorr t (\<lambda>d. if sint (iorr_left_cycles d) \<le> 0
                  then d\<lparr>iorr_left_cycles := iorr_left_cycles d + iorr_slice_cycles d\<rparr> else d) s
        in runqueue_add_tail t (runqueue_remove t s)
      else s)"

definition sched_iorr_pick_next :: "nat \<Rightarrow> sched_sys \<Rightarrow> thread_ref \<times> sched_sys" where
  "sched_iorr_pick_next c s =
     (let now = cpu_ticks s;
          s = tick_read s
      in case curr c s of
           None \<Rightarrow> (idle_var s, if fault s = None then s\<lparr>fault := Some NullDeref\<rparr> else s)
         | Some t \<Rightarrow>
             let s = iorr_charge_current t now s
             in case iorr_runqueue s c of
                  [] \<Rightarrow> (idle_var s, s)
                | next # _ \<Rightarrow>
                    let s = upd_iorr next (\<lambda>d. d\<lparr>iorr_last_cycles := now\<rparr>) s;
                        d = iorr_data (threads s next)
                    in (case iorr_replenish (iorr_left_cycles d) (iorr_slice_cycles d) of
                          None \<Rightarrow> (next, if fault s = None then s\<lparr>fault := Some Diverges\<rparr> else s)
                        | Some left \<Rightarrow> (next, upd_iorr next (\<lambda>d. d\<lparr>iorr_left_cycles := left\<rparr>) s)))"

definition sched_iorr_sleep :: "thread_ref \<Rightarrow> sched_sys \<Rightarrow> sched_sys" where
  "sched_iorr_sleep t s = runqueue_remove t s"

definition sched_iorr_wake :: "thread_ref \<Rightarrow> sched_sys \<Rightarrow> sched_sys" where
  "sched_iorr_wake t s = runqueue_add_head t s"

definition sched_iorr :: acrn_scheduler where
  "sched_iorr = \<lparr>sched_name = ''sched_iorr'', stat_desc = ''tick:1ms slice:10ms'',
     hook_init = Some sched_iorr_init, hook_init_data = Some sched_iorr_init_data,
     hook_pick_next = Some sched_iorr_pick_next, hook_sleep = Some sched_iorr_sleep,
     hook_wake = Some sched_iorr_wake, hook_yield = None, hook_prioritize = None,
     hook_deinit_data = None, hook_deinit = Some sched_iorr_deinit,
     hook_suspend = Some sched_iorr_suspend, hook_resume = Some sched_iorr_resume\<rparr>"

section \<open>The contract\<close>

lemma hook_frame_upd_iorr [simp, intro]: "hook_frame s (upd_iorr t f s)"
  by (auto simp: upd_iorr_def intro!: hook_frame_upd_thread)

lemma upd_iorr_simps [simp]:
  "iorr_runqueue (upd_iorr t f s) = iorr_runqueue s" "timer_ok (upd_iorr t f s) = timer_ok s"
  "sched_ctl (threads (upd_iorr t f s) u) = sched_ctl (threads s u)"
  "pcpu_id (threads (upd_iorr t f s) u) = pcpu_id (threads s u)" "cur_pcpu (upd_iorr t f s) = cur_pcpu s"
  "is_idle_thread u (upd_iorr t f s) = is_idle_thread u s" "fault (upd_iorr t f s) = fault s"
  "khz (upd_iorr t f s) = khz s" "curr q (upd_iorr t f s) = curr q s"
  by (simp_all add: upd_iorr_def is_idle_thread_def curr_def)

definition iorr_rq :: "nat \<Rightarrow> sched_sys \<Rightarrow> thread_ref list" where
  "iorr_rq p s = iorr_runqueue s p"

lemma runqueue_frames [simp, intro]:
  "hook_frame s (runqueue_remove t s)" "hook_frame s (runqueue_add_tail t s)"
  "hook_frame s (runqueue_add_head t s)"
  "timer_ok (runqueue_remove t s) = timer_ok s" "timer_ok s \<Longrightarrow> timer_ok (runqueue_add_tail t s)"
  "timer_ok s \<Longrightarrow> timer_ok (runqueue_add_head t s)"
  by (auto simp: runqueue_remove_def runqueue_add_tail_def runqueue_add_head_def
      intro!: hook_frame_with_ctl timer_ok_with_ctl split: option.split)

lemmas iorr_steps =
  hook_frame_steps runqueue_frames(1-3) [THEN hook_frame_trans [rotated]]
  hook_frame_upd_iorr [THEN hook_frame_trans [rotated]]

lemma iorr_charge_frame [simp, intro]:
  "hook_frame s (iorr_charge_current t now s)"
  "timer_ok s \<Longrightarrow> timer_ok (iorr_charge_current t now s)"
  unfolding iorr_charge_current_def Let_def
  by (intro hook_frame_if iorr_steps hook_frame_refl) simp

text \<open>The current thread goes to the tail; the others keep their order.\<close>

lemma iorr_charge_current_queue:
  assumes "t = Idle p \<or> managed p t s" and "pcpu_id (threads s (Idle p)) = p" and "distinct (iorr_runqueue s p)"
  shows "iorr_runqueue (iorr_charge_current t now s) p =
      (if t \<in> set (iorr_runqueue s p) \<and> t \<noteq> Idle p
       then remove1 t (iorr_runqueue s p) @ [t] else iorr_runqueue s p)"
  using assms
  by (auto simp: iorr_charge_current_def Let_def iorr_is_inqueue_def is_idle_thread_def managed_def
      runqueue_remove_def runqueue_add_tail_def)

lemma iorr_pick_cases:
  assumes "curr p s = Some t" and "sched_iorr_pick_next p s = (r, s')"
  shows "iorr_runqueue s' = iorr_runqueue (iorr_charge_current t (cpu_ticks s) (tick_read s))"
    and "r = (case iorr_runqueue s' p of [] \<Rightarrow> idle_var s | x # _ \<Rightarrow> x)"
    and "hook_frame s s'" and "timer_ok s \<Longrightarrow> timer_ok s'"
proof -
  let ?s = "iorr_charge_current t (cpu_ticks s) (tick_read s)"
  have c: "curr p (tick_read s) = Some t" using assms(1) by (simp add: curr_def)
  have F: "hook_frame s ?s" by (rule hook_frame_trans [OF hook_frame_timer_ops(1) iorr_charge_frame(1)])
  have id: "idle_var ?s = idle_var s" using F by (simp add: idle_var_def hook_frameD)
  consider "iorr_runqueue ?s p = []" "r = idle_var s" "s' = ?s"
    | x xs l where "iorr_runqueue ?s p = x # xs" "r = x"
        "s' = upd_iorr x l (upd_iorr x (\<lambda>d. d\<lparr>iorr_last_cycles := cpu_ticks s\<rparr>) ?s)"
    | x xs where "iorr_runqueue ?s p = x # xs" "r = x"
        "s' = (let s2 = upd_iorr x (\<lambda>d. d\<lparr>iorr_last_cycles := cpu_ticks s\<rparr>) ?s
               in if fault s2 = None then s2\<lparr>fault := Some Diverges\<rparr> else s2)"
    using assms(2) c id
    by (auto simp: sched_iorr_pick_next_def Let_def split: list.splits option.splits)
  then have "iorr_runqueue s' = iorr_runqueue ?s
      \<and> r = (case iorr_runqueue s' p of [] \<Rightarrow> idle_var s | x # _ \<Rightarrow> x)
      \<and> hook_frame ?s s' \<and> (timer_ok ?s \<longrightarrow> timer_ok s')"
  proof cases
    case 2
    then show ?thesis by (auto intro!: iorr_steps)
  next
    case 3
    then show ?thesis
      by (auto simp: Let_def timer_ok_def intro!: hook_frame_trans [OF hook_frame_upd_iorr hook_frame_fault])
        (auto simp: hook_frame_def upd_iorr_def)
  qed simp
  then show "iorr_runqueue s' = iorr_runqueue ?s"
    "r = (case iorr_runqueue s' p of [] \<Rightarrow> idle_var s | x # _ \<Rightarrow> x)"
    "hook_frame s s'" "timer_ok s \<Longrightarrow> timer_ok s'"
    using F by (auto intro: hook_frame_trans)
qed

interpretation iorr: sched_policy_live sched_iorr iorr_rq "\<lambda>p s. True" True
proof unfold_locales
  fix p s pick t s'
  assume B: "base_inv p s" and Q: "queue_inv (iorr_rq p s) p s" and p: "cur_pcpu s = p"
    and h: "hook_pick_next sched_iorr = Some pick" "pick p s = (t, s')"
  obtain c where c: "curr p s = Some c" "c = Idle p \<or> managed p c s"
    using B by (blast elim: base_inv_currE)
  have pk: "sched_iorr_pick_next p s = (t, s')" using h by (simp add: sched_iorr_def)
  note R = iorr_pick_cases [OF c(1) pk]
  have dist: "distinct (iorr_runqueue (tick_read s) p)" using Q by (simp add: queue_inv_def iorr_rq_def)
  have "iorr_runqueue s' p = (if c \<in> set (iorr_runqueue s p) \<and> c \<noteq> Idle p
      then remove1 c (iorr_runqueue s p) @ [c] else iorr_runqueue s p)"
    using iorr_charge_current_queue [of c p "tick_read s"] c B dist
    by (simp add: R(1) base_inv_def managed_def)
  then have S: "set (iorr_runqueue s' p) = set (iorr_runqueue s p)" "distinct (iorr_runqueue s' p)"
    using dist by (auto simp: set_remove1_eq)
  then have Q': "queue_inv (iorr_rq p s') p s" using Q by (simp add: queue_inv_def iorr_rq_def)
  show "hook_ok (\<lambda>p s. True) p s s' \<and> queue_inv (iorr_rq p s') p s \<and> (t = Idle p \<or> eligible p t s)"
    using R Q' p by (auto simp: hook_ok_def queue_inv_def iorr_rq_def idle_var_def split: list.splits)
  show "\<not> True \<and> u = t \<or> u \<in> set (iorr_rq p s')" if "u \<in> set (iorr_rq p s) \<or> \<not> True \<and> curr p s = Some u" for u
    using that S by (simp add: iorr_rq_def)
qed (auto simp: iorr_rq_def policy_same_def sched_iorr_def call_hook_def sched_iorr_sleep_def
    sched_iorr_wake_def runqueue_remove_def runqueue_add_head_def iorr_is_inqueue_def
    hook_ok_def managed_def queue_inv_def dest: set_remove1_subset [THEN subsetD])

section \<open>The slice\<close>

lemma sint_add_nowrap:
  fixes a b :: s64
  assumes "sint a \<le> 0" and "0 < sint b"
  shows "sint (a + b) = sint a + sint b"
proof -
  have "- (2 ^ 63) \<le> sint a" "sint b < 2 ^ 63"
    using sint_ge [of a] sint_lt [of b] by simp_all
  then show ?thesis
    using assms by (simp add: signed_word_eqI sint_word_ariths signed_take_bit_int_eq_self)
qed

text \<open>
  With a positive slice the loop ends; what it yields is between one cycle and a full slice, and a
  whole number of slices was added.
\<close>

lemma iorr_replenish_ends:
  assumes "0 < sint slc"
  shows "\<exists>y. iorr_replenish left slc = Some y \<and> 0 < sint y
    \<and> (sint left \<le> 0 \<longrightarrow> sint y \<le> sint slc \<and> (sint y - sint left) mod sint slc = 0)
    \<and> (0 < sint left \<longrightarrow> y = left)"
proof (induction "nat (- sint left)" arbitrary: left rule: less_induct)
  case less
  show ?case
  proof (cases "sint left \<le> 0")
    case True
    have eq: "sint (left + slc) = sint left + sint slc" using True assms by (rule sint_add_nowrap)
    have rep: "iorr_replenish left slc = iorr_replenish (left + slc) slc"
      using True by (subst iorr_replenish.simps) simp
    show ?thesis
    proof (cases "sint left + sint slc \<le> 0")
      case True
      then have "nat (- sint (left + slc)) < nat (- sint left)" using eq assms by simp
      from less [OF this] obtain y where y: "iorr_replenish (left + slc) slc = Some y" "0 < sint y"
        "sint y \<le> sint slc" "(sint y - sint (left + slc)) mod sint slc = 0" using True eq by auto
      have "(sint y - sint left) mod sint slc = (sint y - sint (left + slc) + sint slc) mod sint slc"
        by (simp add: eq)
      with y rep \<open>sint left \<le> 0\<close> show ?thesis by simp
    next
      case False
      then have "iorr_replenish (left + slc) slc = Some (left + slc)"
        by (subst iorr_replenish.simps) (simp add: eq)
      with rep False eq \<open>sint left \<le> 0\<close> show ?thesis by simp
    qed
  next
    case False
    then show ?thesis by (subst iorr_replenish.simps) simp
  qed
qed

section \<open>Properties\<close>

text \<open>
  With a positive slice the loop that tops up the cycles of the next thread ends, however
  far the thread has overrun: it is left with at least one cycle and at most one slice.
\<close>

theorem iorr_replenish_total:
  assumes "0 < sint slc" and "sint left \<le> 0"
  shows "\<exists>y. iorr_replenish left slc = Some y \<and> 0 < sint y \<and> sint y \<le> sint slc
    \<and> (sint y - sint left) mod sint slc = 0"
  using iorr_replenish_ends [OF assms(1), of left] assms(2) by auto

end
