(* ===== verification/Sched_Bvt.thy ===== *)
theory Sched_Bvt
  imports Sched_Contract
begin

text \<open>
  \<open>core/sched/bvt.c\<close>: borrowed virtual time. A thread's virtual time \<open>avt\<close> grows with the time it
  runs, faster for a small weight; the run queue is ordered by \<open>evt\<close>, which is \<open>avt\<close> minus a
  bounded credit while the thread is warped. \<open>avt\<close>, \<open>evt\<close> and \<open>svt\<close> are \<open>int64_t\<close>.
\<close>

section \<open>Model\<close>

definition BVT_MCU_MS :: u64 where "BVT_MCU_MS = 1"
definition BVT_CSA_MCU :: u64 where "BVT_CSA_MCU = 3"
definition BVT_WEIGHT_MIN :: u8 where "BVT_WEIGHT_MIN = 1"
definition BVT_WEIGHT_MAX :: u8 where "BVT_WEIGHT_MAX = 128"
definition BVT_VT_RATIO_MAX :: u64 where "BVT_VT_RATIO_MAX = 1024"
definition BVT_WARP_LIMIT_DEFAULT :: u32 where "BVT_WARP_LIMIT_DEFAULT = 1"

abbreviation bvt :: "thread_ref \<Rightarrow> sched_sys \<Rightarrow> sched_bvt_data" where
  "bvt t s \<equiv> bvt_data (threads s t)"

definition upd_bvt :: "thread_ref \<Rightarrow> (sched_bvt_data \<Rightarrow> sched_bvt_data) \<Rightarrow> sched_sys \<Rightarrow> sched_sys" where
  "upd_bvt t f s = upd_thread t (\<lambda>th. th\<lparr>bvt_data := f (bvt_data th)\<rparr>) s"

definition set_bvt_runqueue :: "nat \<Rightarrow> thread_ref list \<Rightarrow> sched_sys \<Rightarrow> sched_sys" where
  "set_bvt_runqueue p q s = s\<lparr>bvt_ctl := (bvt_ctl s)(p := (bvt_ctl s p)\<lparr>bvt_runqueue := q\<rparr>)\<rparr>"

definition bvt_is_inqueue :: "thread_ref \<Rightarrow> sched_sys \<Rightarrow> bool" where
  "bvt_is_inqueue t s =
     (case sched_ctl (threads s t) of None \<Rightarrow> False | Some p \<Rightarrow> t \<in> set (bvt_runqueue (bvt_ctl s p)))"

definition update_evt :: "sched_bvt_data \<Rightarrow> sched_bvt_data" where
  "update_evt d = d\<lparr>evt := (if warp_on d then avt d - scast (warp_value d) else avt d)\<rparr>"

definition bvt_can_warp :: "sched_bvt_data \<Rightarrow> u64 \<Rightarrow> bool" where
  "bvt_can_warp d now_tsc =
     (if 0 < sint (warp_value d) \<and> unwarp_period d \<noteq> 0 \<and> last_unwarp_tsc d \<noteq> 0
      then now_tsc - last_unwarp_tsc d \<ge> ucast (unwarp_period d) * mcu d
      else 0 < sint (warp_value d))"

text \<open>\<open>iter_data->evt > data->evt\<close>\<close>

definition evt_less :: "sched_sys \<Rightarrow> thread_ref \<Rightarrow> thread_ref \<Rightarrow> bool" where
  "evt_less s x y \<longleftrightarrow> sint (evt (bvt x s)) < sint (evt (bvt y s))"

definition bvt_runqueue_add :: "thread_ref \<Rightarrow> sched_sys \<Rightarrow> sched_sys" where
  "bvt_runqueue_add t =
     with_ctl t (\<lambda>p s.
       let q = bvt_runqueue (bvt_ctl s p)
       in if q = [] then set_bvt_runqueue p [t] s
          else if \<exists>x \<in> set q. evt_less s t x
               then set_bvt_runqueue p (insert_before (\<lambda>x. evt_less s t x) t q) s
          else if t \<in> set q then s
          else set_bvt_runqueue p (q @ [t]) s)"

definition bvt_runqueue_remove :: "thread_ref \<Rightarrow> sched_sys \<Rightarrow> sched_sys" where
  "bvt_runqueue_remove t s =
     (case sched_ctl (threads s t) of
        None \<Rightarrow> s
      | Some p \<Rightarrow> set_bvt_runqueue p (remove1 t (bvt_runqueue (bvt_ctl s p))) s)"

definition bvt_requeue :: "thread_ref \<Rightarrow> sched_sys \<Rightarrow> sched_sys" where
  "bvt_requeue t s =
     (if bvt_is_inqueue t s then bvt_runqueue_add t (bvt_runqueue_remove t s) else s)"

definition bvt_start_warp :: "thread_ref \<Rightarrow> sched_sys \<Rightarrow> sched_sys" where
  "bvt_start_warp t s =
     (if warp_on (bvt t s) then s
      else
        let now = cpu_ticks s;
            s = tick_read s
        in if bvt_can_warp (bvt t s) now then
             let s = upd_bvt t (\<lambda>d. update_evt (d\<lparr>warp_on := True,
                       warp_left := (if warp_limit d \<noteq> 0 then warp_limit d else BVT_WARP_LIMIT_DEFAULT)\<rparr>)) s
             in bvt_requeue t s
           else s)"

definition bvt_update_warp_after_charge :: "u64 \<Rightarrow> u64 \<Rightarrow> sched_bvt_data \<Rightarrow> sched_bvt_data" where
  "bvt_update_warp_after_charge charged_mcu now_tsc d =
     (if \<not> warp_on d \<or> charged_mcu = 0 then d
      else if charged_mcu \<ge> ucast (warp_left d)
           then d\<lparr>warp_on := False, warp_left := 0, last_unwarp_tsc := now_tsc\<rparr>
      else d\<lparr>warp_left := warp_left d - ucast charged_mcu\<rparr>)"

definition update_svt :: "nat \<Rightarrow> sched_sys \<Rightarrow> sched_sys" where
  "update_svt p s =
     (case bvt_runqueue (bvt_ctl s p) of
        [] \<Rightarrow> s
      | t # _ \<Rightarrow> s\<lparr>bvt_ctl := (bvt_ctl s)(p := (bvt_ctl s p)\<lparr>svt := avt (bvt t s)\<rparr>)\<rparr>)"

definition bvt_sched_tick_handler :: "nat \<Rightarrow> sched_sys \<Rightarrow> sched_sys" where
  "bvt_sched_tick_handler c s =
     (let p = cur_pcpu s;
          s = sched_account_tick c s
      in case curr c s of
           None \<Rightarrow> s
         | Some t \<Rightarrow>
             if \<not> is_idle_thread t s then make_reschedule_request p s
             else if bvt_runqueue (bvt_ctl s c) \<noteq> [] then make_reschedule_request p s
             else s)"

definition sched_bvt_init :: "nat \<Rightarrow> sched_sys \<Rightarrow> sched_sys" where
  "sched_bvt_init c s =
     (let s = assertion (ctl_pcpu_id (sched_ctls s c) = cur_pcpu s) ''init scheduler on wrong cpu!'' s;
          s = upd_ctl c (\<lambda>ct. ct\<lparr>priv := True\<rparr>) s;
          s = set_bvt_runqueue c [] s
      in initialize_timer (Some (BvtTick c)) (Some Bvt_sched_tick_handler) c 0 0 s)"

definition sched_bvt_deinit :: "nat \<Rightarrow> sched_sys \<Rightarrow> sched_sys" where
  "sched_bvt_deinit c s = del_timer (Some (BvtTick c)) s"

definition sched_bvt_init_data :: "thread_ref \<Rightarrow> sched_params \<Rightarrow> sched_sys \<Rightarrow> sched_sys" where
  "sched_bvt_init_data t params s =
     (let w = max BVT_WEIGHT_MIN (min (bvt_weight params) BVT_WEIGHT_MAX)
      in upd_bvt t (\<lambda>d. d\<lparr>mcu := BVT_MCU_MS * TICKS_PER_MS s, weight := w,
             warp_value := bvt_warp_value params, warp_limit := bvt_warp_limit params,
             unwarp_period := bvt_unwarp_period params, warp_on := False, warp_left := 0,
             last_unwarp_tsc := 0, vt_ratio := BVT_VT_RATIO_MAX div ucast w, residual := 0\<rparr>) s)"

definition sched_bvt_suspend :: "nat \<Rightarrow> sched_sys \<Rightarrow> sched_sys" where
  "sched_bvt_suspend c s = sched_bvt_deinit c s"

definition v2p :: "u64 \<Rightarrow> u64 \<Rightarrow> u64" where
  "v2p virt_time ratio = virt_time div ratio"

definition p2v :: "u64 \<Rightarrow> u64 \<Rightarrow> u64" where
  "p2v phy_time ratio = phy_time * ratio"

text \<open>The charge for the time since \<open>start_tsc\<close>, in units of \<open>mcu\<close>.\<close>

definition bvt_charge :: "u64 \<Rightarrow> sched_bvt_data \<Rightarrow> sched_bvt_data" where
  "bvt_charge now_tsc d =
     (let v_delta = p2v (now_tsc - start_tsc d) (vt_ratio d) + residual d;
          delta_mcu = (if now_tsc > start_tsc d then v_delta div mcu d else 0);
          d = (if now_tsc > start_tsc d then d\<lparr>residual := v_delta mod mcu d\<rparr> else d);
          d = d\<lparr>avt := avt d + delta_mcu\<rparr>
      in update_evt (bvt_update_warp_after_charge delta_mcu now_tsc d))"

definition update_vt :: "thread_ref \<Rightarrow> sched_sys \<Rightarrow> sched_sys" where
  "update_vt t s =
     (let now_tsc = cpu_ticks s;
          s = tick_read s;
          s = upd_bvt t (bvt_charge now_tsc) s
      in bvt_requeue t s)"

definition bvt_program_timer :: "nat \<Rightarrow> thread_ref \<Rightarrow> thread_ref list \<Rightarrow> sched_sys \<Rightarrow> sched_sys" where
  "bvt_program_timer c first others s =
     (case others of
        [] \<Rightarrow> s
      | sec # _ \<Rightarrow>
          let delta_mcu = evt (bvt sec s) - evt (bvt first s);
              run_countdown = v2p delta_mcu (vt_ratio (bvt first s)) + BVT_CSA_MCU;
              tick_period = BVT_MCU_MS * TICKS_PER_MS s
          in if run_countdown \<noteq> UINT64_MAX then
               let now = cpu_ticks s;
                   s = tick_read s;
                   s = update_timer (Some (BvtTick c)) (now + run_countdown * tick_period) 0 s
               in snd (add_timer (Some (BvtTick c)) s)
             else s)"

definition sched_bvt_pick_next :: "nat \<Rightarrow> sched_sys \<Rightarrow> thread_ref \<times> sched_sys" where
  "sched_bvt_pick_next c s =
     (let now_tsc = cpu_ticks s;
          s = tick_read s
      in case curr c s of
           None \<Rightarrow> (idle_var s, if fault s = None then s\<lparr>fault := Some NullDeref\<rparr> else s)
         | Some t \<Rightarrow>
             let s = (if is_idle_thread t s then s else update_vt t s);
                 s = update_svt c s;
                 s = del_timer (Some (BvtTick c)) s
             in case bvt_runqueue (bvt_ctl s c) of
                  [] \<Rightarrow> (idle_var s, s)
                | first # others \<Rightarrow>
                    (first, bvt_program_timer c first others
                              (upd_bvt first (\<lambda>d. d\<lparr>start_tsc := now_tsc\<rparr>) s)))"

definition sched_bvt_sleep :: "thread_ref \<Rightarrow> sched_sys \<Rightarrow> sched_sys" where
  "sched_bvt_sleep t s = bvt_runqueue_remove t s"

definition sched_bvt_wake :: "thread_ref \<Rightarrow> sched_sys \<Rightarrow> sched_sys" where
  "sched_bvt_wake t =
     with_ctl t (\<lambda>p s.
       let sv = svt (bvt_ctl s p);
           threshold = sv - BVT_CSA_MCU;
           s = upd_bvt t (\<lambda>d. d\<lparr>avt := (if sint (avt d) > sint threshold then avt d else sv)\<rparr>) s;
           s = bvt_start_warp t s;
           s = upd_bvt t update_evt s
       in bvt_runqueue_add t s)"

definition sched_bvt_prioritize :: "thread_ref \<Rightarrow> sched_sys \<Rightarrow> sched_sys" where
  "sched_bvt_prioritize t s = bvt_start_warp t s"

definition sched_bvt :: acrn_scheduler where
  "sched_bvt = \<lparr>sched_name = ''sched_bvt'', stat_desc = ''mcu:1ms csa:3 weight:1-128 warp:on-event'',
     hook_init = Some sched_bvt_init, hook_init_data = Some sched_bvt_init_data,
     hook_pick_next = Some sched_bvt_pick_next, hook_sleep = Some sched_bvt_sleep,
     hook_wake = Some sched_bvt_wake, hook_yield = None, hook_prioritize = Some sched_bvt_prioritize,
     hook_deinit_data = None, hook_deinit = Some sched_bvt_deinit,
     hook_suspend = Some sched_bvt_suspend, hook_resume = None\<rparr>"

record sched_bvt_stats =
  st_weight :: u8
  st_vt_ratio :: u64
  st_avt :: s64
  st_evt :: s64
  st_warp_value :: s32
  st_warp_left :: u32
  st_cooldown_left_ticks :: u64

definition sched_bvt_snapshot :: "thread_ref \<Rightarrow> sched_sys \<Rightarrow> sched_bvt_stats \<times> sched_sys" where
  "sched_bvt_snapshot t s =
     (let d = bvt t s;
          now_tsc = cpu_ticks s;
          cooldown_ticks = ucast (unwarp_period d) * mcu d;
          left = (if \<not> warp_on d \<and> mcu d \<noteq> 0 \<and> unwarp_period d \<noteq> 0 \<and> last_unwarp_tsc d \<noteq> 0
                     \<and> ucast (unwarp_period d) \<le> UINT64_MAX div mcu d
                     \<and> now_tsc > last_unwarp_tsc d \<and> now_tsc - last_unwarp_tsc d < cooldown_ticks
                  then cooldown_ticks - (now_tsc - last_unwarp_tsc d) else 0);
          stats = \<lparr>st_weight = weight d, st_vt_ratio = vt_ratio d, st_avt = avt d, st_evt = evt d,
                   st_warp_value = warp_value d, st_warp_left = warp_left d,
                   st_cooldown_left_ticks = left\<rparr>
      in (if is_running t s \<and> \<not> is_idle_thread t s \<and> now_tsc > start_tsc d then
            let v_delta = p2v (now_tsc - start_tsc d) (vt_ratio d) + residual d;
                av = avt d + v_delta div mcu d
            in stats\<lparr>st_avt := av, st_evt := (if warp_on d then av - scast (warp_value d) else av)\<rparr>
          else stats, tick_read s))"

text \<open>\<open>has_stats\<close> tells whether the pointer for the result is set.\<close>

definition sched_get_bvt_stats :: "thread_ref option \<Rightarrow> bool \<Rightarrow> sched_sys \<Rightarrow> sched_bvt_stats option \<times> sched_sys" where
  "sched_get_bvt_stats obj has_stats s =
     (case obj of
        None \<Rightarrow> (None, s)
      | Some t \<Rightarrow>
          (case sched_ctl (threads s t) of
             None \<Rightarrow> (None, s)
           | Some c \<Rightarrow>
               if has_stats \<and> scheduler (sched_ctls s c) = Some Sched_bvt
               then (let (st, s) = sched_bvt_snapshot t s in (Some st, s))
               else (None, s)))"

section \<open>The contract\<close>

definition bvt_rq :: "nat \<Rightarrow> sched_sys \<Rightarrow> thread_ref list" where
  "bvt_rq p s = bvt_runqueue (bvt_ctl s p)"

lemma upd_bvt_simps [simp]:
  "bvt_ctl (upd_bvt t f s) = bvt_ctl s" "timer_ok (upd_bvt t f s) = timer_ok s"
  "sched_ctl (threads (upd_bvt t f s) u) = sched_ctl (threads s u)"
  "pcpu_id (threads (upd_bvt t f s) u) = pcpu_id (threads s u)" "cur_pcpu (upd_bvt t f s) = cur_pcpu s"
  "is_idle_thread u (upd_bvt t f s) = is_idle_thread u s" "curr q (upd_bvt t f s) = curr q s"
  "bvt u (upd_bvt t f s) = (if u = t then f (bvt t s) else bvt u s)"
  "timers (upd_bvt t f s) = timers s" "khz (upd_bvt t f s) = khz s" "tsc (upd_bvt t f s) = tsc s"
  by (simp_all add: upd_bvt_def is_idle_thread_def curr_def)

lemma set_bvt_runqueue_simps [simp]:
  "bvt_rq r (set_bvt_runqueue p q s) = (if r = p then q else bvt_rq r s)"
  "svt (bvt_ctl (set_bvt_runqueue p q s) r) = svt (bvt_ctl s r)"
  "threads (set_bvt_runqueue p q s) = threads s" "timer_ok (set_bvt_runqueue p q s) = timer_ok s"
  "evt_less (set_bvt_runqueue p q s) = evt_less s"
  "set_bvt_runqueue p q (set_bvt_runqueue p q' s) = set_bvt_runqueue p q s"
  by (auto simp: set_bvt_runqueue_def bvt_rq_def evt_less_def fun_eq_iff)

lemma bvt_rq_simps [simp]:
  "bvt_rq r (upd_bvt t f s) = bvt_rq r s" "bvt_rq r (tick_read s) = bvt_rq r s"
  "bvt_rq r (del_timer tr s) = bvt_rq r s" "bvt_rq r (update_timer tr d q s) = bvt_rq r s"
  "bvt_rq r (snd (add_timer tr s)) = bvt_rq r s" "bvt_rq r (update_svt p s) = bvt_rq r s"
  by (auto simp: bvt_rq_def update_svt_def split: list.split)

lemma bvt_prim_frames [simp, intro]:
  "hook_frame s (upd_bvt t f s)" "hook_frame s (set_bvt_runqueue p q s)" "hook_frame s (update_svt p s)"
  by (auto simp: upd_bvt_def set_bvt_runqueue_def update_svt_def intro!: hook_frame_upd_thread split: list.split)

lemma bvt_queue_frames [simp, intro]:
  "hook_frame s (bvt_runqueue_add t s)" "hook_frame s (bvt_runqueue_remove t s)"
  "timer_ok s \<Longrightarrow> timer_ok (bvt_runqueue_add t s)" "timer_ok (bvt_runqueue_remove t s) = timer_ok s"
  "timer_ok (update_svt p s) = timer_ok s"
  by (auto simp: bvt_runqueue_add_def bvt_runqueue_remove_def Let_def update_svt_def
      intro!: hook_frame_with_ctl timer_ok_with_ctl split: option.split list.split)

lemmas bvt_steps =
  hook_frame_steps bvt_prim_frames [THEN hook_frame_trans [rotated]]
  bvt_queue_frames(1,2) [THEN hook_frame_trans [rotated]]

lemma bvt_requeue_frames [simp, intro]:
  "hook_frame s (bvt_requeue t s)" "timer_ok s \<Longrightarrow> timer_ok (bvt_requeue t s)"
  by (auto simp: bvt_requeue_def intro!: bvt_steps)

lemma bvt_start_warp_frames [simp, intro]:
  "hook_frame s (bvt_start_warp t s)" "timer_ok s \<Longrightarrow> timer_ok (bvt_start_warp t s)"
  by (auto simp: bvt_start_warp_def Let_def
      intro!: bvt_steps bvt_requeue_frames(1) [THEN hook_frame_trans [rotated]])

lemma update_vt_frames [simp, intro]:
  "hook_frame s (update_vt t s)" "timer_ok s \<Longrightarrow> timer_ok (update_vt t s)"
  by (auto simp: update_vt_def Let_def
      intro!: bvt_steps bvt_requeue_frames(1) [THEN hook_frame_trans [rotated]])

lemma bvt_runqueue_add_fresh:
  assumes "sched_ctl (threads s t) = Some p" and "t \<notin> set (bvt_rq p s)"
  shows "bvt_runqueue_add t s = set_bvt_runqueue p (insert_before (evt_less s t) t (bvt_rq p s)) s"
proof -
  have "insert_before P t q = q @ [t]" if "\<not> (\<exists>x \<in> set q. P x)" for P and q :: "thread_ref list"
    using that by (induction q) auto
  from this [of "bvt_rq p s" "evt_less s t"] assms show ?thesis
    by (auto simp: bvt_runqueue_add_def bvt_rq_def Let_def)
qed

lemma bvt_requeue_queue:
  assumes "sched_ctl (threads s t) = Some p" and "distinct (bvt_rq p s)"
  shows "bvt_requeue t s = (if t \<in> set (bvt_rq p s)
    then set_bvt_runqueue p (insert_before (evt_less s t) t (remove1 t (bvt_rq p s))) s else s)"
proof -
  let ?r = "set_bvt_runqueue p (remove1 t (bvt_rq p s)) s"
  have "bvt_runqueue_remove t s = ?r" using assms by (simp add: bvt_runqueue_remove_def bvt_rq_def)
  moreover have "bvt_runqueue_add t ?r = set_bvt_runqueue p (insert_before (evt_less s t) t (remove1 t (bvt_rq p s))) s"
    using assms by (subst bvt_runqueue_add_fresh [of _ _ p]) simp_all
  ultimately show ?thesis using assms by (simp add: bvt_requeue_def bvt_is_inqueue_def bvt_rq_def)
qed

lemma bvt_requeue_set:
  assumes "sched_ctl (threads s t) = Some p" and "distinct (bvt_rq p s)"
  shows "set (bvt_rq p (bvt_requeue t s)) = set (bvt_rq p s)" and "distinct (bvt_rq p (bvt_requeue t s))"
  using assms by (auto simp: bvt_requeue_queue [OF assms])

lemma bvt_start_warp_set:
  assumes "sched_ctl (threads s t) = Some p" and "distinct (bvt_rq p s)"
  shows "set (bvt_rq p (bvt_start_warp t s)) = set (bvt_rq p s)" and "distinct (bvt_rq p (bvt_start_warp t s))"
  using assms bvt_requeue_set [of "upd_bvt t f (tick_read s)" t p for f]
  by (auto simp: bvt_start_warp_def Let_def)

lemma update_vt_set:
  assumes "sched_ctl (threads s t) = Some p" and "distinct (bvt_rq p s)"
  shows "set (bvt_rq p (update_vt t s)) = set (bvt_rq p s)" and "distinct (bvt_rq p (update_vt t s))"
  using assms bvt_requeue_set [of "upd_bvt t f (tick_read s)" t p for f]
  by (auto simp: update_vt_def Let_def)

lemma bvt_program_timer_ok:
  assumes "\<not> timer_is_started (BvtTick c) s"
  shows "hook_frame s (bvt_program_timer c x xs s)" "timer_ok s \<Longrightarrow> timer_ok (bvt_program_timer c x xs s)"
    "bvt_rq r (bvt_program_timer c x xs s) = bvt_rq r s"
    "threads (bvt_program_timer c x xs s) = threads s"
proof -
  have n: "\<not> timer_is_started (BvtTick c) (tick_read s)" using assms by (simp add: timer_is_started_def)
  show "hook_frame s (bvt_program_timer c x xs s)" "bvt_rq r (bvt_program_timer c x xs s) = bvt_rq r s"
    "threads (bvt_program_timer c x xs s) = threads s"
    by (auto simp: bvt_program_timer_def Let_def intro!: bvt_steps split: list.split)
  show "timer_ok (bvt_program_timer c x xs s)" if "timer_ok s"
    using timer_ok_arm [OF _ n] that by (auto simp: bvt_program_timer_def Let_def split: list.split)
qed

text \<open>The state \<open>pick_next\<close> chooses in: the current thread charged, the timer stopped.\<close>

definition bvt_settled :: "nat \<Rightarrow> thread_ref \<Rightarrow> sched_sys \<Rightarrow> sched_sys" where
  "bvt_settled c t s =
     (let s = tick_read s
      in del_timer (Some (BvtTick c)) (update_svt c (if is_idle_thread t s then s else update_vt t s)))"

lemma bvt_settled_frames [simp, intro]:
  "hook_frame s (bvt_settled c t s)" "timer_ok s \<Longrightarrow> timer_ok (bvt_settled c t s)"
  "\<not> timer_is_started (BvtTick c) (bvt_settled c t s)"
  by (auto simp: bvt_settled_def Let_def del_timer_stops
      intro!: bvt_steps update_vt_frames(1) [THEN hook_frame_trans [rotated]] timer_ok_del)

lemma bvt_settled_set:
  assumes "t = Idle p \<or> managed p t s" and "pcpu_id (threads s (Idle p)) = p" and "distinct (bvt_rq p s)"
  shows "set (bvt_rq p (bvt_settled c t s)) = set (bvt_rq p s)" and "distinct (bvt_rq p (bvt_settled c t s))"
  using assms update_vt_set [of "tick_read s" t p]
  by (auto simp: bvt_settled_def Let_def is_idle_thread_def managed_def)

lemma bvt_pick_cases:
  assumes "curr p s = Some t" and "sched_bvt_pick_next p s = (r, s')"
  shows "bvt_rq p s' = bvt_rq p (bvt_settled p t s)"
    and "r = (case bvt_rq p s' of [] \<Rightarrow> idle_var s | x # _ \<Rightarrow> x)"
    and "hook_frame s s'" and "timer_ok s \<Longrightarrow> timer_ok s'"
proof -
  let ?s = "bvt_settled p t s"
  have c: "curr p (tick_read s) = Some t" using assms(1) by (simp add: curr_def)
  have id: "idle_var ?s = idle_var s" using bvt_settled_frames(1) [of s p t] by (simp add: idle_var_def hook_frameD)
  have n: "\<not> timer_is_started (BvtTick p) (upd_bvt x f ?s)" for x f
    using bvt_settled_frames(3) [of p t s] by (simp add: timer_is_started_def)
  note P = bvt_program_timer_ok [OF n]
  have r: "(r, s') = (case bvt_rq p ?s of [] \<Rightarrow> (idle_var ?s, ?s)
      | x # xs \<Rightarrow> (x, bvt_program_timer p x xs (upd_bvt x (\<lambda>d. d\<lparr>start_tsc := cpu_ticks s\<rparr>) ?s)))"
    using assms(2) by (simp only: sched_bvt_pick_next_def bvt_settled_def bvt_rq_def Let_def c option.case)
  have "bvt_rq p s' = bvt_rq p ?s \<and> r = (case bvt_rq p s' of [] \<Rightarrow> idle_var s | x # _ \<Rightarrow> x)
      \<and> hook_frame ?s s' \<and> (timer_ok ?s \<longrightarrow> timer_ok s')"
  proof (cases "bvt_rq p ?s")
    case (Cons x xs)
    then show ?thesis
      using r P hook_frame_trans [OF bvt_prim_frames(1) P(1)] by simp
  qed (use r id in simp)
  then show "bvt_rq p s' = bvt_rq p ?s" "r = (case bvt_rq p s' of [] \<Rightarrow> idle_var s | x # _ \<Rightarrow> x)"
    "hook_frame s s'" "timer_ok s \<Longrightarrow> timer_ok s'"
    by (auto intro: hook_frame_trans)
qed

lemma sched_bvt_wake_queue:
  assumes "sched_ctl (threads s t) = Some p" and "t \<notin> set (bvt_rq p s)" and "distinct (bvt_rq p s)"
  shows "hook_frame s (sched_bvt_wake t s)" and "timer_ok s \<Longrightarrow> timer_ok (sched_bvt_wake t s)"
    and "set (bvt_rq p (sched_bvt_wake t s)) = insert t (set (bvt_rq p s))"
    and "distinct (bvt_rq p (sched_bvt_wake t s))"
proof -
  let ?sv = "svt (bvt_ctl s p)"
  define s1 where "s1 = upd_bvt t (\<lambda>d. d\<lparr>avt := (if sint (avt d) > sint (?sv - BVT_CSA_MCU) then avt d else ?sv)\<rparr>) s"
  define s2 where "s2 = upd_bvt t update_evt (bvt_start_warp t s1)"
  have w: "sched_bvt_wake t s = bvt_runqueue_add t s2"
    using assms(1) by (simp add: sched_bvt_wake_def s1_def s2_def Let_def)
  have F: "hook_frame s s2" unfolding s2_def s1_def
    by (intro bvt_steps bvt_start_warp_frames(1) [THEN hook_frame_trans [rotated]] hook_frame_refl)
  have q: "set (bvt_rq p s2) = set (bvt_rq p s)" "distinct (bvt_rq p s2)"
    using bvt_start_warp_set [of s1 t p] assms by (simp_all add: s2_def s1_def)
  have ctl: "sched_ctl (threads s2 t) = Some p" using F assms(1) by (simp add: hook_frameD)
  show "hook_frame s (sched_bvt_wake t s)" using F by (auto simp: w intro: hook_frame_trans)
  show "timer_ok (sched_bvt_wake t s)" if "timer_ok s" using that by (auto simp: w s2_def s1_def)
  show "set (bvt_rq p (sched_bvt_wake t s)) = insert t (set (bvt_rq p s))"
    "distinct (bvt_rq p (sched_bvt_wake t s))"
    using q ctl assms(2) by (simp_all add: w bvt_runqueue_add_fresh [of _ _ p])
qed

interpretation bvt: sched_policy_live sched_bvt bvt_rq "\<lambda>p s. True" True
proof unfold_locales
  fix p s pick t s'
  assume B: "base_inv p s" and Q: "queue_inv (bvt_rq p s) p s" and p: "cur_pcpu s = p"
    and h: "hook_pick_next sched_bvt = Some pick" "pick p s = (t, s')"
  obtain c where c: "curr p s = Some c" "c = Idle p \<or> managed p c s"
    using B by (blast elim: base_inv_currE)
  have pk: "sched_bvt_pick_next p s = (t, s')" using h by (simp add: sched_bvt_def)
  note R = bvt_pick_cases [OF c(1) pk]
  have S: "set (bvt_rq p s') = set (bvt_rq p s)" "distinct (bvt_rq p s')"
    using bvt_settled_set [OF c(2)] B Q by (auto simp: R(1) base_inv_def queue_inv_def)
  then have Q': "queue_inv (bvt_rq p s') p s" using Q by (simp add: queue_inv_def)
  show "hook_ok (\<lambda>p s. True) p s s' \<and> queue_inv (bvt_rq p s') p s \<and> (t = Idle p \<or> eligible p t s)"
    using R Q' p by (auto simp: hook_ok_def queue_inv_def idle_var_def split: list.splits)
  show "\<not> True \<and> u = t \<or> u \<in> set (bvt_rq p s')" if "u \<in> set (bvt_rq p s) \<or> \<not> True \<and> curr p s = Some u" for u
    using that S by simp
next
  fix p s t f s'
  assume "queue_inv (bvt_rq p s) p s" "eligible p t s" "hook_prioritize sched_bvt = Some f"
  then have "f = bvt_start_warp" "distinct (bvt_rq p s)" "sched_ctl (threads s t) = Some p"
    by (auto simp: sched_bvt_def sched_bvt_prioritize_def queue_inv_def eligible_def managed_def fun_eq_iff)
  note S = bvt_start_warp_set [OF this(3,2)] this
  show "hook_ok (\<lambda>p s. True) p s s' \<and> distinct (bvt_rq p s') \<and> set (bvt_rq p s') \<subseteq> insert t (set (bvt_rq p s))"
    if "f t s = s'" using that S by (auto simp: hook_ok_def)
  show "u \<in> set (bvt_rq p (f t s))" if "u \<in> set (bvt_rq p s)" for u using that S by simp
next
  fix p s t s'
  assume "queue_inv (bvt_rq p s) p s" "managed p t s" and t: "t \<notin> set (bvt_rq p s)"
  then have "sched_ctl (threads s t) = Some p" "distinct (bvt_rq p s)" by (auto simp: managed_def queue_inv_def)
  note W = sched_bvt_wake_queue [OF this(1) t this(2)]
  show "hook_ok (\<lambda>p s. True) p s s' \<and> distinct (bvt_rq p s') \<and> set (bvt_rq p s') \<subseteq> insert t (set (bvt_rq p s))"
    if "call_hook (hook_wake sched_bvt) t s = s'"
    using that W by (auto simp: hook_ok_def sched_bvt_def call_hook_def)
  show "u \<in> set (bvt_rq p (call_hook (hook_wake sched_bvt) t s))" if "u \<in> set (bvt_rq p s) \<or> u = t" for u
    using that W by (auto simp: sched_bvt_def call_hook_def)
next
  fix p s t s'
  assume Q: "queue_inv (bvt_rq p s) p s" and "managed p t s"
  then have c: "call_hook (hook_sleep sched_bvt) t s = set_bvt_runqueue p (remove1 t (bvt_rq p s)) s"
    by (simp add: sched_bvt_def call_hook_def sched_bvt_sleep_def bvt_runqueue_remove_def managed_def bvt_rq_def)
  show "hook_ok (\<lambda>p s. True) p s s' \<and> distinct (bvt_rq p s') \<and> set (bvt_rq p s') \<subseteq> set (bvt_rq p s) - {t}"
    if "call_hook (hook_sleep sched_bvt) t s = s'"
    using that Q by (auto simp: c hook_ok_def queue_inv_def)
  show "u \<in> set (bvt_rq p (call_hook (hook_sleep sched_bvt) t s))" if "u \<in> set (bvt_rq p s)" "u \<noteq> t" for u
    using that by (simp add: c)
qed (simp_all add: policy_same_def bvt_rq_def sched_bvt_def)

section \<open>The run queue stays in order of effective virtual time\<close>

interpretation evt_order: queue_order "evt_less s" for s
  by unfold_locales (auto simp: evt_less_def)

definition bvt_sorted :: "nat \<Rightarrow> sched_sys \<Rightarrow> bool" where
  "bvt_sorted p s \<longleftrightarrow> in_order (evt_less s) (bvt_rq p s)"

lemma evt_less_other: "x \<noteq> t \<Longrightarrow> y \<noteq> t \<Longrightarrow> evt_less (upd_bvt t f s) x y = evt_less s x y"
  by (simp add: evt_less_def)

lemma evt_less_same [simp]:
  "evt_less (tick_read s) = evt_less s" "evt_less (del_timer tr s) = evt_less s"
  "evt_less (update_svt p s) = evt_less s"
  by (auto simp: evt_less_def fun_eq_iff update_svt_def split: list.split)

lemma evt_less_start_tsc [simp]: "evt_less (upd_bvt t (\<lambda>d. d\<lparr>start_tsc := v\<rparr>) s) = evt_less s"
  by (auto simp: evt_less_def fun_eq_iff)

lemma bvt_sorted_requeue:
  assumes "sched_ctl (threads s t) = Some p" and "distinct (bvt_rq p s)"
    and "in_order (evt_less s) (remove1 t (bvt_rq p s))"
  shows "bvt_sorted p (bvt_requeue t s)"
  using assms(3) evt_order.order_insert [of s "remove1 t (bvt_rq p s)" t]
  by (auto simp: bvt_sorted_def bvt_requeue_queue [OF assms(1,2)] remove1_idem)

text \<open>A thread whose \<open>evt\<close> changes is taken out and put back, so the order survives.\<close>

lemma bvt_sorted_update:
  assumes "bvt_sorted p s" and "sched_ctl (threads s t) = Some p" and "distinct (bvt_rq p s)"
  shows "bvt_sorted p (bvt_requeue t (upd_bvt t f (tick_read s)))"
proof (rule bvt_sorted_requeue)
  have "in_order (evt_less s) (remove1 t (bvt_rq p s))"
    using assms(1) by (simp add: bvt_sorted_def evt_order.order_remove)
  then show "in_order (evt_less (upd_bvt t f (tick_read s))) (remove1 t (bvt_rq p (upd_bvt t f (tick_read s))))"
    using assms(3) by (subst in_order_cong [where g = "evt_less s"]) (auto simp: evt_less_other)
qed (use assms in simp_all)

lemma bvt_sorted_start_warp:
  assumes "bvt_sorted p s" and "sched_ctl (threads s t) = Some p" and "distinct (bvt_rq p s)"
  shows "bvt_sorted p (bvt_start_warp t s)"
  using assms bvt_sorted_update [OF assms]
  by (simp add: bvt_start_warp_def Let_def) (simp add: bvt_sorted_def)

lemma bvt_sorted_settled:
  assumes "bvt_sorted p s" and "t = Idle p \<or> managed p t s" and "pcpu_id (threads s (Idle p)) = p"
    and "distinct (bvt_rq p s)"
  shows "bvt_sorted p (bvt_settled c t s)"
proof (cases "is_idle_thread t s")
  case True
  then show ?thesis using assms(1) by (simp add: bvt_settled_def Let_def bvt_sorted_def is_idle_thread_def)
next
  case False
  then have c: "sched_ctl (threads (tick_read s) t) = Some p"
    using assms(2,3) by (auto simp: managed_def is_idle_thread_def)
  have "bvt_sorted p (tick_read s)" "distinct (bvt_rq p (tick_read s))"
    using assms(1,4) by (simp_all add: bvt_sorted_def)
  from bvt_sorted_update [OF this(1) c this(2)] have "bvt_sorted p (update_vt t (tick_read s))"
    by (simp add: update_vt_def Let_def)
  then show ?thesis using False by (simp add: bvt_settled_def Let_def bvt_sorted_def is_idle_thread_def)
qed

text \<open>The thread chosen has the least effective virtual time of all that wait.\<close>

lemma bvt_pick_sorted:
  assumes "bvt_sorted p s" and "base_inv p s" and "distinct (bvt_rq p s)"
    and "sched_bvt_pick_next p s = (r, s')"
  shows "bvt_sorted p s'" and "x \<in> set (bvt_rq p s) \<Longrightarrow> r \<in> set (bvt_rq p s) \<and> \<not> evt_less s' x r"
proof -
  obtain t where t: "curr p s = Some t" "t = Idle p \<or> managed p t s"
    using assms(2) by (blast elim: base_inv_currE)
  note R = bvt_pick_cases [OF t(1) assms(4)]
  have i: "pcpu_id (threads s (Idle p)) = p" using assms(2) by (simp add: base_inv_def)
  note S = bvt_settled_set [OF t(2) i assms(3), of p]
  have so: "bvt_sorted p (bvt_settled p t s)" by (rule bvt_sorted_settled [OF assms(1) t(2) i assms(3)])
  have n: "\<not> timer_is_started (BvtTick p) (upd_bvt x f (bvt_settled p t s))" for x f
    using bvt_settled_frames(3) [of p t s] by (simp add: timer_is_started_def)
  have c: "curr p (tick_read s) = Some t" using t(1) by (simp add: curr_def)
  have "(r, s') = (case bvt_rq p (bvt_settled p t s) of [] \<Rightarrow> (idle_var (bvt_settled p t s), bvt_settled p t s)
      | x # xs \<Rightarrow> (x, bvt_program_timer p x xs (upd_bvt x (\<lambda>d. d\<lparr>start_tsc := cpu_ticks s\<rparr>) (bvt_settled p t s))))"
    using assms(4) by (simp only: sched_bvt_pick_next_def bvt_settled_def bvt_rq_def Let_def c option.case)
  then have e: "evt_less s' = evt_less (bvt_settled p t s)"
    using bvt_program_timer_ok(4) [OF n] evt_less_start_tsc
    by (auto simp: evt_less_def [abs_def] split: list.splits)
  show "bvt_sorted p s'" using so by (simp add: bvt_sorted_def e R(1))
  assume "x \<in> set (bvt_rq p s)"
  then have x: "x \<in> set (bvt_rq p s')" using S by (simp add: R(1))
  then obtain y ys where y: "bvt_rq p s' = y # ys" "r = y" using R(2) by (cases "bvt_rq p s'") auto
  have "in_order (evt_less s') (y # ys)" using so y by (simp add: bvt_sorted_def e R(1))
  from evt_order.order_hd [OF this] x y S R(1) show "r \<in> set (bvt_rq p s) \<and> \<not> evt_less s' x r" by auto
qed

lemma bvt_sorted_wake:
  assumes "bvt_sorted p s" and "sched_ctl (threads s t) = Some p" and "t \<notin> set (bvt_rq p s)"
    and "distinct (bvt_rq p s)"
  shows "bvt_sorted p (sched_bvt_wake t s)"
proof -
  let ?sv = "svt (bvt_ctl s p)"
  define s1 where "s1 = upd_bvt t (\<lambda>d. d\<lparr>avt := (if sint (avt d) > sint (?sv - BVT_CSA_MCU) then avt d else ?sv)\<rparr>) s"
  define s2 where "s2 = upd_bvt t update_evt (bvt_start_warp t s1)"
  have cong: "in_order (evt_less (upd_bvt t f s')) q = in_order (evt_less s') q" if "t \<notin> set q" for f s' q
    by (rule in_order_cong, rule evt_less_other) (use that in auto)
  have 1: "bvt_sorted p s1" "sched_ctl (threads s1 t) = Some p" "distinct (bvt_rq p s1)"
    using assms cong by (simp_all add: s1_def bvt_sorted_def)
  have 2: "set (bvt_rq p s2) = set (bvt_rq p s)" using bvt_start_warp_set [OF 1(2,3)] by (simp add: s2_def s1_def)
  have "bvt_sorted p s2"
    using bvt_sorted_start_warp [OF 1] bvt_start_warp_set [OF 1(2,3)] assms(3) cong
    by (simp add: s2_def bvt_sorted_def s1_def)
  moreover have "sched_ctl (threads s2 t) = Some p"
    using 1(2) by (simp add: s2_def hook_frameD(2) [OF bvt_start_warp_frames(1)])
  moreover have "sched_bvt_wake t s = bvt_runqueue_add t s2"
    using assms(2) by (simp add: sched_bvt_wake_def s1_def s2_def Let_def)
  ultimately show ?thesis
    using assms(3) 2 by (simp add: bvt_sorted_def bvt_runqueue_add_fresh [of _ _ p] evt_order.order_insert)
qed

lemma bvt_sorted_sleep:
  "bvt_sorted p s \<Longrightarrow> sched_ctl (threads s t) = Some p \<Longrightarrow> bvt_sorted p (sched_bvt_sleep t s)"
  by (simp add: bvt_sorted_def sched_bvt_sleep_def bvt_runqueue_remove_def evt_order.order_remove
      bvt_rq_def [symmetric])

section \<open>Accounting\<close>

lemma unat_bvt_charge:
  assumes "start_tsc d < now" and "0 < mcu d"
    and "(unat now - unat (start_tsc d)) * unat (vt_ratio d) + unat (residual d) < 2 ^ 64"
  shows "unat (avt (bvt_charge now d) - avt d) * unat (mcu d) + unat (residual (bvt_charge now d))
    = (unat now - unat (start_tsc d)) * unat (vt_ratio d) + unat (residual d)"
    and "residual (bvt_charge now d) < mcu d"
proof -
  let ?v = "p2v (now - start_tsc d) (vt_ratio d) + residual d"
  have d: "unat (now - start_tsc d) = unat now - unat (start_tsc d)"
    using assms(1) by (simp add: unat_diff_le)
  have "unat (p2v (now - start_tsc d) (vt_ratio d)) = (unat now - unat (start_tsc d)) * unat (vt_ratio d)"
    using assms(3) d unfolding p2v_def by (subst unat_mult_nowrap) simp_all
  then have v: "unat ?v = (unat now - unat (start_tsc d)) * unat (vt_ratio d) + unat (residual d)"
    using assms(3) by (subst unat_add_nowrap) simp_all
  have a: "avt (bvt_charge now d) = avt d + ?v div mcu d" "residual (bvt_charge now d) = ?v mod mcu d"
    using assms(1) by (simp_all add: bvt_charge_def Let_def update_evt_def bvt_update_warp_after_charge_def)
  show "unat (avt (bvt_charge now d) - avt d) * unat (mcu d) + unat (residual (bvt_charge now d))
    = (unat now - unat (start_tsc d)) * unat (vt_ratio d) + unat (residual d)"
    by (simp add: a v [symmetric] unat_div_distrib unat_mod_distrib)
  show "residual (bvt_charge now d) < mcu d"
    using assms(2) by (simp add: a word_mod_less_divisor)
qed

text \<open>
  A warp lasts until its window of charged units is used up, and the credit is \<open>warp_value\<close> once,
  however many events arrive.
\<close>

lemma bvt_warp_window:
  assumes "warp_on d" and "k = avt (bvt_charge now d) - avt d"
  shows "warp_on (bvt_charge now d) \<longleftrightarrow> k = 0 \<or> k < ucast (warp_left d)"
    and "warp_on (bvt_charge now d) \<Longrightarrow> warp_left (bvt_charge now d) = warp_left d - ucast k"
    and "\<not> warp_on (bvt_charge now d) \<Longrightarrow> last_unwarp_tsc (bvt_charge now d) = now"
  using assms
  by (cases "start_tsc d < now";
      auto simp: bvt_charge_def Let_def update_evt_def bvt_update_warp_after_charge_def not_le split: if_splits)+

lemma bvt_cooldown:
  assumes "\<not> warp_on (bvt t s)" and "unwarp_period (bvt t s) \<noteq> 0" and "last_unwarp_tsc (bvt t s) \<noteq> 0"
    and "cpu_ticks s - last_unwarp_tsc (bvt t s) < ucast (unwarp_period (bvt t s)) * mcu (bvt t s)"
  shows "bvt_start_warp t s = tick_read s"
  using assms by (simp add: bvt_start_warp_def Let_def bvt_can_warp_def)

definition evt_inv :: "sched_bvt_data \<Rightarrow> bool" where
  "evt_inv d \<longleftrightarrow> evt d = (if warp_on d then avt d - scast (warp_value d) else avt d)"

lemma evt_inv_ops:
  "evt_inv (update_evt d)" "evt_inv (bvt_charge now d)"
  by (auto simp: evt_inv_def update_evt_def bvt_charge_def Let_def)

section \<open>Properties\<close>

text \<open>
  Claim C38. The virtual time of a thread grows by exactly the time it ran times its ratio, in units of
  \<open>mcu\<close>: what does not fill a unit is carried in \<open>residual\<close>, and no tick is lost or charged twice.
\<close>

theorem bvt_charge_exact:
  assumes "start_tsc d < now" and "0 < mcu d"
    and "(unat now - unat (start_tsc d)) * unat (vt_ratio d) + unat (residual d) < 2 ^ 64"
  shows "unat (avt (bvt_charge now d) - avt d) * unat (mcu d) + unat (residual (bvt_charge now d))
      = (unat now - unat (start_tsc d)) * unat (vt_ratio d) + unat (residual d)
    \<and> residual (bvt_charge now d) < mcu d \<and> evt_inv (bvt_charge now d)"
  using unat_bvt_charge [OF assms] evt_inv_ops by simp

theorem bvt_charge_exact_witness:
  "let d = \<lparr>mcu = 1000, weight = 1, vt_ratio = 4, warp_on = False, warp_value = 0, warp_limit = 0, unwarp_period = 0,
        warp_left = 0, last_unwarp_tsc = 0, avt = 5, evt = 5, residual = 300, start_tsc = 100\<rparr>
   in unat (avt (bvt_charge 650 d) - avt d) * 1000 + unat (residual (bvt_charge 650 d)) = 2500"
  using bvt_charge_exact [of "\<lparr>mcu = 1000, weight = 1, vt_ratio = 4, warp_on = False, warp_value = 0, warp_limit = 0, unwarp_period = 0,
        warp_left = 0, last_unwarp_tsc = 0, avt = 5, evt = 5, residual = 300, start_tsc = 100\<rparr>" 650] by (simp add: Let_def)

text \<open>
  The event boost is bounded: it ends with the charge that uses up its window, and in the
  cooldown after its end further events start no new one.
\<close>

theorem bvt_warp_bounded:
  "(warp_on d \<and> avt (bvt_charge now d) - avt d \<noteq> 0 \<and> ucast (warp_left d) \<le> avt (bvt_charge now d) - avt d \<longrightarrow>
      \<not> warp_on (bvt_charge now d) \<and> last_unwarp_tsc (bvt_charge now d) = now \<and> evt (bvt_charge now d) = avt (bvt_charge now d))
   \<and> (\<not> warp_on (bvt t s) \<and> unwarp_period (bvt t s) \<noteq> 0 \<and> last_unwarp_tsc (bvt t s) \<noteq> 0
        \<and> cpu_ticks s - last_unwarp_tsc (bvt t s) < ucast (unwarp_period (bvt t s)) * mcu (bvt t s) \<longrightarrow>
      sched_bvt_prioritize t s = tick_read s)"
proof -
  have "warp_on d \<and> avt (bvt_charge now d) - avt d \<noteq> 0 \<and> ucast (warp_left d) \<le> avt (bvt_charge now d) - avt d \<longrightarrow>
      \<not> warp_on (bvt_charge now d)" using bvt_warp_window(1) [of d _ now] by auto
  then show ?thesis
    using bvt_warp_window(3) [of d _ now] bvt_cooldown [where t = t and s = s] evt_inv_ops(2) [of now d]
    by (auto simp: evt_inv_def sched_bvt_prioritize_def)
qed

end
