(* ===== verification/Sched_Rtds.thy ===== *)
theory Sched_Rtds
  imports Sched_Contract
begin

text \<open>
  \<open>core/sched/rtds.c\<close>: each thread is a periodic server with a budget. Servers with budget wait on
  the ready queue, earliest deadline first; the others wait on the depleted queue and run only when
  no server has budget. The list node of a thread hangs on a queue of the pCPU of its \<open>sched_ctl\<close>,
  and the field \<open>queue\<close> records which. The two loops of \<open>rtds_refresh_queues\<close> move the node they are
  at, so they are the walk of the theory \<open>Walk\<close>; a walk without end stops the pCPU.
\<close>

section \<open>Model\<close>

definition RTDS_DEFAULT_PERIOD_US :: u32 where "RTDS_DEFAULT_PERIOD_US = 4000"
definition RTDS_DEFAULT_BUDGET_US :: u32 where "RTDS_DEFAULT_BUDGET_US = 2000"
definition RTDS_MIN_PERIOD_US :: u32 where "RTDS_MIN_PERIOD_US = 500"
definition RTDS_MIN_BUDGET_US :: u32 where "RTDS_MIN_BUDGET_US = 500"

abbreviation rtds :: "thread_ref \<Rightarrow> sched_sys \<Rightarrow> sched_rtds_data" where
  "rtds t s \<equiv> rtds_data (threads s t)"

definition upd_rtds :: "thread_ref \<Rightarrow> (sched_rtds_data \<Rightarrow> sched_rtds_data) \<Rightarrow> sched_sys \<Rightarrow> sched_sys" where
  "upd_rtds t f s = upd_thread t (\<lambda>th. th\<lparr>rtds_data := f (rtds_data th)\<rparr>) s"

definition rtds_ready :: "nat \<Rightarrow> sched_sys \<Rightarrow> thread_ref list" where
  "rtds_ready p s = rtds_ready_queue (rtds_ctl s p)"

definition rtds_depleted :: "nat \<Rightarrow> sched_sys \<Rightarrow> thread_ref list" where
  "rtds_depleted p s = rtds_depleted_queue (rtds_ctl s p)"

definition set_rtds_queues ::
  "nat \<Rightarrow> thread_ref list \<Rightarrow> thread_ref list \<Rightarrow> sched_sys \<Rightarrow> sched_sys" where
  "set_rtds_queues p r d s =
     s\<lparr>rtds_ctl := (rtds_ctl s)(p := (rtds_ctl s p)\<lparr>rtds_ready_queue := r, rtds_depleted_queue := d\<rparr>)\<rparr>"

definition rtds_next_period_boundary :: "u64 \<Rightarrow> u64 \<Rightarrow> u64" where
  "rtds_next_period_boundary now period_ticks =
     (if period_ticks = 0 then now
      else (let periods = now div period_ticks + 1 in periods * period_ticks))"

definition rtds_is_queued :: "sched_rtds_data \<Rightarrow> bool" where
  "rtds_is_queued d \<longleftrightarrow> rtds_queue d \<noteq> RTDS_QUEUE_NONE"

text \<open>\<open>obj->sched_ctl->curr_obj == obj\<close>; the callers have followed \<open>sched_ctl\<close> before.\<close>

definition rtds_is_current :: "thread_ref \<Rightarrow> sched_sys \<Rightarrow> bool" where
  "rtds_is_current t s =
     (case sched_ctl (threads s t) of None \<Rightarrow> False | Some p \<Rightarrow> curr p s = Some t)"

definition rtds_is_active :: "thread_ref \<Rightarrow> sched_sys \<Rightarrow> bool" where
  "rtds_is_active t s \<longleftrightarrow>
     \<not> is_idle_thread t s
     \<and> (rtds_is_current t s \<and> \<not> be_blocking (threads s t)
        \<or> status (threads s t) = THREAD_STS_RUNNABLE)"

definition rtds_queue_remove :: "thread_ref \<Rightarrow> sched_sys \<Rightarrow> sched_sys" where
  "rtds_queue_remove t s =
     (if rtds_is_queued (rtds t s) then
        let s = (case sched_ctl (threads s t) of
                   None \<Rightarrow> s
                 | Some p \<Rightarrow> set_rtds_queues p (remove1 t (rtds_ready p s)) (remove1 t (rtds_depleted p s)) s)
        in upd_rtds t (\<lambda>d. d\<lparr>rtds_queue := RTDS_QUEUE_NONE\<rparr>) s
      else s)"

text \<open>\<open>data->deadline_ticks < iter_data->deadline_ticks\<close>\<close>

definition deadline_less :: "sched_sys \<Rightarrow> thread_ref \<Rightarrow> thread_ref \<Rightarrow> bool" where
  "deadline_less s x y \<longleftrightarrow> rtds_deadline_ticks (rtds x s) < rtds_deadline_ticks (rtds y s)"

definition rtds_ready_insert :: "thread_ref \<Rightarrow> sched_sys \<Rightarrow> sched_sys" where
  "rtds_ready_insert t =
     with_ctl t (\<lambda>p s.
       let s = (if rtds_queue (rtds t s) \<noteq> RTDS_QUEUE_NONE then rtds_queue_remove t s else s);
           s = set_rtds_queues p (insert_before (deadline_less s t) t (rtds_ready p s)) (rtds_depleted p s) s
       in upd_rtds t (\<lambda>d. d\<lparr>rtds_queue := RTDS_QUEUE_READY\<rparr>) s)"

definition rtds_depleted_insert :: "thread_ref \<Rightarrow> sched_sys \<Rightarrow> sched_sys" where
  "rtds_depleted_insert t =
     with_ctl t (\<lambda>p s.
       if rtds_queue (rtds t s) = RTDS_QUEUE_DEPLETED then s
       else
         let s = (if rtds_queue (rtds t s) = RTDS_QUEUE_READY then rtds_queue_remove t s else s);
             s = set_rtds_queues p (rtds_ready p s) (rtds_depleted p s @ [t]) s
         in upd_rtds t (\<lambda>d. d\<lparr>rtds_queue := RTDS_QUEUE_DEPLETED\<rparr>) s)"

definition rtds_charge :: "u64 \<Rightarrow> sched_rtds_data \<Rightarrow> sched_rtds_data" where
  "rtds_charge now d =
     (let delta = now - rtds_last_start_ticks d;
          d = d\<lparr>rtds_last_start_ticks := now\<rparr>
      in if delta \<ge> rtds_remaining_ticks d then d\<lparr>rtds_remaining_ticks := 0\<rparr>
         else d\<lparr>rtds_remaining_ticks := rtds_remaining_ticks d - delta\<rparr>)"

definition rtds_account_runtime :: "thread_ref \<Rightarrow> u64 \<Rightarrow> sched_sys \<Rightarrow> sched_sys" where
  "rtds_account_runtime t now s =
     (if is_idle_thread t s \<or> \<not> is_running t s
         \<or> rtds_last_start_ticks (rtds t s) = 0 \<or> now \<le> rtds_last_start_ticks (rtds t s)
      then s else upd_rtds t (rtds_charge now) s)"

definition rtds_advance_period :: "u64 \<Rightarrow> sched_rtds_data \<Rightarrow> bool \<times> sched_rtds_data" where
  "rtds_advance_period now d =
     (if now < rtds_deadline_ticks d then (False, d)
      else
        let periods_missed = (now - rtds_deadline_ticks d) div rtds_period_ticks d + 1
        in (True, d\<lparr>rtds_deadline_ticks := rtds_deadline_ticks d + periods_missed * rtds_period_ticks d,
                    rtds_remaining_ticks := rtds_budget_ticks d\<rparr>))"

definition rtds_refresh_thread :: "u64 \<Rightarrow> thread_ref \<Rightarrow> sched_sys \<Rightarrow> sched_sys" where
  "rtds_refresh_thread now t s =
     (let s = upd_rtds t (\<lambda>d. snd (rtds_advance_period now d)) s
      in if is_idle_thread t s then s
         else with_ctl t (\<lambda>p s.
           if \<not> rtds_is_active t s then s
           else if rtds_remaining_ticks (rtds t s) > 0 then rtds_ready_insert t s
           else if \<not> be_blocking (threads s t) then rtds_depleted_insert t s
           else s) s)"

definition rtds_next_depleted_deadline :: "nat \<Rightarrow> sched_sys \<Rightarrow> u64" where
  "rtds_next_depleted_deadline c s =
     fold (\<lambda>t nx. if nx = 0 \<or> rtds_deadline_ticks (rtds t s) < nx
                   then rtds_deadline_ticks (rtds t s) else nx) (rtds_depleted c s) 0"

fun rtds_best :: "sched_sys \<Rightarrow> thread_ref option \<Rightarrow> thread_ref list \<Rightarrow> thread_ref option" where
  "rtds_best s best [] = best"
| "rtds_best s best (t # ts) =
     rtds_best s (case best of
                    None \<Rightarrow> Some t
                  | Some b \<Rightarrow> if deadline_less s t b then Some t else Some b) ts"

definition rtds_pick_depleted_slack :: "nat \<Rightarrow> sched_sys \<Rightarrow> thread_ref option \<times> sched_sys" where
  "rtds_pick_depleted_slack c s =
     (case rtds_best s None (rtds_depleted c s) of
        None \<Rightarrow> (None, s)
      | Some b \<Rightarrow> (Some b, rtds_queue_remove b s))"

text \<open>The deadline the timer gets for the running server; 0 is none.\<close>

definition rtds_running_timeout :: "thread_ref option \<Rightarrow> u64 \<Rightarrow> sched_sys \<Rightarrow> u64" where
  "rtds_running_timeout running now s =
     (case running of
        None \<Rightarrow> 0
      | Some t \<Rightarrow>
          if is_idle_thread t s then 0
          else
            let d = rtds t s
            in if rtds_remaining_ticks d > 0 then
                 let timeout = (if rtds_last_start_ticks d \<noteq> 0
                                then rtds_last_start_ticks d + rtds_remaining_ticks d
                                else now + rtds_remaining_ticks d);
                     timeout = (if rtds_deadline_ticks d < timeout then rtds_deadline_ticks d else timeout)
                 in if timeout \<le> now then now else timeout
               else if rtds_deadline_ticks d > now then rtds_deadline_ticks d else now)"

definition rtds_program_local_timer :: "nat \<Rightarrow> thread_ref option \<Rightarrow> sched_sys \<Rightarrow> sched_sys" where
  "rtds_program_local_timer c running s =
     (let now = cpu_ticks s;
          s = tick_read s;
          s = assertion (ctl_pcpu_id (sched_ctls s c) = cur_pcpu s) ''program RTDS timer on wrong cpu!'' s;
          s = del_timer (Some (RtdsTick c)) s;
          timeout = rtds_running_timeout running now s;
          replenish_timeout = rtds_next_depleted_deadline c s;
          timeout = (if replenish_timeout \<noteq> 0 \<and> (timeout = 0 \<or> replenish_timeout < timeout)
                     then replenish_timeout else timeout)
      in if timeout \<noteq> 0
         then snd (add_timer (Some (RtdsTick c)) (update_timer (Some (RtdsTick c)) timeout 0 s))
         else s)"

definition rtds_program_timer :: "nat \<Rightarrow> thread_ref option \<Rightarrow> sched_sys \<Rightarrow> sched_sys" where
  "rtds_program_timer c running s =
     (if ctl_pcpu_id (sched_ctls s c) = cur_pcpu s then rtds_program_local_timer c running s else s)"

definition rtds_refresh_ready :: "u64 \<Rightarrow> thread_ref \<Rightarrow> sched_sys \<Rightarrow> sched_sys" where
  "rtds_refresh_ready now t s =
     (let (advanced, d) = rtds_advance_period now (rtds t s);
          s = upd_rtds t (\<lambda>_. d) s
      in if advanced then rtds_refresh_thread now t (rtds_queue_remove t s) else s)"

definition rtds_refresh_queues :: "nat \<Rightarrow> u64 \<Rightarrow> sched_sys \<Rightarrow> sched_sys" where
  "rtds_refresh_queues c now s =
     (let s = or_diverges s (for_each_safe (rtds_ready c) (rtds_refresh_ready now) s)
      in or_diverges s (for_each_safe (rtds_depleted c) (rtds_refresh_thread now) s))"

definition rtds_settle_current :: "nat \<Rightarrow> u64 \<Rightarrow> sched_sys \<Rightarrow> sched_sys" where
  "rtds_settle_current c now s =
     (case curr c s of
        None \<Rightarrow> s
      | Some current \<Rightarrow>
          if is_idle_thread current s then s
          else rtds_refresh_thread now current (rtds_account_runtime current now s))"

definition rtds_timer_handler :: "nat \<Rightarrow> sched_sys \<Rightarrow> sched_sys" where
  "rtds_timer_handler c s =
     (let p = cur_pcpu s;
          now = cpu_ticks s;
          s = tick_read s;
          s = sched_account_tick c s;
          s = rtds_settle_current c now s;
          s = rtds_refresh_queues c now s
      in make_reschedule_request p s)"

definition sched_rtds_init :: "nat \<Rightarrow> sched_sys \<Rightarrow> sched_sys" where
  "sched_rtds_init c s =
     (let s = assertion (ctl_pcpu_id (sched_ctls s c) = cur_pcpu s) ''init scheduler on wrong cpu!'' s;
          s = upd_ctl c (\<lambda>ct. ct\<lparr>priv := True\<rparr>) s;
          s = set_rtds_queues c [] [] s
      in initialize_timer (Some (RtdsTick c)) (Some Rtds_timer_handler) c 0 0 s)"

definition sched_rtds_deinit :: "nat \<Rightarrow> sched_sys \<Rightarrow> sched_sys" where
  "sched_rtds_deinit c s = del_timer (Some (RtdsTick c)) s"

text \<open>The period and the budget in microseconds.\<close>

definition rtds_config_us :: "sched_cpupool_config option \<Rightarrow> u32 \<times> u32" where
  "rtds_config_us pool =
     (let (period_us, budget_us) =
            (case pool of
               None \<Rightarrow> (RTDS_DEFAULT_PERIOD_US, RTDS_DEFAULT_BUDGET_US)
             | Some pl \<Rightarrow>
                 if policy pl = SCHED_POLICY_RTDS
                 then (if pool_period_us pl \<noteq> 0 then pool_period_us pl else RTDS_DEFAULT_PERIOD_US,
                       if pool_budget_us pl \<noteq> 0 then pool_budget_us pl else RTDS_DEFAULT_BUDGET_US)
                 else (RTDS_DEFAULT_PERIOD_US, RTDS_DEFAULT_BUDGET_US));
          period_us = max period_us RTDS_MIN_PERIOD_US;
          budget_us = max budget_us RTDS_MIN_BUDGET_US
      in (period_us, min budget_us period_us))"

definition sched_rtds_init_data :: "thread_ref \<Rightarrow> sched_params \<Rightarrow> sched_sys \<Rightarrow> sched_sys" where
  "sched_rtds_init_data t params s =
     (let pool = sched_get_pcpu_pool_config (pcpu_id (threads s t)) s;
          now = cpu_ticks s;
          s = tick_read s;
          (period_us, budget_us) = rtds_config_us pool;
          period = us_to_ticks (khz s) period_us;
          budget = us_to_ticks (khz s) budget_us
      in upd_rtds t (\<lambda>d. d\<lparr>rtds_period_ticks := period, rtds_budget_ticks := budget,
             rtds_remaining_ticks := budget,
             rtds_deadline_ticks := rtds_next_period_boundary now period,
             rtds_last_start_ticks := 0, rtds_queue := RTDS_QUEUE_NONE\<rparr>) s)"

definition rtds_take_next :: "nat \<Rightarrow> sched_sys \<Rightarrow> thread_ref \<times> sched_sys" where
  "rtds_take_next c s =
     (case rtds_ready c s of
        next # _ \<Rightarrow> (next, rtds_queue_remove next s)
      | [] \<Rightarrow>
          (case rtds_pick_depleted_slack c s of
             (Some next, s) \<Rightarrow> (next, s)
           | (None, s) \<Rightarrow> (idle_var s, s)))"

definition sched_rtds_pick_next :: "nat \<Rightarrow> sched_sys \<Rightarrow> thread_ref \<times> sched_sys" where
  "sched_rtds_pick_next c s =
     (let now = cpu_ticks s;
          s = tick_read s;
          s = rtds_settle_current c now s;
          s = rtds_refresh_queues c now s;
          (next, s) = rtds_take_next c s;
          s = (if is_idle_thread next s then s
               else upd_rtds next (\<lambda>d. d\<lparr>rtds_last_start_ticks := now\<rparr>) s)
      in (next, rtds_program_timer c (Some next) s))"

definition sched_rtds_sleep :: "thread_ref \<Rightarrow> sched_sys \<Rightarrow> sched_sys" where
  "sched_rtds_sleep t =
     with_ctl t (\<lambda>p s.
       let s = (if rtds_is_current t s then rtds_account_runtime t (cpu_ticks s) (tick_read s) else s);
           s = rtds_queue_remove t s;
           s = upd_rtds t (\<lambda>d. d\<lparr>rtds_last_start_ticks := 0\<rparr>) s
       in rtds_program_timer p (if rtds_is_current t s then None else curr p s) s)"

definition sched_rtds_wake :: "thread_ref \<Rightarrow> sched_sys \<Rightarrow> sched_sys" where
  "sched_rtds_wake t s =
     (let now = cpu_ticks s;
          s = tick_read s;
          s = upd_rtds t (\<lambda>d. (snd (rtds_advance_period now d))\<lparr>rtds_last_start_ticks := 0\<rparr>) s;
          s = (if rtds_remaining_ticks (rtds t s) > 0 then rtds_ready_insert t s
               else rtds_depleted_insert t s)
      in with_ctl t (\<lambda>p s. rtds_program_timer p (curr p s) s) s)"

definition sched_rtds_prioritize :: "thread_ref \<Rightarrow> sched_sys \<Rightarrow> sched_sys" where
  "sched_rtds_prioritize t s =
     (let now = cpu_ticks s;
          s = tick_read s;
          s = upd_rtds t (\<lambda>d. snd (rtds_advance_period now d)) s
      in with_ctl t (\<lambda>p s. if \<not> rtds_is_current t s \<and> rtds_remaining_ticks (rtds t s) > 0
                           then rtds_ready_insert t s else s) s)"

definition sched_rtds_suspend :: "nat \<Rightarrow> sched_sys \<Rightarrow> sched_sys" where
  "sched_rtds_suspend c s = sched_rtds_deinit c s"

record sched_rtds_stats =
  rst_period_ticks :: u64
  rst_budget_ticks :: u64
  rst_remaining_ticks :: u64
  rst_deadline_ticks :: u64
  rst_last_start_ticks :: u64

definition sched_rtds_snapshot :: "thread_ref \<Rightarrow> sched_sys \<Rightarrow> sched_rtds_stats \<times> sched_sys" where
  "sched_rtds_snapshot t s =
     (let d = rtds t s;
          now = cpu_ticks s;
          stats = \<lparr>rst_period_ticks = rtds_period_ticks d, rst_budget_ticks = rtds_budget_ticks d,
                   rst_remaining_ticks = rtds_remaining_ticks d,
                   rst_deadline_ticks = rtds_deadline_ticks d,
                   rst_last_start_ticks = rtds_last_start_ticks d\<rparr>
      in (if is_running t s \<and> \<not> is_idle_thread t s \<and> rtds_last_start_ticks d \<noteq> 0
             \<and> now > rtds_last_start_ticks d then
            let delta = now - rtds_last_start_ticks d
            in stats\<lparr>rst_remaining_ticks :=
                 (if delta \<ge> rst_remaining_ticks stats then 0 else rst_remaining_ticks stats - delta)\<rparr>
          else stats, tick_read s))"

text \<open>\<open>has_stats\<close> tells whether the pointer for the result is set.\<close>

definition sched_get_rtds_stats ::
  "thread_ref option \<Rightarrow> bool \<Rightarrow> sched_sys \<Rightarrow> sched_rtds_stats option \<times> sched_sys" where
  "sched_get_rtds_stats obj has_stats s =
     (case obj of
        None \<Rightarrow> (None, s)
      | Some t \<Rightarrow>
          (case sched_ctl (threads s t) of
             None \<Rightarrow> (None, s)
           | Some c \<Rightarrow>
               if has_stats \<and> scheduler (sched_ctls s c) = Some Sched_rtds
               then (let (st, s) = sched_rtds_snapshot t s in (Some st, s))
               else (None, s)))"

definition sched_rtds :: acrn_scheduler where
  "sched_rtds = \<lparr>sched_name = ''sched_rtds'',
     stat_desc = ''work-conserving partitioned-edf:dts-defaults'',
     hook_init = Some sched_rtds_init, hook_init_data = Some sched_rtds_init_data,
     hook_pick_next = Some sched_rtds_pick_next, hook_sleep = Some sched_rtds_sleep,
     hook_wake = Some sched_rtds_wake, hook_yield = None, hook_prioritize = Some sched_rtds_prioritize,
     hook_deinit_data = None, hook_deinit = Some sched_rtds_deinit,
     hook_suspend = Some sched_rtds_suspend, hook_resume = None\<rparr>"

section \<open>Frames\<close>

definition rtds_rq :: "nat \<Rightarrow> sched_sys \<Rightarrow> thread_ref list" where
  "rtds_rq p s = rtds_ready p s @ rtds_depleted p s"

lemma upd_rtds_simps [simp]:
  "rtds_ready q (upd_rtds t f s) = rtds_ready q s" "rtds_depleted q (upd_rtds t f s) = rtds_depleted q s"
  "timer_ok (upd_rtds t f s) = timer_ok s" "sched_ctls (upd_rtds t f s) = sched_ctls s"
  "sched_ctl (threads (upd_rtds t f s) u) = sched_ctl (threads s u)"
  "pcpu_id (threads (upd_rtds t f s) u) = pcpu_id (threads s u)" "cur_pcpu (upd_rtds t f s) = cur_pcpu s"
  "status (threads (upd_rtds t f s) u) = status (threads s u)"
  "be_blocking (threads (upd_rtds t f s) u) = be_blocking (threads s u)"
  "is_idle_thread u (upd_rtds t f s) = is_idle_thread u s" "curr q (upd_rtds t f s) = curr q s"
  "is_running u (upd_rtds t f s) = is_running u s"
  "rtds u (upd_rtds t f s) = (if u = t then f (rtds t s) else rtds u s)"
  "timers (upd_rtds t f s) = timers s" "khz (upd_rtds t f s) = khz s" "tsc (upd_rtds t f s) = tsc s"
  by (simp_all add: upd_rtds_def is_idle_thread_def curr_def is_running_def rtds_ready_def rtds_depleted_def)

lemma set_rtds_queues_simps [simp]:
  "rtds_ready q (set_rtds_queues p r d s) = (if q = p then r else rtds_ready q s)"
  "rtds_depleted q (set_rtds_queues p r d s) = (if q = p then d else rtds_depleted q s)"
  "threads (set_rtds_queues p r d s) = threads s" "timer_ok (set_rtds_queues p r d s) = timer_ok s"
  "deadline_less (set_rtds_queues p r d s) = deadline_less s"
  by (auto simp: set_rtds_queues_def rtds_ready_def rtds_depleted_def deadline_less_def fun_eq_iff)

lemma rtds_queues_machine [simp]:
  "rtds_ready q (tick_read s) = rtds_ready q s" "rtds_depleted q (tick_read s) = rtds_depleted q s"
  "rtds_ready q (del_timer tr s) = rtds_ready q s" "rtds_depleted q (del_timer tr s) = rtds_depleted q s"
  "rtds_ready q (update_timer tr d k s) = rtds_ready q s"
  "rtds_depleted q (update_timer tr d k s) = rtds_depleted q s"
  "rtds_ready q (snd (add_timer tr s)) = rtds_ready q s"
  "rtds_depleted q (snd (add_timer tr s)) = rtds_depleted q s"
  "rtds_ready q (assertion b m s) = rtds_ready q s" "rtds_depleted q (assertion b m s) = rtds_depleted q s"
  "rtds_ready q (s\<lparr>fault := x\<rparr>) = rtds_ready q s" "rtds_depleted q (s\<lparr>fault := x\<rparr>) = rtds_depleted q s"
  by (simp_all add: rtds_ready_def rtds_depleted_def)

lemma rtds_prim_frames [simp, intro]:
  "hook_frame s (upd_rtds t f s)" "hook_frame s (set_rtds_queues p r d s)"
  by (auto simp: upd_rtds_def set_rtds_queues_def intro!: hook_frame_upd_thread)

lemmas rtds_prim_steps = hook_frame_steps rtds_prim_frames [THEN hook_frame_trans [rotated]]

lemma rtds_remove_frames [simp, intro]:
  "hook_frame s (rtds_queue_remove t s)" "timer_ok (rtds_queue_remove t s) = timer_ok s"
  by (auto simp: rtds_queue_remove_def Let_def intro!: rtds_prim_steps split: option.split)

lemmas rtds_remove_steps = rtds_prim_steps rtds_remove_frames(1) [THEN hook_frame_trans [rotated]]

lemma rtds_insert_frames [simp, intro]:
  "hook_frame s (rtds_ready_insert t s)" "timer_ok s \<Longrightarrow> timer_ok (rtds_ready_insert t s)"
  "hook_frame s (rtds_depleted_insert t s)" "timer_ok s \<Longrightarrow> timer_ok (rtds_depleted_insert t s)"
  unfolding rtds_ready_insert_def rtds_depleted_insert_def Let_def
  by (intro hook_frame_with_ctl timer_ok_with_ctl hook_frame_if rtds_remove_steps hook_frame_refl;
      simp add: rtds_remove_frames)+

lemmas rtds_steps = rtds_remove_steps rtds_insert_frames(1,3) [THEN hook_frame_trans [rotated]]

lemma rtds_account_frames [simp, intro]:
  "hook_frame s (rtds_account_runtime t now s)" "timer_ok (rtds_account_runtime t now s) = timer_ok s"
  by (auto simp: rtds_account_runtime_def)

lemma rtds_refresh_frames [simp, intro]:
  "hook_frame s (rtds_refresh_thread now t s)" "timer_ok s \<Longrightarrow> timer_ok (rtds_refresh_thread now t s)"
proof -
  show "hook_frame s (rtds_refresh_thread now t s)"
    unfolding rtds_refresh_thread_def Let_def
    by (rule hook_frame_trans [OF rtds_prim_frames(1) [of _ t "\<lambda>d. snd (rtds_advance_period now d)"]],
        rule hook_frame_if, simp, rule hook_frame_with_ctl) simp
qed (auto simp: rtds_refresh_thread_def Let_def intro!: timer_ok_with_ctl)

lemma rtds_refresh_ready_frames [simp, intro]:
  "hook_frame s (rtds_refresh_ready now t s)" "timer_ok s \<Longrightarrow> timer_ok (rtds_refresh_ready now t s)"
  unfolding rtds_refresh_ready_def Let_def split_def
  by (intro hook_frame_if rtds_steps rtds_refresh_frames(1) [THEN hook_frame_trans [rotated]] hook_frame_refl) simp

lemma rtds_refresh_queues_frames [simp, intro]:
  "hook_frame s (rtds_refresh_queues c now s)" "timer_ok s \<Longrightarrow> timer_ok (rtds_refresh_queues c now s)"
proof -
  have 1: "hook_frame s (or_diverges s (for_each_safe q (rtds_refresh_ready now) s))"
    and 2: "hook_frame s (or_diverges s (for_each_safe q (rtds_refresh_thread now) s))" for q s
    by (rule hook_frame_or_diverges, erule for_each_safe_keeps; auto intro: hook_frame_trans)+
  have 3: "timer_ok (or_diverges s (for_each_safe q (rtds_refresh_ready now) s))"
    and 4: "timer_ok (or_diverges s (for_each_safe q (rtds_refresh_thread now) s))" if "timer_ok s" for q s
    by (rule timer_ok_or_diverges [OF that], erule for_each_safe_keeps [where P = timer_ok]; use that in auto)+
  show "hook_frame s (rtds_refresh_queues c now s)"
    unfolding rtds_refresh_queues_def Let_def by (rule hook_frame_trans [OF 1 2])
  show "timer_ok (rtds_refresh_queues c now s)" if "timer_ok s"
    unfolding rtds_refresh_queues_def Let_def by (rule 4, rule 3, rule that)
qed

lemma rtds_settle_frames [simp, intro]:
  "hook_frame s (rtds_settle_current c now s)" "timer_ok s \<Longrightarrow> timer_ok (rtds_settle_current c now s)"
  by (auto simp: rtds_settle_current_def intro: hook_frame_trans split: option.split)

lemma rtds_program_timer_frames [simp, intro]:
  "hook_frame s (rtds_program_timer c r s)" "timer_ok s \<Longrightarrow> timer_ok (rtds_program_timer c r s)"
  "threads (rtds_program_timer c r s) = threads s"
  "rtds_ready q (rtds_program_timer c r s) = rtds_ready q s"
  "rtds_depleted q (rtds_program_timer c r s) = rtds_depleted q s"
  by (auto simp: rtds_program_timer_def rtds_program_local_timer_def Let_def
      intro!: rtds_prim_steps timer_ok_arm timer_ok_del timer_ok_assertion del_timer_stops)

lemma rtds_timer_handler_frames:
  "timer_ok s \<Longrightarrow> timer_ok (rtds_timer_handler c s)" "cur_pcpu (rtds_timer_handler c s) = cur_pcpu s"
proof -
  have F: "hook_frame s' (rtds_refresh_queues c now (rtds_settle_current c now s'))" for s' now
    by (rule hook_frame_trans [OF rtds_settle_frames(1) rtds_refresh_queues_frames(1)])
  have "timer_ok (make_reschedule_request p s') = timer_ok s'" for p s'
    by (rule policy_same_timer_ok) simp
  then show "timer_ok s \<Longrightarrow> timer_ok (rtds_timer_handler c s)"
    by (simp add: rtds_timer_handler_def Let_def sched_account_tick_def
        rtds_settle_frames rtds_refresh_queues_frames)
  show "cur_pcpu (rtds_timer_handler c s) = cur_pcpu s"
    by (simp add: rtds_timer_handler_def Let_def sched_account_tick_def hook_frameD(14) [OF F])
qed

section \<open>The queues\<close>

text \<open>
  \<open>rtds_linked\<close>: a node hangs on the queue its \<open>queue\<close> field names, and on no other. \<open>rtds_step p t\<close>:
  the operation moved or changed no thread but \<open>t\<close>.
\<close>

definition rtds_linked :: "nat \<Rightarrow> sched_sys \<Rightarrow> bool" where
  "rtds_linked p s \<longleftrightarrow>
     distinct (rtds_rq p s)
     \<and> (\<forall>t. sched_ctl (threads s t) = Some p \<longrightarrow>
          rtds_queue (rtds t s) =
            (if t \<in> set (rtds_ready p s) then RTDS_QUEUE_READY
             else if t \<in> set (rtds_depleted p s) then RTDS_QUEUE_DEPLETED else RTDS_QUEUE_NONE))"

definition rtds_step :: "nat \<Rightarrow> thread_ref \<Rightarrow> sched_sys \<Rightarrow> sched_sys \<Rightarrow> bool" where
  "rtds_step p t s s' \<longleftrightarrow>
     rtds_linked p s' \<and> hook_frame s s'
     \<and> remove1 t (rtds_ready p s') = remove1 t (rtds_ready p s)
     \<and> remove1 t (rtds_depleted p s') = remove1 t (rtds_depleted p s)
     \<and> (\<forall>u. u \<noteq> t \<longrightarrow> rtds u s' = rtds u s)"

lemma rtds_step_trans: "rtds_step p t s s' \<Longrightarrow> rtds_step p t s' s'' \<Longrightarrow> rtds_step p t s s''"
  by (auto simp: rtds_step_def intro: hook_frame_trans)

lemma rtds_step_upd:
  assumes "rtds_linked p s" and "\<And>d. rtds_queue (f d) = rtds_queue d"
  shows "rtds_step p t s (upd_rtds t f s)"
  using assms by (auto simp: rtds_step_def rtds_linked_def rtds_rq_def)

definition rtds_place ::
  "nat \<Rightarrow> thread_ref \<Rightarrow> thread_ref list \<Rightarrow> thread_ref list \<Rightarrow> sched_sys \<Rightarrow> sched_sys" where
  "rtds_place p t r d s =
     upd_rtds t (\<lambda>x. x\<lparr>rtds_queue := (if t \<in> set r then RTDS_QUEUE_READY
        else if t \<in> set d then RTDS_QUEUE_DEPLETED else RTDS_QUEUE_NONE)\<rparr>) (set_rtds_queues p r d s)"

lemma rtds_place_simps [simp]:
  "rtds_ready p (rtds_place p t r d s) = r" "rtds_depleted p (rtds_place p t r d s) = d"
  "sched_ctl (threads (rtds_place p t r d s) u) = sched_ctl (threads s u)"
  "rtds_deadline_ticks (rtds u (rtds_place p t r d s)) = rtds_deadline_ticks (rtds u s)"
  "rtds_remaining_ticks (rtds u (rtds_place p t r d s)) = rtds_remaining_ticks (rtds u s)"
  "rtds_budget_ticks (rtds u (rtds_place p t r d s)) = rtds_budget_ticks (rtds u s)"
  "rtds_period_ticks (rtds u (rtds_place p t r d s)) = rtds_period_ticks (rtds u s)"
  "deadline_less (rtds_place p t r d s) = deadline_less s"
  by (auto simp: rtds_place_def deadline_less_def fun_eq_iff)

lemma rtds_place_frame [simp, intro]: "hook_frame s (rtds_place p t r d s)"
  unfolding rtds_place_def by (intro rtds_prim_steps hook_frame_refl)

lemma rtds_step_place:
  assumes "rtds_linked p s" and "distinct (r @ d)"
    and "remove1 t r = remove1 t (rtds_ready p s)" and "remove1 t d = remove1 t (rtds_depleted p s)"
  shows "rtds_step p t s (rtds_place p t r d s)"
proof -
  have mem: "u \<in> set r \<longleftrightarrow> u \<in> set (rtds_ready p s)" "u \<in> set d \<longleftrightarrow> u \<in> set (rtds_depleted p s)" if "u \<noteq> t" for u
    using assms(3,4) that in_set_remove1 [of u t] by metis+
  have q: "rtds_queue (rtds u (rtds_place p t r d s)) = (if u = t then
      (if t \<in> set r then RTDS_QUEUE_READY else if t \<in> set d then RTDS_QUEUE_DEPLETED else RTDS_QUEUE_NONE)
      else rtds_queue (rtds u s))" for u by (simp add: rtds_place_def)
  have o: "rtds u (rtds_place p t r d s) = rtds u s" if "u \<noteq> t" for u using that by (simp add: rtds_place_def)
  show ?thesis using assms mem o by (simp add: rtds_step_def rtds_linked_def rtds_rq_def q)
qed

lemma upd_rtds_same: "f (rtds t s) = rtds t s \<Longrightarrow> upd_rtds t f s = s"
  by (simp add: upd_rtds_def upd_thread_def)

lemma set_rtds_queues_same: "set_rtds_queues p (rtds_ready p s) (rtds_depleted p s) s = s"
  by (simp add: set_rtds_queues_def rtds_ready_def rtds_depleted_def)

lemma rtds_place_place:
  "rtds_place p t r d (rtds_place p t r' d' s) = rtds_place p t r d s"
  by (simp add: rtds_place_def set_rtds_queues_def upd_rtds_def upd_thread_def)

lemma rtds_linked_queue:
  assumes "rtds_linked p s" and "sched_ctl (threads s t) = Some p"
  shows "rtds_queue (rtds t s) = RTDS_QUEUE_READY \<longleftrightarrow> t \<in> set (rtds_ready p s)"
    and "rtds_queue (rtds t s) = RTDS_QUEUE_DEPLETED \<longleftrightarrow> t \<in> set (rtds_depleted p s)"
    and "rtds_queue (rtds t s) = RTDS_QUEUE_NONE \<longleftrightarrow> t \<notin> set (rtds_rq p s)"
  using assms by (auto simp: rtds_linked_def rtds_rq_def)

lemma rtds_queue_remove_place:
  assumes L: "rtds_linked p s" and c: "sched_ctl (threads s t) = Some p"
  shows "rtds_queue_remove t s = rtds_place p t (remove1 t (rtds_ready p s)) (remove1 t (rtds_depleted p s)) s"
proof (cases "t \<in> set (rtds_rq p s)")
  case True
  have "t \<notin> set (remove1 t (rtds_ready p s))" "t \<notin> set (remove1 t (rtds_depleted p s))"
    using L by (auto simp: rtds_linked_def rtds_rq_def)
  then show ?thesis using True c rtds_linked_queue(3) [OF L c]
    by (simp add: rtds_queue_remove_def rtds_is_queued_def rtds_place_def)
next
  case False
  then have q: "rtds_queue (rtds t s) = RTDS_QUEUE_NONE" using rtds_linked_queue(3) [OF L c] by simp
  from False have "remove1 t (rtds_ready p s) = rtds_ready p s" "remove1 t (rtds_depleted p s) = rtds_depleted p s"
    "t \<notin> set (rtds_ready p s)" "t \<notin> set (rtds_depleted p s)"
    by (auto simp: rtds_rq_def remove1_idem)
  then show ?thesis using q
    by (simp add: rtds_queue_remove_def rtds_is_queued_def rtds_place_def set_rtds_queues_same upd_rtds_same)
qed

lemma rtds_ready_insert_place:
  assumes L: "rtds_linked p s" and c: "sched_ctl (threads s t) = Some p"
  shows "rtds_ready_insert t s = rtds_place p t
    (insert_before (deadline_less s t) t (remove1 t (rtds_ready p s))) (remove1 t (rtds_depleted p s)) s"
proof -
  define s1 where "s1 = rtds_queue_remove t s"
  have eq: "(if rtds_queue (rtds t s) \<noteq> RTDS_QUEUE_NONE then rtds_queue_remove t s else s) = s1"
    by (simp add: s1_def rtds_queue_remove_def rtds_is_queued_def)
  have s1: "s1 = rtds_place p t (remove1 t (rtds_ready p s)) (remove1 t (rtds_depleted p s)) s"
    using rtds_queue_remove_place [OF L c] by (simp add: s1_def)
  have "rtds_ready_insert t s = rtds_place p t (insert_before (deadline_less s1 t) t (rtds_ready p s1)) (rtds_depleted p s1) s1"
    using c by (simp only: rtds_ready_insert_def with_ctl_Some Let_def eq) (simp add: rtds_place_def)
  then show ?thesis by (simp add: s1 rtds_place_place)
qed

lemma rtds_depleted_insert_place:
  assumes L: "rtds_linked p s" and c: "sched_ctl (threads s t) = Some p"
  shows "rtds_depleted_insert t s = (if t \<in> set (rtds_depleted p s) then s
    else rtds_place p t (remove1 t (rtds_ready p s)) (rtds_depleted p s @ [t]) s)"
proof (cases "t \<in> set (rtds_depleted p s)")
  case True
  then show ?thesis using c rtds_linked_queue(2) [OF L c] by (simp add: rtds_depleted_insert_def)
next
  case False
  then have q: "rtds_queue (rtds t s) \<noteq> RTDS_QUEUE_DEPLETED" and d: "remove1 t (rtds_depleted p s) = rtds_depleted p s"
    using rtds_linked_queue(2) [OF L c] by (auto simp: remove1_idem)
  define s1 where "s1 = rtds_queue_remove t s"
  have eq: "(if rtds_queue (rtds t s) = RTDS_QUEUE_READY then rtds_queue_remove t s else s) = s1"
    using q by (cases "rtds_queue (rtds t s)") (simp_all add: s1_def rtds_queue_remove_def rtds_is_queued_def)
  have s1: "s1 = rtds_place p t (remove1 t (rtds_ready p s)) (rtds_depleted p s) s"
    using rtds_queue_remove_place [OF L c] d by (simp add: s1_def)
  then have "t \<notin> set (rtds_ready p s1)" using L by (simp add: rtds_linked_def rtds_rq_def)
  then have "rtds_depleted_insert t s = rtds_place p t (rtds_ready p s1) (rtds_depleted p s1 @ [t]) s1"
    using c q by (simp only: rtds_depleted_insert_def with_ctl_Some Let_def eq) (simp add: rtds_place_def)
  then show ?thesis using False by (simp add: s1 rtds_place_place)
qed

lemma rtds_is_active_frame: "hook_frame s s' \<Longrightarrow> rtds_is_active t s' = rtds_is_active t s"
  by (auto simp: rtds_is_active_def rtds_is_current_def hook_frameD split: option.splits)

section \<open>Servers\<close>

definition rtds_server :: "sched_rtds_data \<Rightarrow> bool" where
  "rtds_server d \<longleftrightarrow> 0 < rtds_budget_ticks d \<and> rtds_budget_ticks d \<le> rtds_period_ticks d
     \<and> rtds_remaining_ticks d \<le> rtds_budget_ticks d"

definition rtds_wf :: "nat \<Rightarrow> sched_sys \<Rightarrow> bool" where
  "rtds_wf p s \<longleftrightarrow>
     rtds_linked p s \<and> (\<forall>t. managed p t s \<longrightarrow> rtds_server (rtds t s))
     \<and> (\<forall>t \<in> set (rtds_ready p s). 0 < rtds_remaining_ticks (rtds t s))"

lemma rtds_advance_simps [simp]:
  "fst (rtds_advance_period now d) \<longleftrightarrow> rtds_deadline_ticks d \<le> now"
  "rtds_queue (snd (rtds_advance_period now d)) = rtds_queue d"
  "rtds_server d \<Longrightarrow> rtds_server (snd (rtds_advance_period now d))"
  "\<not> rtds_deadline_ticks d \<le> now \<Longrightarrow> rtds_advance_period now d = (False, d)"
  by (auto simp: rtds_advance_period_def rtds_server_def Let_def)

lemma rtds_charge_simps [simp]:
  "rtds_queue (rtds_charge now d) = rtds_queue d"
  "rtds_deadline_ticks (rtds_charge now d) = rtds_deadline_ticks d"
  "rtds_budget_ticks (rtds_charge now d) = rtds_budget_ticks d"
  "rtds_period_ticks (rtds_charge now d) = rtds_period_ticks d"
  "unat (rtds_remaining_ticks (rtds_charge now d))
     = unat (rtds_remaining_ticks d) - unat (now - rtds_last_start_ticks d)"
  by (auto simp: rtds_charge_def Let_def word_le_nat_alt word_less_nat_alt unat_sub_if')

lemma rtds_charge_server [simp]: "rtds_server d \<Longrightarrow> rtds_server (rtds_charge now d)"
  by (auto simp: rtds_server_def word_le_nat_alt)

lemma rtds_wf_cong:
  assumes "threads s' = threads s" and "rtds_ready p s' = rtds_ready p s" and "rtds_depleted p s' = rtds_depleted p s"
  shows "rtds_wf p s' = rtds_wf p s"
  using assms by (simp add: rtds_wf_def rtds_linked_def rtds_rq_def managed_def)

lemma rtds_wf_tick_read [simp]: "rtds_wf p (tick_read s) = rtds_wf p s"
  by (rule rtds_wf_cong) simp_all

lemma rtds_wf_upd:
  assumes "rtds_wf p s" and "\<And>d. rtds_queue (f d) = rtds_queue d"
    and "\<And>d. rtds_remaining_ticks (f d) = rtds_remaining_ticks d"
    and "\<And>d. rtds_budget_ticks (f d) = rtds_budget_ticks d" and "\<And>d. rtds_period_ticks (f d) = rtds_period_ticks d"
  shows "rtds_wf p (upd_rtds t f s)"
  using assms by (auto simp: rtds_wf_def rtds_linked_def rtds_rq_def managed_def rtds_server_def)

lemma rtds_server_remove [simp]: "rtds_server (rtds u (rtds_queue_remove t s)) = rtds_server (rtds u s)"
  by (simp add: rtds_queue_remove_def Let_def rtds_server_def split: option.split)

interpretation deadline_order: queue_order "deadline_less s" for s
  by unfold_locales (auto simp: deadline_less_def)

lemma deadline_less_other:
  "\<forall>u. u \<noteq> t \<longrightarrow> rtds u s' = rtds u s \<Longrightarrow> x \<noteq> t \<Longrightarrow> y \<noteq> t \<Longrightarrow> deadline_less s' x y = deadline_less s x y"
  by (simp add: deadline_less_def)

lemma rtds_step_order:
  assumes "rtds_step p t s s'"
  shows "in_order (deadline_less s') (remove1 t (rtds_ready p s'))
    = in_order (deadline_less s) (remove1 t (rtds_ready p s'))"
proof -
  have "distinct (rtds_ready p s')" using assms by (simp add: rtds_step_def rtds_linked_def rtds_rq_def)
  then have "t \<notin> set (remove1 t (rtds_ready p s'))" by simp
  then show ?thesis
    using assms by (intro in_order_cong deadline_less_other [of t]) (auto simp: rtds_step_def)
qed

lemma rtds_step_mem:
  "rtds_step p t s s' \<Longrightarrow> u \<noteq> t \<Longrightarrow> u \<in> set (rtds_ready p s') \<longleftrightarrow> u \<in> set (rtds_ready p s)"
  "rtds_step p t s s' \<Longrightarrow> u \<noteq> t \<Longrightarrow> u \<in> set (rtds_depleted p s') \<longleftrightarrow> u \<in> set (rtds_depleted p s)"
  unfolding rtds_step_def by (metis in_set_remove1)+

text \<open>What putting \<open>t\<close> onto the queue of its budget gives.\<close>

definition rtds_enqueued :: "nat \<Rightarrow> thread_ref \<Rightarrow> sched_sys \<Rightarrow> sched_sys \<Rightarrow> bool" where
  "rtds_enqueued p t s s' \<longleftrightarrow>
     rtds_step p t s s' \<and> rtds_wf p s' \<and> t \<in> set (rtds_rq p s')
     \<and> (in_order (deadline_less s) (remove1 t (rtds_ready p s)) \<longrightarrow> in_order (deadline_less s') (rtds_ready p s'))"

lemma rtds_enqueue:
  assumes L: "rtds_linked p s" and c: "sched_ctl (threads s t) = Some p"
    and srv: "\<forall>u. managed p u s \<longrightarrow> rtds_server (rtds u s)"
    and rem: "\<forall>u \<in> set (rtds_ready p s). u \<noteq> t \<longrightarrow> 0 < rtds_remaining_ticks (rtds u s)"
  shows "0 < rtds_remaining_ticks (rtds t s) \<Longrightarrow> rtds_enqueued p t s (rtds_ready_insert t s)"
    and "rtds_remaining_ticks (rtds t s) = 0 \<Longrightarrow> rtds_enqueued p t s (rtds_depleted_insert t s)"
proof -
  have d: "distinct (rtds_ready p s)" "distinct (rtds_depleted p s)"
      "set (rtds_ready p s) \<inter> set (rtds_depleted p s) = {}"
    using L by (auto simp: rtds_linked_def rtds_rq_def)
  have srv': "\<forall>u. managed p u (rtds_place p t r e s) \<longrightarrow> rtds_server (rtds u (rtds_place p t r e s))" for r e
    using srv by (simp add: rtds_server_def managed_frame [OF rtds_place_frame])
  show "rtds_enqueued p t s (rtds_ready_insert t s)" if "0 < rtds_remaining_ticks (rtds t s)"
  proof -
    let ?r = "insert_before (deadline_less s t) t (remove1 t (rtds_ready p s))" and ?d = "remove1 t (rtds_depleted p s)"
    have "rtds_step p t s (rtds_place p t ?r ?d s)"
      using d by (intro rtds_step_place [OF L]) (auto simp: remove1_insert_before remove1_idem dest: notin_set_remove1)
    then show ?thesis unfolding rtds_enqueued_def rtds_ready_insert_place [OF L c]
      using that rem d srv' deadline_order.order_insert
      by (auto simp: rtds_step_def rtds_wf_def rtds_rq_def)
  qed
  show "rtds_enqueued p t s (rtds_depleted_insert t s)" if "rtds_remaining_ticks (rtds t s) = 0"
  proof (cases "t \<in> set (rtds_depleted p s)")
    case True
    then have n: "t \<notin> set (rtds_ready p s)" using d by auto
    then show ?thesis unfolding rtds_enqueued_def rtds_depleted_insert_place [OF L c]
      using True L rem srv by (auto simp: rtds_step_def rtds_wf_def rtds_rq_def remove1_idem)
  next
    case False
    have "rtds_step p t s (rtds_place p t (remove1 t (rtds_ready p s)) (rtds_depleted p s @ [t]) s)"
      using d False by (intro rtds_step_place [OF L]) (auto simp: remove1_append remove1_idem)
    then show ?thesis unfolding rtds_enqueued_def rtds_depleted_insert_place [OF L c]
      using False rem d srv' by (auto simp: rtds_step_def rtds_wf_def rtds_rq_def)
  qed
qed

lemma rtds_enqueued_after:
  assumes "rtds_step p t s s1" and "rtds_enqueued p t s1 s'"
  shows "rtds_enqueued p t s s'"
  using assms rtds_step_order [OF assms(1)] rtds_step_trans [OF assms(1)]
  by (auto simp: rtds_enqueued_def rtds_step_def)

lemma rtds_enqueued_set: "rtds_enqueued p t s s' \<Longrightarrow> set (rtds_rq p s') = insert t (set (rtds_rq p s))"
proof (rule set_eqI)
  fix u assume "rtds_enqueued p t s s'"
  then show "u \<in> set (rtds_rq p s') \<longleftrightarrow> u \<in> insert t (set (rtds_rq p s))"
    using rtds_step_mem [of p t s s' u] by (cases "u = t") (simp_all add: rtds_enqueued_def rtds_rq_def)
qed

lemma rtds_refresh_thread_enqueues:
  assumes L: "rtds_linked p s" and m: "managed p t s"
    and srv: "\<forall>u. managed p u s \<longrightarrow> rtds_server (rtds u s)"
    and rem: "\<forall>u \<in> set (rtds_ready p s). u \<noteq> t \<longrightarrow> 0 < rtds_remaining_ticks (rtds u s)"
    and act: "rtds_is_active t s" "\<not> be_blocking (threads s t)"
  shows "rtds_enqueued p t s (rtds_refresh_thread now t s)"
proof -
  define s1 where "s1 = upd_rtds t (\<lambda>d. snd (rtds_advance_period now d)) s"
  have st: "rtds_step p t s s1" unfolding s1_def by (rule rtds_step_upd [OF L]) simp
  have c: "sched_ctl (threads s1 t) = Some p" using m by (simp add: s1_def managed_def)
  have L1: "rtds_linked p s1" using st by (simp add: rtds_step_def)
  have srv1: "\<forall>u. managed p u s1 \<longrightarrow> rtds_server (rtds u s1)" using srv by (auto simp: s1_def managed_def)
  have rem1: "\<forall>u \<in> set (rtds_ready p s1). u \<noteq> t \<longrightarrow> 0 < rtds_remaining_ticks (rtds u s1)"
    using rem by (simp add: s1_def)
  have a1: "rtds_is_active t s1" "\<not> be_blocking (threads s1 t)" "\<not> is_idle_thread t s1"
    using act st by (auto simp: rtds_step_def rtds_is_active_frame hook_frameD) (simp add: rtds_is_active_def)
  have "rtds_refresh_thread now t s
      = (if 0 < rtds_remaining_ticks (rtds t s1) then rtds_ready_insert t s1 else rtds_depleted_insert t s1)"
    using a1 c by (simp add: rtds_refresh_thread_def s1_def)
  with rtds_enqueue [OF L1 c srv1 rem1] have "rtds_enqueued p t s1 (rtds_refresh_thread now t s)"
    by (auto simp: word_gt_0)
  with st show ?thesis by (rule rtds_enqueued_after)
qed

section \<open>Refreshing the queues\<close>

lemma rtds_eligible_active:
  assumes "base_inv p s" and "eligible p t s"
  shows "rtds_is_active t s" and "\<not> be_blocking (threads s t)"
  using assms not_idle_managed [of p t s]
  by (cases "status (threads s t)";
      auto simp: rtds_is_active_def rtds_is_current_def eligible_def managed_def base_inv_def is_blocked_def is_running_def)+

text \<open>\<open>rtds_same p s s'\<close>: the queues hold the same threads, in order of deadline if they were.\<close>

definition rtds_same :: "bool \<Rightarrow> nat \<Rightarrow> sched_sys \<Rightarrow> sched_sys \<Rightarrow> bool" where
  "rtds_same srt p s s' \<longleftrightarrow>
     hook_frame s s' \<and> rtds_wf p s' \<and> set (rtds_rq p s') = set (rtds_rq p s)
     \<and> (srt \<longrightarrow> in_order (deadline_less s') (rtds_ready p s'))"

lemma rtds_same_body:
  assumes B: "base_inv p s" and Q: "queue_inv (rtds_rq p s) p s" and S: "rtds_same srt p s s'"
    and x: "x \<in> set (rtds_rq p s')"
  shows "rtds_same srt p s (rtds_refresh_thread now x s')" and "rtds_step p x s' (rtds_refresh_thread now x s')"
    and "rtds_same srt p s (rtds_refresh_ready now x s')" and "rtds_step p x s' (rtds_refresh_ready now x s')"
proof -
  have F: "hook_frame s s'" and W: "rtds_wf p s'" using S by (simp_all add: rtds_same_def)
  have e: "eligible p x s" using S x Q by (auto simp: rtds_same_def queue_inv_def)
  have m: "managed p x s'" using e F by (simp add: managed_frame eligible_def)
  have act: "rtds_is_active x s'" "\<not> be_blocking (threads s' x)"
    using rtds_eligible_active [OF B e] F by (simp_all add: rtds_is_active_frame hook_frameD)
  have L: "rtds_linked p s'" and srv: "\<forall>u. managed p u s' \<longrightarrow> rtds_server (rtds u s')"
    and rem: "\<forall>u \<in> set (rtds_ready p s'). u \<noteq> x \<longrightarrow> 0 < rtds_remaining_ticks (rtds u s')"
    using W by (simp_all add: rtds_wf_def)
  have fin: "rtds_same srt p s r \<and> rtds_step p x s' r" if E: "rtds_enqueued p x s' r" for r
  proof -
    have "hook_frame s r" using E F by (auto simp: rtds_enqueued_def rtds_step_def intro: hook_frame_trans)
    moreover have "set (rtds_rq p r) = set (rtds_rq p s)"
      using rtds_enqueued_set [OF E] S x by (auto simp: rtds_same_def)
    moreover have "in_order (deadline_less r) (rtds_ready p r)" if srt
      using E S that deadline_order.order_remove by (auto simp: rtds_enqueued_def rtds_same_def)
    ultimately show ?thesis using E by (simp add: rtds_same_def rtds_enqueued_def)
  qed
  note E = rtds_refresh_thread_enqueues [OF L m srv rem act, of now]
  from fin [OF E] show "rtds_same srt p s (rtds_refresh_thread now x s')" "rtds_step p x s' (rtds_refresh_thread now x s')" by auto
  have "rtds_same srt p s (rtds_refresh_ready now x s') \<and> rtds_step p x s' (rtds_refresh_ready now x s')"
  proof (cases "rtds_deadline_ticks (rtds x s') \<le> now")
    case False
    then have "rtds_refresh_ready now x s' = s'" by (simp add: rtds_refresh_ready_def upd_rtds_same)
    then show ?thesis using S L by (simp add: rtds_step_def)
  next
    case True
    define s1 where "s1 = upd_rtds x (\<lambda>_. snd (rtds_advance_period now (rtds x s'))) s'"
    define s2 where "s2 = rtds_queue_remove x s1"
    have s1: "s1 = upd_rtds x (\<lambda>d. snd (rtds_advance_period now d)) s'"
      by (simp add: s1_def upd_rtds_def upd_thread_def)
    have st1: "rtds_step p x s' s1" unfolding s1 by (rule rtds_step_upd [OF L]) simp
    then have L1: "rtds_linked p s1" by (simp add: rtds_step_def)
    have c: "sched_ctl (threads s1 x) = Some p" using m by (simp add: s1 managed_def)
    have "rtds_step p x s1 s2" using L1 unfolding s2_def rtds_queue_remove_place [OF L1 c]
      by (intro rtds_step_place) (auto simp: rtds_linked_def rtds_rq_def remove1_idem dest: notin_set_remove1)
    with st1 have st: "rtds_step p x s' s2" by (rule rtds_step_trans)
    have F2: "hook_frame s' s2" and L2: "rtds_linked p s2" using st by (simp_all add: rtds_step_def)
    have "rtds_server (rtds u s2)" if "managed p u s2" for u
      using that srv unfolding managed_frame [OF F2] by (auto simp: s2_def s1)
    moreover have "0 < rtds_remaining_ticks (rtds u s2)" if "u \<in> set (rtds_ready p s2)" "u \<noteq> x" for u
      using that rem st rtds_step_mem(1) [OF st that(2)] by (auto simp: rtds_step_def)
    moreover have "rtds_is_active x s2" "\<not> be_blocking (threads s2 x)" "managed p x s2"
      using act m F2 by (simp_all add: rtds_is_active_frame hook_frameD managed_frame)
    ultimately have "rtds_enqueued p x s' (rtds_refresh_thread now x s2)"
      by (intro rtds_enqueued_after [OF st] rtds_refresh_thread_enqueues L2) auto
    moreover have "rtds_refresh_ready now x s' = rtds_refresh_thread now x s2"
      using True by (simp add: rtds_refresh_ready_def s2_def s1_def split_def Let_def)
    ultimately show ?thesis using fin by simp
  qed
  then show "rtds_same srt p s (rtds_refresh_ready now x s')" "rtds_step p x s' (rtds_refresh_ready now x s')" by auto
qed

lemma rtds_same_distinct:
  "rtds_same srt p s s' \<Longrightarrow> distinct (rtds_ready p s') \<and> distinct (rtds_depleted p s')"
  by (simp add: rtds_same_def rtds_wf_def rtds_linked_def rtds_rq_def)

lemma rtds_same_diverges:
  "rtds_same srt p s s' \<Longrightarrow> rtds_same srt p s (or_diverges s' None)"
proof -
  assume S: "rtds_same srt p s s'"
  have "rtds_wf p (s'\<lparr>fault := x\<rparr>) = rtds_wf p s'" "deadline_less (s'\<lparr>fault := x\<rparr>) = deadline_less s'"
    "rtds_rq p (s'\<lparr>fault := x\<rparr>) = rtds_rq p s'" for x
    by (rule rtds_wf_cong) (simp_all add: deadline_less_def fun_eq_iff rtds_rq_def)
  moreover have "hook_frame s (or_diverges s' None)"
    using S by (intro hook_frame_trans [OF _ hook_frame_or_diverges]) (simp_all add: rtds_same_def)
  ultimately show ?thesis using S by (cases "fault s' = None") (auto simp: rtds_same_def)
qed

lemma rtds_refresh_queues_same:
  assumes B: "base_inv p s" and Q: "queue_inv (rtds_rq p s) p s" and S: "rtds_same srt p s s'"
  shows "rtds_same srt p s (rtds_refresh_queues p now s')"
proof -
  have loop: "rtds_same srt p s (or_diverges s1 (for_each_safe q body s1))"
    if q: "q = rtds_ready p \<and> body = rtds_refresh_ready now \<or> q = rtds_depleted p \<and> body = rtds_refresh_thread now"
      and S1: "rtds_same srt p s s1" for q body s1
  proof (cases "for_each_safe q body s1")
    case (Some s2)
    have "rtds_same srt p s s2"
    proof (rule for_each_safe_invariant [OF Some, where P = "rtds_same srt p s"])
      fix x y s3 assume "rtds_same srt p s s3" and x: "x \<in> set (q s3)"
      note b = rtds_same_body [OF B Q this(1), of x now]
      show "rtds_same srt p s (body x s3)" using b q x by (auto simp: rtds_rq_def)
      show "y \<in> set (q (body x s3))" if "y \<in> set (q s3)" "y \<noteq> x"
        using b q x that rtds_step_mem [of p x s3 "body x s3" y] by (auto simp: rtds_rq_def)
    qed (use q S1 rtds_same_distinct in auto)
    then show ?thesis using Some by simp
  qed (use rtds_same_diverges [OF S1] in simp)
  show ?thesis unfolding rtds_refresh_queues_def Let_def
    by (rule loop, blast, rule loop, blast, rule S)
qed

section \<open>Choosing the next server\<close>

lemma rtds_account_step:
  assumes "rtds_wf p s"
  shows "rtds_step p t s (rtds_account_runtime t now s)"
    and "\<forall>u. managed p u (rtds_account_runtime t now s) \<longrightarrow> rtds_server (rtds u (rtds_account_runtime t now s))"
    and "\<forall>u \<in> set (rtds_ready p (rtds_account_runtime t now s)). u \<noteq> t
           \<longrightarrow> 0 < rtds_remaining_ticks (rtds u (rtds_account_runtime t now s))"
proof -
  have L: "rtds_linked p s" using assms by (simp add: rtds_wf_def)
  show "rtds_step p t s (rtds_account_runtime t now s)"
    using L rtds_step_upd [OF L, of "rtds_charge now" t] by (simp add: rtds_account_runtime_def) (simp add: rtds_step_def)
qed (use assms in \<open>auto simp: rtds_account_runtime_def rtds_wf_def managed_def\<close>)

lemma rtds_settle_current:
  assumes B: "base_inv p s" and Q: "queue_inv (rtds_rq p s) p s" and W: "rtds_wf p s" and c: "curr p s = Some c"
  shows "rtds_wf p (rtds_settle_current p now s)"
    and "set (rtds_rq p (rtds_settle_current p now s)) = (if eligible p c s then insert c (set (rtds_rq p s)) else set (rtds_rq p s))"
    and "in_order (deadline_less s) (remove1 c (rtds_ready p s)) \<Longrightarrow>
      in_order (deadline_less (rtds_settle_current p now s)) (rtds_ready p (rtds_settle_current p now s))"
proof -
  let ?r = "rtds_settle_current p now s"
  have cc: "c = Idle p \<or> managed p c s" "is_running c s" "is_idle_thread c s \<longleftrightarrow> c = Idle p"
    using base_inv_currE [OF B] c by (metis option.inject)+
  have nq: "c \<notin> set (rtds_rq p s)" if "\<not> eligible p c s" using that Q by (auto simp: queue_inv_def)
  have "rtds_wf p ?r \<and> set (rtds_rq p ?r) = (if eligible p c s then insert c (set (rtds_rq p s)) else set (rtds_rq p s))
    \<and> (in_order (deadline_less s) (remove1 c (rtds_ready p s)) \<longrightarrow> in_order (deadline_less ?r) (rtds_ready p ?r))"
  proof (cases "c = Idle p")
    case True
    then have "\<not> eligible p c s" by (simp add: eligible_def managed_def)
    moreover from nq [OF this] have "remove1 c (rtds_ready p s) = rtds_ready p s" by (simp add: rtds_rq_def remove1_idem)
    ultimately show ?thesis using True c cc W by (simp add: rtds_settle_current_def)
  next
    case False
    then have m: "managed p c s" using cc by simp
    define s1 where "s1 = rtds_account_runtime c now s"
    note A = rtds_account_step [OF W, of c now, folded s1_def]
    have F: "hook_frame s s1" and L1: "rtds_linked p s1" using A(1) by (simp_all add: rtds_step_def)
    have m1: "managed p c s1" using m F by (simp add: managed_frame)
    have r: "?r = rtds_refresh_thread now c s1" using c False cc by (simp add: rtds_settle_current_def s1_def)
    show ?thesis
    proof (cases "be_blocking (threads s c)")
      case False
      then have e: "eligible p c s" using m cc by (simp add: eligible_def is_blocked_def is_running_def)
      have "rtds_is_active c s1" "\<not> be_blocking (threads s1 c)"
        using rtds_eligible_active [OF B e] F by (simp_all add: rtds_is_active_frame hook_frameD)
      then have "rtds_enqueued p c s ?r"
        unfolding r by (intro rtds_enqueued_after [OF A(1)] rtds_refresh_thread_enqueues L1 m1 A(2,3))
      then show ?thesis using e rtds_enqueued_set by (auto simp: rtds_enqueued_def)
    next
      case True
      then have ne: "\<not> eligible p c s" by (simp add: eligible_def)
      have "\<not> rtds_is_active c s1"
        using True cc F by (simp add: rtds_is_active_frame) (simp add: rtds_is_active_def is_running_def)
      then have r': "?r = upd_rtds c (\<lambda>d. snd (rtds_advance_period now d)) s1"
        using m1 rtds_is_active_frame [OF rtds_prim_frames(1)] unfolding r
        by (simp add: rtds_refresh_thread_def Let_def managed_def)
      have st: "rtds_step p c s ?r"
        unfolding r' by (rule rtds_step_trans [OF A(1) rtds_step_upd [OF L1]]) simp
      have ql: "rtds_ready p ?r = rtds_ready p s" "rtds_depleted p ?r = rtds_depleted p s"
        by (auto simp: r' s1_def rtds_account_runtime_def)
      have rm: "remove1 c (rtds_ready p s) = rtds_ready p s" using nq [OF ne] by (simp add: rtds_rq_def remove1_idem)
      have "rtds_wf p ?r"
        using st A(2,3) nq [OF ne] m1 ql unfolding rtds_wf_def rtds_step_def
        by (auto simp: r' managed_def s1_def rtds_rq_def)
      then show ?thesis using ne ql rm rtds_step_order [OF st] by (simp add: rtds_rq_def)
    qed
  qed
  then show "rtds_wf p ?r" "set (rtds_rq p ?r) = (if eligible p c s then insert c (set (rtds_rq p s)) else set (rtds_rq p s))"
    "in_order (deadline_less s) (remove1 c (rtds_ready p s)) \<Longrightarrow> in_order (deadline_less ?r) (rtds_ready p ?r)" by blast+
qed

lemma rtds_best_least:
  "rtds_best s best xs = Some b \<Longrightarrow>
     (best = Some b \<or> b \<in> set xs) \<and> (\<forall>x \<in> set xs \<union> set_option best. \<not> deadline_less s x b)"
proof (induction s best xs rule: rtds_best.induct)
  case (1 s best)
  then show ?case by (simp add: deadline_less_def)
next
  case (2 s best t ts)
  note IH = 2(1) [OF 2(2) [simplified rtds_best.simps(2)]]
  show ?case
  proof (cases best)
    case None
    then show ?thesis using IH by auto
  next
    case (Some y)
    then show ?thesis using IH deadline_order.ahead_negtrans [of s y t b] deadline_order.ahead_negtrans [of s t y b]
      deadline_order.ahead_asym [of s t y] by (auto split: if_splits)
  qed
qed

lemma rtds_best_None: "rtds_best s best xs = None \<longleftrightarrow> best = None \<and> xs = []"
  by (induction s best xs rule: rtds_best.induct) (auto split: option.splits)

lemma rtds_remove_linked:
  assumes L: "rtds_linked p s" and c: "sched_ctl (threads s t) = Some p"
    and srv: "\<forall>u. managed p u s \<longrightarrow> rtds_server (rtds u s)"
    and rem: "\<forall>u \<in> set (rtds_ready p s). u \<noteq> t \<longrightarrow> 0 < rtds_remaining_ticks (rtds u s)"
  shows "rtds_wf p (rtds_queue_remove t s)" and "rtds_step p t s (rtds_queue_remove t s)"
    and "set (rtds_rq p (rtds_queue_remove t s)) = set (rtds_rq p s) - {t}"
    and "rtds_ready p (rtds_queue_remove t s) = remove1 t (rtds_ready p s)"
    and "deadline_less (rtds_queue_remove t s) = deadline_less s"
proof -
  have d: "distinct (rtds_ready p s)" "distinct (rtds_depleted p s)"
      "set (rtds_ready p s) \<inter> set (rtds_depleted p s) = {}"
    using L by (auto simp: rtds_linked_def rtds_rq_def)
  note eq = rtds_queue_remove_place [OF L c]
  show st: "rtds_step p t s (rtds_queue_remove t s)" unfolding eq
    by (rule rtds_step_place [OF L]) (use d in \<open>auto simp: remove1_idem dest: notin_set_remove1\<close>)
  show "set (rtds_rq p (rtds_queue_remove t s)) = set (rtds_rq p s) - {t}"
    using d by (simp add: eq rtds_rq_def Un_Diff)
  show "rtds_wf p (rtds_queue_remove t s)"
    using st srv rem managed_frame [OF rtds_place_frame] d
    by (auto simp: rtds_wf_def rtds_step_def eq rtds_server_def)
  show "rtds_ready p (rtds_queue_remove t s) = remove1 t (rtds_ready p s)"
    "deadline_less (rtds_queue_remove t s) = deadline_less s" by (simp_all add: eq)
qed

lemma rtds_wfD:
  assumes "rtds_wf p s"
  shows "rtds_linked p s" and "\<forall>u. managed p u s \<longrightarrow> rtds_server (rtds u s)"
    and "\<forall>u \<in> set (rtds_ready p s). u \<noteq> t \<longrightarrow> 0 < rtds_remaining_ticks (rtds u s)"
  using assms by (simp_all add: rtds_wf_def)

lemma rtds_take_next:
  assumes W: "rtds_wf p s" and c: "\<forall>t \<in> set (rtds_rq p s). sched_ctl (threads s t) = Some p"
    and T: "rtds_take_next p s = (r, s')"
  shows "hook_frame s s'" and "rtds_wf p s'" and "timer_ok s \<Longrightarrow> timer_ok s'"
    and "set (rtds_rq p s') = set (rtds_rq p s) - {r} \<and> (r \<in> set (rtds_rq p s) \<or> rtds_rq p s = [] \<and> r = idle_var s)"
    and "in_order (deadline_less s) (rtds_ready p s) \<Longrightarrow> in_order (deadline_less s') (rtds_ready p s')
      \<and> (\<forall>x \<in> set (rtds_ready p s'). \<not> deadline_less s' x r)
      \<and> (0 < rtds_remaining_ticks (rtds r s') \<or> rtds_ready p s' = [] \<and> (\<forall>x \<in> set (rtds_depleted p s'). \<not> deadline_less s' x r)
         \<or> rtds_rq p s' = [])"
proof -
  note R = rtds_remove_linked [OF rtds_wfD(1) [OF W] _ rtds_wfD(2,3) [OF W]]
  have rem: "rtds_remaining_ticks (rtds u (rtds_queue_remove t s)) = rtds_remaining_ticks (rtds u s)" for u t
    by (simp add: rtds_queue_remove_def Let_def split: option.split)
  have dep: "set (rtds_depleted p (rtds_queue_remove b s)) \<subseteq> set (rtds_depleted p s)" for b
    by (auto simp: rtds_queue_remove_def Let_def split: option.split dest: set_remove1_subset [THEN subsetD])
  consider (ready) ys where "rtds_ready p s = r # ys" "s' = rtds_queue_remove r s" "sched_ctl (threads s r) = Some p"
    | (slack) "rtds_ready p s = []" "r \<in> set (rtds_depleted p s)" "s' = rtds_queue_remove r s" "sched_ctl (threads s r) = Some p"
        "\<forall>x \<in> set (rtds_depleted p s). \<not> deadline_less s x r"
    | (idle) "rtds_rq p s = []" "s' = s" "r = idle_var s"
  proof (cases "rtds_ready p s")
    case (Cons x ys)
    then have "r = x" "s' = rtds_queue_remove x s" using T by (auto simp: rtds_take_next_def)
    then show thesis using Cons c by (intro that(1) [of ys]) (simp_all add: rtds_rq_def)
  next
    case Nil
    show thesis
    proof (cases "rtds_best s None (rtds_depleted p s)")
      case None
      then show thesis using Nil T
        by (intro that(3)) (auto simp: rtds_take_next_def rtds_pick_depleted_slack_def rtds_best_None rtds_rq_def)
    next
      case (Some b)
      then have "r = b" "s' = rtds_queue_remove b s"
        using Nil T by (auto simp: rtds_take_next_def rtds_pick_depleted_slack_def)
      then show thesis using Nil c rtds_best_least [OF Some] by (intro that(2)) (simp_all add: rtds_rq_def)
    qed
  qed
  note C = this
  show "hook_frame s s'" "timer_ok s \<Longrightarrow> timer_ok s'" by (cases rule: C; simp)+
  show "rtds_wf p s'" by (cases rule: C) (use R W in simp_all)
  have "set (rtds_rq p s') = set (rtds_rq p s) - {r}" by (cases rule: C) (use R(3) in simp_all)
  moreover have "r \<in> set (rtds_rq p s) \<or> rtds_rq p s = [] \<and> r = idle_var s"
    by (cases rule: C) (simp_all add: rtds_rq_def)
  ultimately show "set (rtds_rq p s') = set (rtds_rq p s) - {r}
    \<and> (r \<in> set (rtds_rq p s) \<or> rtds_rq p s = [] \<and> r = idle_var s)" by simp
  assume O: "in_order (deadline_less s) (rtds_ready p s)"
  show "in_order (deadline_less s') (rtds_ready p s')
      \<and> (\<forall>x \<in> set (rtds_ready p s'). \<not> deadline_less s' x r)
      \<and> (0 < rtds_remaining_ticks (rtds r s') \<or> rtds_ready p s' = [] \<and> (\<forall>x \<in> set (rtds_depleted p s'). \<not> deadline_less s' x r)
         \<or> rtds_rq p s' = [])"
  proof (cases rule: C)
    case ready
    have "0 < rtds_remaining_ticks (rtds r s)" using W ready by (simp add: rtds_wf_def)
    then show ?thesis using ready R O deadline_order.order_hd [of s r ys] deadline_order.order_tl [of s r ys] rem by auto
  next
    case slack
    then show ?thesis using R O dep [of r] by auto
  next
    case idle
    then show ?thesis using O by (simp add: rtds_rq_def)
  qed
qed

text \<open>
  The whole of \<open>pick_next\<close>: the current thread competes if it may still run, the threads it does not
  take stay queued, and what it takes is first in deadline order among the servers with budget.
\<close>

lemma rtds_pick_next:
  assumes B: "base_inv p s" and Q: "queue_inv (rtds_rq p s) p s" and W: "rtds_wf p s" and c: "curr p s = Some c"
    and cp: "cur_pcpu s = p" and pk: "sched_rtds_pick_next p s = (r, s')"
  defines "cands \<equiv> if eligible p c s then insert c (set (rtds_rq p s)) else set (rtds_rq p s)"
  shows "hook_frame s s'" and "rtds_wf p s'" and "timer_ok s \<Longrightarrow> timer_ok s'"
    and "set (rtds_rq p s') = cands - {r}" and "r \<in> cands \<or> cands = {} \<and> r = Idle p"
    and "in_order (deadline_less s) (remove1 c (rtds_ready p s)) \<Longrightarrow> in_order (deadline_less s') (rtds_ready p s')
      \<and> (\<forall>x \<in> set (rtds_ready p s'). \<not> deadline_less s' x r)
      \<and> (0 < rtds_remaining_ticks (rtds r s') \<or> rtds_ready p s' = [] \<and> (\<forall>x \<in> set (rtds_depleted p s'). \<not> deadline_less s' x r)
         \<or> rtds_rq p s' = [])"
proof -
  define now where "now = cpu_ticks s"
  define s1 where "s1 = tick_read s"
  define s2 where "s2 = rtds_settle_current p now s1"
  define s3 where "s3 = rtds_refresh_queues p now s2"
  obtain s4 where T: "rtds_take_next p s3 = (r, s4)"
    and s': "s' = rtds_program_timer p (Some r)
      (if is_idle_thread r s4 then s4 else upd_rtds r (\<lambda>d. d\<lparr>rtds_last_start_ticks := now\<rparr>) s4)"
    using pk by (auto simp: sched_rtds_pick_next_def Let_def s3_def s2_def s1_def now_def split: prod.splits)
  have F1: "hook_frame s s1" by (simp add: s1_def)
  have q1: "rtds_rq p s1 = rtds_rq p s" "rtds_ready p s1 = rtds_ready p s" "deadline_less s1 = deadline_less s"
    by (simp_all add: s1_def rtds_rq_def deadline_less_def fun_eq_iff)
  have pre: "base_inv p s1" "queue_inv (rtds_rq p s1) p s1" "rtds_wf p s1" "curr p s1 = Some c"
    using B Q W c base_inv_frame [OF F1] queue_inv_frame [OF F1] hook_frameD(28) [OF F1] q1
    by (simp_all add: s1_def)
  note S = rtds_settle_current [OF pre, of now, folded s2_def]
  have F2: "hook_frame s s2" using F1 by (auto simp: s2_def intro: hook_frame_trans)
  have e1: "eligible p u s1 = eligible p u s" for u using F1 by (simp add: eligible_frame)
  have set2: "set (rtds_rq p s2) = cands" using S(2) by (simp add: e1 q1 cands_def)
  have el: "\<forall>t \<in> cands. eligible p t s" using Q by (auto simp: cands_def queue_inv_def)
  have "distinct (rtds_rq p s2)" using S(1) by (simp add: rtds_wf_def rtds_linked_def)
  then have Q2: "queue_inv (rtds_rq p s2) p s2" using el set2 F2 by (simp add: queue_inv_def eligible_frame)
  have B2: "base_inv p s2" using B F2 by (simp add: base_inv_frame)
  have RS: "rtds_same srt p s2 s3" if "srt \<longrightarrow> in_order (deadline_less s2) (rtds_ready p s2)" for srt
    unfolding s3_def by (rule rtds_refresh_queues_same [OF B2 Q2]) (use S(1) that in \<open>simp add: rtds_same_def\<close>)
  note R = RS [of False, simplified]
  have F3: "hook_frame s s3" using F2 R by (auto simp: rtds_same_def intro: hook_frame_trans)
  have W3: "rtds_wf p s3" and set3: "set (rtds_rq p s3) = cands" using R set2 by (simp_all add: rtds_same_def)
  have c3: "\<forall>t \<in> set (rtds_rq p s3). sched_ctl (threads s3 t) = Some p"
    using el set3 F3 by (auto simp: hook_frameD eligible_def managed_def)
  note N = rtds_take_next [OF W3 c3 T]
  have F4: "hook_frame s s4" using F3 N(1) by (rule hook_frame_trans)
  have id: "idle_var s3 = Idle p" using F3 cp by (simp add: idle_var_def hook_frameD)
  show "hook_frame s s'" unfolding s'
    by (rule hook_frame_trans [OF F4]) (auto intro: hook_frame_trans)
  show "rtds_wf p s'" unfolding s'
    using N(2) rtds_wf_upd [OF N(2), of "\<lambda>d. d\<lparr>rtds_last_start_ticks := now\<rparr>" r]
    by (subst rtds_wf_cong [OF rtds_program_timer_frames(3,4,5)]) simp
  show "timer_ok s'" if "timer_ok s"
    using N(3) that by (auto simp: s' s3_def s2_def s1_def)
  have ql: "rtds_ready p s' = rtds_ready p s4" "rtds_depleted p s' = rtds_depleted p s4"
    "deadline_less s' = deadline_less s4" "rtds_remaining_ticks (rtds u s') = rtds_remaining_ticks (rtds u s4)" for u
    by (auto simp: s' deadline_less_def fun_eq_iff)
  show "set (rtds_rq p s') = cands - {r}" using N(4) set3 by (simp add: rtds_rq_def ql)
  show "r \<in> cands \<or> cands = {} \<and> r = Idle p" using N(4) set3 id by auto
  show "in_order (deadline_less s') (rtds_ready p s')
      \<and> (\<forall>x \<in> set (rtds_ready p s'). \<not> deadline_less s' x r)
      \<and> (0 < rtds_remaining_ticks (rtds r s') \<or> rtds_ready p s' = [] \<and> (\<forall>x \<in> set (rtds_depleted p s'). \<not> deadline_less s' x r)
         \<or> rtds_rq p s' = [])" if "in_order (deadline_less s) (remove1 c (rtds_ready p s))"
  proof -
    have "in_order (deadline_less s2) (rtds_ready p s2)" using S(3) that by (simp add: q1)
    from RS [of True] this have "in_order (deadline_less s3) (rtds_ready p s3)" by (simp add: rtds_same_def)
    from N(5) [OF this] show ?thesis by (simp add: ql rtds_rq_def)
  qed
qed

section \<open>Sleep, wake and priority\<close>

lemma rtds_sleep_queue:
  assumes W: "rtds_wf p s" and c: "sched_ctl (threads s t) = Some p"
  shows "hook_frame s (sched_rtds_sleep t s)" and "timer_ok s \<Longrightarrow> timer_ok (sched_rtds_sleep t s)"
    and "rtds_wf p (sched_rtds_sleep t s)"
    and "set (rtds_rq p (sched_rtds_sleep t s)) = set (rtds_rq p s) - {t}"
    and "in_order (deadline_less s) (rtds_ready p s) \<Longrightarrow>
      in_order (deadline_less (sched_rtds_sleep t s)) (rtds_ready p (sched_rtds_sleep t s))"
proof -
  define s1 where "s1 = (if rtds_is_current t s then rtds_account_runtime t (cpu_ticks s) (tick_read s) else s)"
  define s2 where "s2 = upd_rtds t (\<lambda>d. d\<lparr>rtds_last_start_ticks := 0\<rparr>) (rtds_queue_remove t s1)"
  have r: "sched_rtds_sleep t s = rtds_program_timer p (if rtds_is_current t s2 then None else curr p s2) s2"
    using c by (simp add: sched_rtds_sleep_def Let_def s1_def s2_def)
  have F1: "hook_frame s s1" unfolding s1_def by (auto intro: hook_frame_trans)
  have W': "rtds_wf p (tick_read s)" using W by simp
  have k: "rtds_linked p s1" "\<forall>u. managed p u s1 \<longrightarrow> rtds_server (rtds u s1)"
    "\<forall>u \<in> set (rtds_ready p s1). u \<noteq> t \<longrightarrow> 0 < rtds_remaining_ticks (rtds u s1)"
    using rtds_account_step [OF W', of t "cpu_ticks s"] rtds_wfD [OF W]
    by (auto simp: s1_def rtds_step_def)
  have q: "rtds_ready p s1 = rtds_ready p s" "rtds_depleted p s1 = rtds_depleted p s" "deadline_less s1 = deadline_less s"
    by (auto simp: s1_def rtds_account_runtime_def deadline_less_def fun_eq_iff)
  have c1: "sched_ctl (threads s1 t) = Some p" using c F1 by (simp add: hook_frameD)
  note R = rtds_remove_linked [OF k(1) c1 k(2,3)]
  have F: "hook_frame s s2" unfolding s2_def by (intro rtds_steps F1)
  show "hook_frame s (sched_rtds_sleep t s)" unfolding r by (rule hook_frame_trans [OF F]) simp
  show "timer_ok (sched_rtds_sleep t s)" if "timer_ok s" using that by (simp add: r s2_def s1_def rtds_program_timer_frames)
  have "rtds_wf p s2" unfolding s2_def by (rule rtds_wf_upd [OF R(1)]) simp_all
  then show "rtds_wf p (sched_rtds_sleep t s)" by (simp add: r rtds_wf_cong [OF rtds_program_timer_frames(3,4,5)])
  show "set (rtds_rq p (sched_rtds_sleep t s)) = set (rtds_rq p s) - {t}"
    using R(3) by (simp add: r s2_def rtds_rq_def q)
  have "deadline_less (sched_rtds_sleep t s) = deadline_less s"
    using R(5) by (auto simp: r s2_def deadline_less_def fun_eq_iff q)
  then show "in_order (deadline_less (sched_rtds_sleep t s)) (rtds_ready p (sched_rtds_sleep t s))"
    if "in_order (deadline_less s) (rtds_ready p s)"
    using that R(4) by (simp add: r s2_def q deadline_order.order_remove)
qed

lemma rtds_wake_queue:
  assumes W: "rtds_wf p s" and m: "managed p t s"
  shows "hook_frame s (sched_rtds_wake t s)" and "timer_ok s \<Longrightarrow> timer_ok (sched_rtds_wake t s)"
    and "rtds_enqueued p t s (sched_rtds_wake t s)"
proof -
  have c: "sched_ctl (threads s t) = Some p" using m by (simp add: managed_def)
  let ?f = "\<lambda>d. (snd (rtds_advance_period (cpu_ticks s) d))\<lparr>rtds_last_start_ticks := 0\<rparr>"
  define s1 where "s1 = upd_rtds t ?f (tick_read s)"
  define s2 where "s2 = (if rtds_remaining_ticks (rtds t s1) > 0 then rtds_ready_insert t s1 else rtds_depleted_insert t s1)"
  have "rtds_step p t s (tick_read s)" using W by (simp add: rtds_step_def rtds_wf_def rtds_linked_def rtds_rq_def)
  moreover have "rtds_step p t (tick_read s) s1" unfolding s1_def
    by (rule rtds_step_upd) (use W in \<open>simp_all add: rtds_wf_def rtds_linked_def rtds_rq_def\<close>)
  ultimately have st: "rtds_step p t s s1" by (rule rtds_step_trans)
  have c1: "sched_ctl (threads s1 t) = Some p" using c by (simp add: s1_def)
  have srv: "\<forall>u. managed p u s1 \<longrightarrow> rtds_server (rtds u s1)"
    using rtds_wfD(2) [OF W] by (auto simp: s1_def managed_def rtds_server_def rtds_advance_period_def Let_def)
  have rem: "\<forall>u \<in> set (rtds_ready p s1). u \<noteq> t \<longrightarrow> 0 < rtds_remaining_ticks (rtds u s1)"
    using rtds_wfD(3) [OF W] by (simp add: s1_def)
  have L1: "rtds_linked p s1" using st by (simp add: rtds_step_def)
  have "rtds_enqueued p t s1 s2"
    using rtds_enqueue [OF L1 c1 srv rem] by (auto simp: s2_def word_gt_0)
  then have E: "rtds_enqueued p t s s2" by (rule rtds_enqueued_after [OF st])
  then have F: "hook_frame s s2" by (simp add: rtds_enqueued_def rtds_step_def)
  have r: "sched_rtds_wake t s = rtds_program_timer p (curr p s2) s2"
  proof -
    have "sched_rtds_wake t s = with_ctl t (\<lambda>p s. rtds_program_timer p (curr p s) s) s2"
      by (simp only: sched_rtds_wake_def Let_def s1_def s2_def)
    moreover have "sched_ctl (threads s2 t) = Some p" using c F by (simp add: hook_frameD)
    ultimately show ?thesis by simp
  qed
  show "hook_frame s (sched_rtds_wake t s)" unfolding r by (rule hook_frame_trans [OF F]) simp
  show "timer_ok (sched_rtds_wake t s)" if "timer_ok s"
    using that by (auto simp: r s2_def s1_def)
  have ql: "deadline_less (rtds_program_timer p x s2) = deadline_less s2" for x by (simp add: deadline_less_def fun_eq_iff)
  show "rtds_enqueued p t s (sched_rtds_wake t s)"
    using E hook_frame_trans [OF F rtds_program_timer_frames(1)] unfolding r rtds_enqueued_def rtds_step_def
    by (simp add: ql rtds_wf_cong [OF rtds_program_timer_frames(3,4,5)] rtds_rq_def)
      (simp add: rtds_linked_def rtds_rq_def)
qed

lemma rtds_prioritize_queue:
  assumes W: "rtds_wf p s" and m: "managed p t s"
  shows "hook_frame s (sched_rtds_prioritize t s)" and "timer_ok s \<Longrightarrow> timer_ok (sched_rtds_prioritize t s)"
    and "rtds_wf p (sched_rtds_prioritize t s)"
    and "set (rtds_rq p s) \<subseteq> set (rtds_rq p (sched_rtds_prioritize t s))"
    and "set (rtds_rq p (sched_rtds_prioritize t s)) \<subseteq> insert t (set (rtds_rq p s))"
    and "in_order (deadline_less s) (rtds_ready p s) \<Longrightarrow> curr p s \<noteq> Some t \<Longrightarrow>
      in_order (deadline_less (sched_rtds_prioritize t s)) (rtds_ready p (sched_rtds_prioritize t s))"
proof -
  have c: "sched_ctl (threads s t) = Some p" using m by (simp add: managed_def)
  let ?f = "\<lambda>d. snd (rtds_advance_period (cpu_ticks s) d)" and ?r = "sched_rtds_prioritize t s"
  define s1 where "s1 = upd_rtds t ?f (tick_read s)"
  have c1: "sched_ctl (threads s1 t) = Some p" and cu: "rtds_is_current t s1 \<longleftrightarrow> curr p s = Some t"
    using c by (simp_all add: s1_def rtds_is_current_def curr_def)
  have r: "?r = (if curr p s \<noteq> Some t \<and> 0 < rtds_remaining_ticks (rtds t s1) then rtds_ready_insert t s1 else s1)"
    using cu c1 by (simp add: sched_rtds_prioritize_def Let_def s1_def [symmetric])
  have F1: "hook_frame s s1" unfolding s1_def by (intro rtds_steps hook_frame_refl)
  show "hook_frame s ?r" unfolding r by (auto intro: hook_frame_trans [OF F1])
  show "timer_ok ?r" if "timer_ok s" using that by (auto simp: r s1_def)
  have L0: "rtds_linked p (tick_read s)" using W rtds_wfD(1) [of p "tick_read s"] by simp
  have "rtds_step p t s (tick_read s)" using W by (simp add: rtds_step_def rtds_wf_def rtds_linked_def rtds_rq_def)
  moreover have "rtds_step p t (tick_read s) s1" unfolding s1_def by (rule rtds_step_upd [OF L0]) simp
  ultimately have st: "rtds_step p t s s1" by (rule rtds_step_trans)
  then have L1: "rtds_linked p s1" by (simp add: rtds_step_def)
  have srv: "\<forall>u. managed p u s1 \<longrightarrow> rtds_server (rtds u s1)"
    using rtds_wfD(2) [OF W] by (auto simp: s1_def managed_def)
  have rem: "\<forall>u \<in> set (rtds_ready p s1). u \<noteq> t \<longrightarrow> 0 < rtds_remaining_ticks (rtds u s1)"
    using rtds_wfD(3) [OF W] by (simp add: s1_def)
  have E: "rtds_enqueued p t s (rtds_ready_insert t s1)" if "0 < rtds_remaining_ticks (rtds t s1)"
    by (rule rtds_enqueued_after [OF st rtds_enqueue(1) [OF L1 c1 srv rem that]])
  have q1: "rtds_rq p s1 = rtds_rq p s" "rtds_ready p s1 = rtds_ready p s" by (simp_all add: s1_def rtds_rq_def)
  have rt: "0 < rtds_remaining_ticks (rtds t s1)" if "t \<in> set (rtds_ready p s)"
    using that W m by (auto simp: s1_def rtds_wf_def rtds_server_def rtds_advance_period_def Let_def)
  have W1: "rtds_wf p s1" using L1 srv rem rt q1 unfolding rtds_wf_def by metis
  show "rtds_wf p ?r" using W1 E by (auto simp: r rtds_enqueued_def)
  show "set (rtds_rq p s) \<subseteq> set (rtds_rq p ?r)" "set (rtds_rq p ?r) \<subseteq> insert t (set (rtds_rq p s))"
    using rtds_enqueued_set [OF E] q1 by (auto simp: r)
  assume O: "in_order (deadline_less s) (rtds_ready p s)" and nc: "curr p s \<noteq> Some t"
  show "in_order (deadline_less ?r) (rtds_ready p ?r)"
  proof (cases "0 < rtds_remaining_ticks (rtds t s1)")
    case True
    then show ?thesis using E [OF True] O nc deadline_order.order_remove by (auto simp: r rtds_enqueued_def)
  next
    case False
    then have "t \<notin> set (rtds_ready p s)" using rt by blast
    then have "in_order (deadline_less s1) (rtds_ready p s1) = in_order (deadline_less s) (rtds_ready p s1)"
      using rtds_step_order [OF st] by (simp add: q1 remove1_idem)
    then show ?thesis using False O q1 by (simp add: r)
  qed
qed

interpretation rtds: sched_policy_live sched_rtds rtds_rq rtds_wf False
proof unfold_locales
  fix p s pick t s'
  assume B: "base_inv p s" and Q: "queue_inv (rtds_rq p s) p s" and W: "rtds_wf p s" and p: "cur_pcpu s = p"
    and h: "hook_pick_next sched_rtds = Some pick" "pick p s = (t, s')"
  obtain c where c: "curr p s = Some c" using B by (blast elim: base_inv_currE)
  have pk: "sched_rtds_pick_next p s = (t, s')" using h by (simp add: sched_rtds_def)
  note R = rtds_pick_next [OF B Q W c p pk]
  have "distinct (rtds_rq p s')" using R(2) by (simp add: rtds_wf_def rtds_linked_def)
  then have Q': "queue_inv (rtds_rq p s') p s" using R(4) Q by (auto simp: queue_inv_def split: if_splits)
  have "t = Idle p \<or> eligible p t s" using R(5) Q by (auto simp: queue_inv_def split: if_splits)
  then show "hook_ok rtds_wf p s s' \<and> queue_inv (rtds_rq p s') p s \<and> (t = Idle p \<or> eligible p t s)"
    using R Q' by (simp add: hook_ok_def)
  show "\<not> False \<and> u = t \<or> u \<in> set (rtds_rq p s')"
    if "u \<in> set (rtds_rq p s) \<or> \<not> False \<and> curr p s = Some u" "eligible p u s" for u
    using that R(4) c by auto
next
  fix p s t f s'
  assume W: "rtds_wf p s" and "eligible p t s" and h: "hook_prioritize sched_rtds = Some f"
  then have m: "managed p t s" and f: "f = sched_rtds_prioritize" by (simp_all add: eligible_def sched_rtds_def)
  note P = rtds_prioritize_queue [OF W m, folded f]
  show "hook_ok rtds_wf p s s' \<and> distinct (rtds_rq p s') \<and> set (rtds_rq p s') \<subseteq> insert t (set (rtds_rq p s))"
    if "f t s = s'" using that P by (auto simp: hook_ok_def rtds_wf_def rtds_linked_def)
  show "u \<in> set (rtds_rq p (f t s))" if "u \<in> set (rtds_rq p s)" for u using that P by auto
next
  fix p s t s'
  assume W: "rtds_wf p s" and m: "managed p t s"
  note K = rtds_wake_queue [OF W m] rtds_enqueued_set [OF rtds_wake_queue(3) [OF W m]]
  have k: "call_hook (hook_wake sched_rtds) t s = sched_rtds_wake t s" by (simp add: call_hook_def sched_rtds_def)
  show "hook_ok rtds_wf p s s' \<and> distinct (rtds_rq p s') \<and> set (rtds_rq p s') \<subseteq> insert t (set (rtds_rq p s))"
    if "call_hook (hook_wake sched_rtds) t s = s'"
    using that K by (auto simp: k hook_ok_def rtds_enqueued_def rtds_wf_def rtds_linked_def)
  show "u \<in> set (rtds_rq p (call_hook (hook_wake sched_rtds) t s))" if "u \<in> set (rtds_rq p s) \<or> u = t" for u
    using that K by (auto simp: k)
  have "sched_ctl (threads s t) = Some p" using m by (simp add: managed_def)
  note S = rtds_sleep_queue [OF W this]
  have k: "call_hook (hook_sleep sched_rtds) t s = sched_rtds_sleep t s" by (simp add: call_hook_def sched_rtds_def)
  show "hook_ok rtds_wf p s s' \<and> distinct (rtds_rq p s') \<and> set (rtds_rq p s') \<subseteq> set (rtds_rq p s) - {t}"
    if "call_hook (hook_sleep sched_rtds) t s = s'"
    using that S by (auto simp: k hook_ok_def rtds_wf_def rtds_linked_def)
  show "u \<in> set (rtds_rq p (call_hook (hook_sleep sched_rtds) t s))" if "u \<in> set (rtds_rq p s)" "u \<noteq> t" for u
    using that S by (auto simp: k)
qed (simp_all add: policy_same_def rtds_rq_def rtds_ready_def rtds_depleted_def sched_rtds_def
    rtds_wf_def rtds_linked_def managed_def)

section \<open>Periods and budgets\<close>

lemma rtds_next_period_boundary_grid:
  assumes "0 < period" and "unat now + unat period < 2 ^ 64"
  shows "unat (rtds_next_period_boundary now period) = (unat now div unat period + 1) * unat period"
    and "now < rtds_next_period_boundary now period"
proof -
  have "rtds_next_period_boundary now period = 0 + ((now - 0) div period + 1) * period"
    using assms(1) by (auto simp: rtds_next_period_boundary_def)
  with next_grid_point [of 0 now period] assms
  show "unat (rtds_next_period_boundary now period) = (unat now div unat period + 1) * unat period"
    "now < rtds_next_period_boundary now period" by simp_all
qed

lemma rtds_advance_grid:
  assumes "rtds_deadline_ticks d \<le> now" and "0 < rtds_period_ticks d" and "unat now + unat (rtds_period_ticks d) < 2 ^ 64"
  shows "unat (rtds_deadline_ticks (snd (rtds_advance_period now d))) = unat (rtds_deadline_ticks d)
      + ((unat now - unat (rtds_deadline_ticks d)) div unat (rtds_period_ticks d) + 1) * unat (rtds_period_ticks d)"
    and "now < rtds_deadline_ticks (snd (rtds_advance_period now d))"
    and "rtds_remaining_ticks (snd (rtds_advance_period now d)) = rtds_budget_ticks d"
  using next_grid_point [of "rtds_deadline_ticks d" now "rtds_period_ticks d"] assms
  by (simp_all add: rtds_advance_period_def Let_def not_less [symmetric])

lemma rtds_init_data_server:
  assumes "2 \<le> khz s"
  shows "rtds_server (rtds t (sched_rtds_init_data t params s))"
proof -
  obtain pu bu where cfg: "rtds_config_us (sched_get_pcpu_pool_config (pcpu_id (threads s t)) s) = (pu, bu)"
    by fastforce
  then have b: "500 \<le> bu" "bu \<le> pu"
    by (auto simp: rtds_config_us_def Let_def RTDS_MIN_BUDGET_US_def RTDS_MIN_PERIOD_US_def split: option.splits if_splits)
  have "2 \<le> unat (khz s)" using assms by (simp add: word_le_nat_alt)
  moreover have "500 \<le> unat bu" using b(1) by (simp add: word_le_nat_alt)
  ultimately have "500 * 2 \<le> unat bu * unat (khz s)" by (intro mult_le_mono)
  then have "0 < unat (us_to_ticks (khz s) bu)" unfolding unat_us_to_ticks by (simp add: div_greater_zero_iff)
  then have "0 < us_to_ticks (khz s) bu" by (simp add: word_less_nat_alt)
  moreover have "sched_get_pcpu_pool_config (pcpu_id (threads s t)) (tick_read s)
      = sched_get_pcpu_pool_config (pcpu_id (threads s t)) s"
    by (simp add: sched_get_pcpu_pool_config_def)
  ultimately show ?thesis
    using us_to_ticks_mono [OF b(2), of "khz s"] cfg
    by (simp add: sched_rtds_init_data_def rtds_server_def Let_def)
qed

section \<open>The refresh ends\<close>

lemma rtds_ticks_ops [simp]:
  "rtds_deadline_ticks (rtds u (rtds_queue_remove t s)) = rtds_deadline_ticks (rtds u s)"
  "rtds_period_ticks (rtds u (rtds_queue_remove t s)) = rtds_period_ticks (rtds u s)"
  "rtds_remaining_ticks (rtds u (rtds_queue_remove t s)) = rtds_remaining_ticks (rtds u s)"
  by (simp_all add: rtds_queue_remove_def Let_def split: option.split)

lemma rtds_ticks_insert [simp]:
  "rtds_deadline_ticks (rtds u (rtds_ready_insert t s)) = rtds_deadline_ticks (rtds u s)"
  "rtds_period_ticks (rtds u (rtds_ready_insert t s)) = rtds_period_ticks (rtds u s)"
  "rtds_deadline_ticks (rtds u (rtds_depleted_insert t s)) = rtds_deadline_ticks (rtds u s)"
  "rtds_period_ticks (rtds u (rtds_depleted_insert t s)) = rtds_period_ticks (rtds u s)"
  by (simp_all add: rtds_ready_insert_def rtds_depleted_insert_def with_ctl_def Let_def split: option.split)

lemma rtds_period_advance [simp]: "rtds_period_ticks (snd (rtds_advance_period now d)) = rtds_period_ticks d"
  by (simp add: rtds_advance_period_def Let_def)

lemma rtds_refresh_ticks:
  "rtds_deadline_ticks (rtds t (rtds_refresh_thread now t s)) = rtds_deadline_ticks (snd (rtds_advance_period now (rtds t s)))"
  "rtds_period_ticks (rtds u (rtds_refresh_thread now t s)) = rtds_period_ticks (rtds u s)"
  by (simp_all add: rtds_refresh_thread_def with_ctl_def Let_def split: option.split)

lemma rtds_refresh_ready_ticks:
  assumes "rtds_period_ticks (rtds t s) \<noteq> 0" and "unat now + unat (rtds_period_ticks (rtds t s)) < 2 ^ 64"
  shows "now < rtds_deadline_ticks (rtds t (rtds_refresh_ready now t s))"
    and "rtds_period_ticks (rtds u (rtds_refresh_ready now t s)) = rtds_period_ticks (rtds u s)"
proof -
  let ?d = "snd (rtds_advance_period now (rtds t s))"
  have n: "now < rtds_deadline_ticks ?d"
    using rtds_advance_grid(2) [of "rtds t s" now] assms by (cases "rtds_deadline_ticks (rtds t s) \<le> now") (auto simp: word_gt_0)
  then have "snd (rtds_advance_period now ?d) = ?d" by (simp add: rtds_advance_period_def)
  moreover have "rtds_advance_period now (rtds_data (threads s' t)) = (False, rtds_data (threads s' t))"
    if "now < rtds_deadline_ticks (rtds t s')" for s' using that by (simp add: rtds_advance_period_def)
  ultimately show "now < rtds_deadline_ticks (rtds t (rtds_refresh_ready now t s))"
    using n by (auto simp: rtds_refresh_ready_def Let_def split_def rtds_refresh_ticks)
  show "rtds_period_ticks (rtds u (rtds_refresh_ready now t s)) = rtds_period_ticks (rtds u s)"
    by (auto simp: rtds_refresh_ready_def Let_def split_def rtds_refresh_ticks)
qed

text \<open>
  With the tick counter a period away from its end, both walks end, and each does the work of one
  pass over the servers that are due.
\<close>

definition rtds_horizon :: "nat \<Rightarrow> u64 \<Rightarrow> sched_sys \<Rightarrow> bool" where
  "rtds_horizon p now s \<longleftrightarrow> (\<forall>t. managed p t s \<longrightarrow> unat now + unat (rtds_period_ticks (rtds t s)) < 2 ^ 64)"

lemma rtds_ready_walk:
  assumes B: "base_inv p s" and Q: "queue_inv (rtds_rq p s) p s" and S: "rtds_same False p s s'" and H: "rtds_horizon p now s'"
  shows "for_each_safe (rtds_ready p) (rtds_refresh_ready now) s'
    = Some (fold (rtds_refresh_ready now) (filter (\<lambda>t. rtds_deadline_ticks (rtds t s') \<le> now) (rtds_ready p s')) s')"
proof -
  let ?P = "\<lambda>r. rtds_same False p s r \<and> rtds_horizon p now r" and ?st = "\<lambda>t r. now < rtds_deadline_ticks (rtds t r)"
  have body: "?P (rtds_refresh_ready now x r) \<and> rtds_step p x r (rtds_refresh_ready now x r) \<and> ?st x (rtds_refresh_ready now x r)"
    if "?P r" and x: "x \<in> set (rtds_ready p r)" for x r
  proof -
    have r: "rtds_same False p s r" "rtds_horizon p now r" "x \<in> set (rtds_rq p r)" using that by (auto simp: rtds_rq_def)
    note b = rtds_same_body(3,4) [OF B Q r(1,3), of now]
    have m: "managed p x r" using r Q by (auto simp: rtds_same_def queue_inv_def eligible_def managed_frame)
    have "rtds_server (rtds x r)" using r(1) m by (simp add: rtds_same_def rtds_wf_def)
    then have "rtds_period_ticks (rtds x r) \<noteq> 0" by (auto simp: rtds_server_def)
    moreover have "unat now + unat (rtds_period_ticks (rtds x r)) < 2 ^ 64" using r(2) m by (simp add: rtds_horizon_def)
    note t = rtds_refresh_ready_ticks [OF calculation this]
    have "rtds_horizon p now (rtds_refresh_ready now x r)"
      using r(2) t(2) managed_frame [OF rtds_refresh_ready_frames(1)] by (simp add: rtds_horizon_def)
    then show ?thesis using b t(1) by simp
  qed
  have "for_each_safe (rtds_ready p) (rtds_refresh_ready now) s'
      = Some (fold (rtds_refresh_ready now) (filter (\<lambda>t. \<not> ?st t s') (rtds_ready p s')) s')"
  proof (rule for_each_safe_fold [where P = ?P])
    fix x y r assume r: "?P r" and x: "x \<in> set (rtds_ready p r)"
    note b = body [OF r x]
    show "?P (rtds_refresh_ready now x r)" "?st x (rtds_refresh_ready now x r)" using b by auto
    show "remove1 x (rtds_ready p (rtds_refresh_ready now x r)) = remove1 x (rtds_ready p r)"
      using b by (simp add: rtds_step_def)
    show "rtds_refresh_ready now x r = r" if "?st x r"
      using that by (simp add: rtds_refresh_ready_def rtds_advance_period_def upd_rtds_same)
    show "?st y (rtds_refresh_ready now x r) = ?st y r" if "y \<noteq> x" using b that by (simp add: rtds_step_def)
  qed (use S H rtds_same_distinct in auto)
  then show ?thesis by (simp add: not_less)
qed

lemma rtds_depleted_walk:
  assumes B: "base_inv p s" and Q: "queue_inv (rtds_rq p s) p s" and S: "rtds_same False p s s'" and H: "rtds_horizon p now s'"
  shows "for_each_safe (rtds_depleted p) (rtds_refresh_thread now) s' = Some (fold (rtds_refresh_thread now)
    (filter (\<lambda>t. rtds_deadline_ticks (rtds t s') \<le> now \<or> rtds_remaining_ticks (rtds t s') > 0) (rtds_depleted p s')) s')"
proof -
  let ?P = "\<lambda>r. rtds_same False p s r \<and> rtds_horizon p now r"
  let ?due = "\<lambda>t r. rtds_deadline_ticks (rtds t r) \<le> now \<or> rtds_remaining_ticks (rtds t r) > 0"
  let ?st = "\<lambda>t r. t \<notin> set (rtds_depleted p r) \<or> \<not> ?due t r"
  have body: "?P (rtds_refresh_thread now x r) \<and> rtds_step p x r (rtds_refresh_thread now x r)
      \<and> ?st x (rtds_refresh_thread now x r) \<and> (\<not> ?due x r \<longrightarrow> rtds_refresh_thread now x r = r)"
    if "?P r" and x: "x \<in> set (rtds_depleted p r)" for x r
  proof -
    have r: "rtds_same False p s r" "rtds_horizon p now r" "x \<in> set (rtds_rq p r)" using that by (auto simp: rtds_rq_def)
    note b = rtds_same_body(1,2) [OF B Q r(1,3), of now]
    have F: "hook_frame s r" and W: "rtds_wf p r" using r(1) by (simp_all add: rtds_same_def)
    have e: "eligible p x s" using r Q by (auto simp: rtds_same_def queue_inv_def)
    have m: "managed p x r" using e F by (simp add: eligible_def managed_frame)
    have c: "sched_ctl (threads r x) = Some p" using m by (simp add: managed_def)
    have act: "rtds_is_active x r" "\<not> be_blocking (threads r x)" "\<not> is_idle_thread x r"
      using rtds_eligible_active [OF B e] F not_idle_managed [OF m] by (simp_all add: rtds_is_active_frame hook_frameD)
    define r1 where "r1 = upd_rtds x (\<lambda>d. snd (rtds_advance_period now d)) r"
    have L1: "rtds_linked p r1" using rtds_step_upd [OF rtds_wfD(1) [OF W], of "\<lambda>d. snd (rtds_advance_period now d)" x]
      by (simp add: r1_def rtds_step_def)
    have c1: "sched_ctl (threads r1 x) = Some p" using c by (simp add: r1_def)
    have go: "rtds_refresh_thread now x r
        = (if 0 < rtds_remaining_ticks (rtds x r1) then rtds_ready_insert x r1 else rtds_depleted_insert x r1)"
      using act c rtds_is_active_frame [OF rtds_prim_frames(1)]
      by (simp add: rtds_refresh_thread_def r1_def)
    have d1: "x \<in> set (rtds_depleted p r1)" using x by (simp add: r1_def)
    have srv: "rtds_server (rtds x r)" using W m by (simp add: rtds_wf_def)
    have n1: "now < rtds_deadline_ticks (rtds x r1)"
      using rtds_advance_grid(2) [of "rtds x r" now] srv r(2) m
      by (cases "rtds_deadline_ticks (rtds x r) \<le> now") (auto simp: r1_def rtds_server_def rtds_horizon_def)
    have "?st x (rtds_refresh_thread now x r)"
    proof (cases "0 < rtds_remaining_ticks (rtds x r1)")
      case True
      then show ?thesis using L1 go by (simp add: rtds_ready_insert_place [OF L1 c1] rtds_linked_def rtds_rq_def)
    next
      case False
      then show ?thesis using go n1 d1 by (simp add: rtds_depleted_insert_place [OF L1 c1])
    qed
    moreover have "rtds_refresh_thread now x r = r" if "\<not> ?due x r"
    proof -
      have "r1 = r" unfolding r1_def by (rule upd_rtds_same) (use that in simp)
      then show ?thesis using that go d1 by (simp add: rtds_depleted_insert_place [OF rtds_wfD(1) [OF W] c])
    qed
    moreover have "rtds_horizon p now (rtds_refresh_thread now x r)"
      using r(2) managed_frame [OF rtds_refresh_frames(1)] by (simp add: rtds_horizon_def rtds_refresh_ticks)
    ultimately show ?thesis using b by simp
  qed
  have "for_each_safe (rtds_depleted p) (rtds_refresh_thread now) s'
      = Some (fold (rtds_refresh_thread now) (filter (\<lambda>t. \<not> ?st t s') (rtds_depleted p s')) s')"
  proof (rule for_each_safe_fold [where P = ?P])
    fix x y r assume r: "?P r" and x: "x \<in> set (rtds_depleted p r)"
    note b = body [OF r x]
    show "?P (rtds_refresh_thread now x r)" "?st x (rtds_refresh_thread now x r)" using b by auto
    show "remove1 x (rtds_depleted p (rtds_refresh_thread now x r)) = remove1 x (rtds_depleted p r)"
      using b by (simp add: rtds_step_def)
    show "rtds_refresh_thread now x r = r" if "?st x r" using that b x by simp
    show "?st y (rtds_refresh_thread now x r) = ?st y r" if "y \<noteq> x"
      using b that rtds_step_mem(2) [of p x r _ y] by (simp add: rtds_step_def)
  qed (use S H rtds_same_distinct in auto)
  moreover have "filter (\<lambda>t. \<not> ?st t s') (rtds_depleted p s') = filter (\<lambda>t. ?due t s') (rtds_depleted p s')"
    by (rule filter_cong) auto
  ultimately show ?thesis by simp
qed

section \<open>Properties\<close>

text \<open>
  A server that misses period boundaries jumps to the first boundary of its own grid after
  the present time, with exactly one fresh budget, however many periods it missed.
\<close>

theorem rtds_replenish_on_grid:
  assumes "rtds_deadline_ticks d \<le> now" and "0 < rtds_period_ticks d" and "unat now + unat (rtds_period_ticks d) < 2 ^ 64"
  defines "d' \<equiv> snd (rtds_advance_period now d)"
  shows "now < rtds_deadline_ticks d' \<and> rtds_remaining_ticks d' = rtds_budget_ticks d
    \<and> (unat (rtds_deadline_ticks d') - unat (rtds_deadline_ticks d)) mod unat (rtds_period_ticks d) = 0
    \<and> unat (rtds_deadline_ticks d') \<le> unat now + unat (rtds_period_ticks d)"
proof -
  let ?p = "unat (rtds_period_ticks d)" and ?t = "unat (rtds_deadline_ticks d)" and ?n = "unat now"
  have le: "?t \<le> ?n" using assms(1) by (simp add: word_le_nat_alt)
  note G = rtds_advance_grid [OF assms(1-3), folded d'_def]
  have "?t + (?n - ?t) div ?p * ?p \<le> ?n" using div_times_less_eq_dividend [of "?n - ?t" ?p] le by linarith
  then show ?thesis using G by simp
qed

end
