(* ===== verification/Sched_Cbs.thy ===== *)
theory Sched_Cbs
  imports Sched_Contract
begin

text \<open>
  \<open>core/sched/cbs.c\<close>: a constant bandwidth server per thread and one run queue per pCPU, ordered by
  absolute deadline. A server that has used up its budget gets a new budget and a later deadline.
  The two loops over server windows are \<open>partial_function\<close>s on the server's data: \<open>None\<close> is a loop
  without end, in which the pCPU stops. \<open>cbs_is_queued\<close> asks whether the thread is on the queue of
  the pCPU of its \<open>sched_ctl\<close>. The comparison of ratios is the 128-bit one.
\<close>

section \<open>Server data\<close>

definition CBS_DEFAULT_PERIOD_US :: u32 where "CBS_DEFAULT_PERIOD_US = 4000"
definition CBS_DEFAULT_BUDGET_US :: u32 where "CBS_DEFAULT_BUDGET_US = 2000"
definition CBS_MIN_PERIOD_US :: u32 where "CBS_MIN_PERIOD_US = 500"
definition CBS_MIN_BUDGET_US :: u32 where "CBS_MIN_BUDGET_US = 500"
definition CBS_UTIL_SCALE :: u64 where "CBS_UTIL_SCALE = 1000000"

definition cbs_count_event :: "u64 \<Rightarrow> u64" where
  "cbs_count_event counter = (if counter \<noteq> UINT64_MAX then counter + 1 else counter)"

definition cbs_count_replenish :: "bool \<Rightarrow> sched_cbs_data \<Rightarrow> sched_cbs_data" where
  "cbs_count_replenish cnt d =
     (if cnt then d\<lparr>cbs_replenish_count := cbs_count_event (cbs_replenish_count d)\<rparr> else d)"

definition cbs_replenish_from_now :: "u64 \<Rightarrow> bool \<Rightarrow> sched_cbs_data \<Rightarrow> sched_cbs_data" where
  "cbs_replenish_from_now now cnt d =
     cbs_count_replenish cnt
       (d\<lparr>cbs_deadline_ticks := now + cbs_period_ticks d, cbs_remaining_ticks := cbs_budget_ticks d\<rparr>)"

definition cbs_replenish_next_window :: "bool \<Rightarrow> sched_cbs_data \<Rightarrow> sched_cbs_data" where
  "cbs_replenish_next_window cnt d =
     (let d = d\<lparr>cbs_deadline_ticks :=
            (if cbs_deadline_ticks d > UINT64_MAX - cbs_period_ticks d then UINT64_MAX
             else cbs_deadline_ticks d + cbs_period_ticks d)\<rparr>
      in cbs_count_replenish cnt (d\<lparr>cbs_remaining_ticks := cbs_budget_ticks d\<rparr>))"

partial_function (option) cbs_window_loop :: "u64 \<Rightarrow> bool \<Rightarrow> sched_cbs_data \<Rightarrow> sched_cbs_data option" where
  "cbs_window_loop now cnt d =
     (let d = cbs_replenish_next_window cnt d
      in if cbs_deadline_ticks d \<le> now \<and> cbs_deadline_ticks d \<noteq> UINT64_MAX
         then cbs_window_loop now cnt d else Some d)"

definition cbs_replenish_after_depletion :: "u64 \<Rightarrow> bool \<Rightarrow> sched_cbs_data \<Rightarrow> sched_cbs_data option" where
  "cbs_replenish_after_depletion now cnt d =
     (if cbs_deadline_ticks d = 0 then Some (cbs_replenish_from_now now cnt d)
      else cbs_window_loop now cnt d)"

partial_function (option) cbs_charge_runtime :: "u64 \<Rightarrow> bool \<Rightarrow> sched_cbs_data \<Rightarrow> sched_cbs_data option" where
  "cbs_charge_runtime delta cnt d =
     (if delta = 0 then Some d
      else
        let d = (if cbs_remaining_ticks d = 0 then cbs_replenish_next_window cnt d else d)
        in if delta < cbs_remaining_ticks d
           then Some (d\<lparr>cbs_remaining_ticks := cbs_remaining_ticks d - delta\<rparr>)
           else
             let delta = delta - cbs_remaining_ticks d;
                 d = d\<lparr>cbs_remaining_ticks := 0\<rparr>
             in cbs_charge_runtime delta cnt
                  (if cnt then d\<lparr>cbs_depleted_count := cbs_count_event (cbs_depleted_count d)\<rparr> else d))"

declare cbs_window_loop.simps [code] cbs_charge_runtime.simps [code]

definition cbs_ratio_greater :: "u64 \<Rightarrow> u64 \<Rightarrow> u64 \<Rightarrow> u64 \<Rightarrow> bool" where
  "cbs_ratio_greater left_num left_den right_num right_den \<longleftrightarrow>
     (ucast left_num * ucast right_den :: 128 word) > ucast right_num * ucast left_den"

definition cbs_needs_wake_replenish :: "u64 \<Rightarrow> sched_cbs_data \<Rightarrow> bool" where
  "cbs_needs_wake_replenish now d =
     (if cbs_deadline_ticks d \<le> now then True
      else
        let window = cbs_deadline_ticks d - now
        in cbs_ratio_greater (cbs_remaining_ticks d) window (cbs_budget_ticks d) (cbs_period_ticks d))"

definition cbs_refresh_active_window :: "u64 \<Rightarrow> sched_cbs_data \<Rightarrow> sched_cbs_data option" where
  "cbs_refresh_active_window now d =
     (if cbs_remaining_ticks d = 0 then cbs_replenish_after_depletion now True d
      else if cbs_deadline_ticks d \<le> now then Some (cbs_replenish_from_now now True d)
      else Some d)"

definition cbs_apply_inactive_wake_rule :: "u64 \<Rightarrow> sched_cbs_data \<Rightarrow> sched_cbs_data option" where
  "cbs_apply_inactive_wake_rule now d =
     (let counted = (\<lambda>d. d\<lparr>cbs_wake_replenish_count := cbs_count_event (cbs_wake_replenish_count d)\<rparr>)
      in if cbs_remaining_ticks d = 0
         then map_option counted (cbs_replenish_after_depletion now True d)
         else if cbs_needs_wake_replenish now d
         then Some (counted (cbs_replenish_from_now now True d))
         else Some d)"

definition cbs_record_late_account :: "u64 \<Rightarrow> sched_cbs_data \<Rightarrow> sched_cbs_data" where
  "cbs_record_late_account now d =
     (let due = cbs_deadline_ticks d;
          budget_due =
            (if cbs_remaining_ticks d = 0 then cbs_last_start_ticks d
             else if cbs_last_start_ticks d \<le> UINT64_MAX - cbs_remaining_ticks d
             then cbs_last_start_ticks d + cbs_remaining_ticks d else 0);
          due = (if budget_due \<noteq> 0 \<and> (due = 0 \<or> budget_due < due) then budget_due else due)
      in if due \<noteq> 0 \<and> due < now
         then d\<lparr>cbs_late_account_count := cbs_count_event (cbs_late_account_count d)\<rparr> else d)"

section \<open>Threads and queue\<close>

abbreviation cbs :: "thread_ref \<Rightarrow> sched_sys \<Rightarrow> sched_cbs_data" where
  "cbs t s \<equiv> cbs_data (threads s t)"

definition upd_cbs :: "thread_ref \<Rightarrow> (sched_cbs_data \<Rightarrow> sched_cbs_data) \<Rightarrow> sched_sys \<Rightarrow> sched_sys" where
  "upd_cbs t f s = upd_thread t (\<lambda>th. th\<lparr>cbs_data := f (cbs_data th)\<rparr>) s"

text \<open>Running an operation on the data of \<open>t\<close> that may not end.\<close>

definition run_cbs ::
  "thread_ref \<Rightarrow> (sched_cbs_data \<Rightarrow> sched_cbs_data option) \<Rightarrow> sched_sys \<Rightarrow> sched_sys" where
  "run_cbs t f s = or_diverges s (map_option (\<lambda>d. upd_cbs t (\<lambda>_. d) s) (f (cbs t s)))"

definition cbs_rq :: "nat \<Rightarrow> sched_sys \<Rightarrow> thread_ref list" where
  "cbs_rq p s = cbs_runqueue (cbs_ctl s p)"

definition set_cbs_runqueue :: "nat \<Rightarrow> thread_ref list \<Rightarrow> sched_sys \<Rightarrow> sched_sys" where
  "set_cbs_runqueue p q s = s\<lparr>cbs_ctl := (cbs_ctl s)(p := (cbs_ctl s p)\<lparr>cbs_runqueue := q\<rparr>)\<rparr>"

definition set_cbs_timer_deadline :: "nat \<Rightarrow> u64 \<Rightarrow> sched_sys \<Rightarrow> sched_sys" where
  "set_cbs_timer_deadline p v s =
     s\<lparr>cbs_ctl := (cbs_ctl s)(p := (cbs_ctl s p)\<lparr>cbs_timer_deadline_ticks := v\<rparr>)\<rparr>"

definition cbs_is_queued :: "thread_ref \<Rightarrow> sched_sys \<Rightarrow> bool" where
  "cbs_is_queued t s =
     (case sched_ctl (threads s t) of None \<Rightarrow> False | Some p \<Rightarrow> t \<in> set (cbs_rq p s))"

text \<open>\<open>obj->sched_ctl->curr_obj == obj\<close>; the callers have followed \<open>sched_ctl\<close> before.\<close>

definition cbs_is_current :: "thread_ref \<Rightarrow> sched_sys \<Rightarrow> bool" where
  "cbs_is_current t s =
     (case sched_ctl (threads s t) of None \<Rightarrow> False | Some p \<Rightarrow> curr p s = Some t)"

definition cbs_is_active :: "thread_ref \<Rightarrow> sched_sys \<Rightarrow> bool" where
  "cbs_is_active t s \<longleftrightarrow>
     \<not> is_idle_thread t s
     \<and> (cbs_is_current t s \<and> \<not> be_blocking (threads s t)
        \<or> status (threads s t) = THREAD_STS_RUNNABLE)"

text \<open>The period and the budget in microseconds; a reservation that makes no sense panics.\<close>

definition cbs_normalize_us :: "nat \<Rightarrow> sched_params \<Rightarrow> sched_sys \<Rightarrow> u32 \<times> u32 \<times> sched_sys" where
  "cbs_normalize_us p params s =
     (let pool = sched_get_pcpu_pool_config p s;
          period = (if cbs_period_us params \<noteq> 0 then cbs_period_us params else CBS_DEFAULT_PERIOD_US);
          budget = (if cbs_budget_us params \<noteq> 0 then cbs_budget_us params else CBS_DEFAULT_BUDGET_US);
          (period, budget) =
            (case pool of
               None \<Rightarrow> (period, budget)
             | Some pl \<Rightarrow>
                 if policy pl = SCHED_POLICY_CBS
                 then (if cbs_period_us params = 0 \<and> pool_period_us pl \<noteq> 0 then pool_period_us pl else period,
                       if cbs_budget_us params = 0 \<and> pool_budget_us pl \<noteq> 0 then pool_budget_us pl else budget)
                 else (period, budget));
          s = (if period < CBS_MIN_PERIOD_US then panic ''CBS period below minimum'' s else s);
          s = (if budget < CBS_MIN_BUDGET_US then panic ''CBS budget below minimum'' s else s);
          s = (if budget > period then panic ''CBS budget > period'' s else s)
      in (period, budget, s))"

definition cbs_queue_remove :: "thread_ref \<Rightarrow> sched_sys \<Rightarrow> sched_sys" where
  "cbs_queue_remove t s =
     (if cbs_is_queued t s then
        (case sched_ctl (threads s t) of
           None \<Rightarrow> s
         | Some p \<Rightarrow> set_cbs_runqueue p (remove1 t (cbs_rq p s)) s)
      else s)"

text \<open>\<open>data->deadline_ticks < iter_data->deadline_ticks\<close>\<close>

definition cbs_earlier :: "sched_sys \<Rightarrow> thread_ref \<Rightarrow> thread_ref \<Rightarrow> bool" where
  "cbs_earlier s x y \<longleftrightarrow> cbs_deadline_ticks (cbs x s) < cbs_deadline_ticks (cbs y s)"

definition cbs_queue_insert :: "thread_ref \<Rightarrow> sched_sys \<Rightarrow> sched_sys" where
  "cbs_queue_insert t =
     with_ctl t (\<lambda>p s.
       let s = (if cbs_is_queued t s then cbs_queue_remove t s else s)
       in set_cbs_runqueue p (insert_before (cbs_earlier s t) t (cbs_rq p s)) s)"

definition cbs_account_runtime :: "thread_ref \<Rightarrow> u64 \<Rightarrow> sched_sys \<Rightarrow> sched_sys" where
  "cbs_account_runtime t now s =
     (if is_idle_thread t s \<or> \<not> is_running t s
         \<or> cbs_last_start_ticks (cbs t s) = 0 \<or> now \<le> cbs_last_start_ticks (cbs t s)
      then s
      else
        let delta = now - cbs_last_start_ticks (cbs t s);
            s = upd_cbs t (\<lambda>d. (cbs_record_late_account now d)\<lparr>cbs_last_start_ticks := now\<rparr>) s
        in run_cbs t (cbs_charge_runtime delta True) s)"

definition cbs_refresh_thread :: "u64 \<Rightarrow> thread_ref \<Rightarrow> sched_sys \<Rightarrow> sched_sys" where
  "cbs_refresh_thread now t s =
     (if is_idle_thread t s then s
      else with_ctl t (\<lambda>p s.
        if \<not> cbs_is_active t s then s
        else cbs_queue_insert t (run_cbs t (cbs_refresh_active_window now) s)) s)"

definition cbs_refresh_queued :: "u64 \<Rightarrow> thread_ref \<Rightarrow> sched_sys \<Rightarrow> sched_sys" where
  "cbs_refresh_queued now t s =
     (if cbs_remaining_ticks (cbs t s) = 0 \<or> cbs_deadline_ticks (cbs t s) \<le> now
      then cbs_refresh_thread now t (cbs_queue_remove t s) else s)"

definition cbs_refresh_queues :: "nat \<Rightarrow> u64 \<Rightarrow> sched_sys \<Rightarrow> sched_sys" where
  "cbs_refresh_queues c now s = or_diverges s (for_each_safe (cbs_rq c) (cbs_refresh_queued now) s)"

section \<open>Timer\<close>

text \<open>The deadline for the running server, moved up to \<open>now\<close> if it has passed; 0 is none.\<close>

definition cbs_timeout :: "thread_ref option \<Rightarrow> u64 \<Rightarrow> sched_sys \<Rightarrow> u64" where
  "cbs_timeout running now s =
     (let timeout =
            (case running of
               None \<Rightarrow> 0
             | Some t \<Rightarrow>
                 if is_idle_thread t s then 0
                 else
                   let d = cbs t s
                   in if cbs_remaining_ticks d > 0 then
                        let timeout = (if cbs_last_start_ticks d \<noteq> 0
                                       then cbs_last_start_ticks d + cbs_remaining_ticks d
                                       else now + cbs_remaining_ticks d)
                        in if cbs_deadline_ticks d < timeout then cbs_deadline_ticks d else timeout
                      else now)
      in if timeout \<le> now then if timeout = 0 then 0 else now else timeout)"

definition cbs_program_local_timer :: "nat \<Rightarrow> thread_ref option \<Rightarrow> sched_sys \<Rightarrow> sched_sys" where
  "cbs_program_local_timer c running s =
     (let now = cpu_ticks s;
          s = tick_read s;
          s = assertion (ctl_pcpu_id (sched_ctls s c) = cur_pcpu s) ''program CBS timer on wrong cpu!'' s;
          timeout = cbs_timeout running now s
      in if timeout = cbs_timer_deadline_ticks (cbs_ctl s c) then s
         else
           let s = (if cbs_timer_deadline_ticks (cbs_ctl s c) \<noteq> 0
                    then set_cbs_timer_deadline c 0 (del_timer (Some (CbsTick c)) s) else s)
           in if timeout \<noteq> 0
              then set_cbs_timer_deadline c timeout
                     (snd (add_timer (Some (CbsTick c)) (update_timer (Some (CbsTick c)) timeout 0 s)))
              else s)"

definition cbs_program_timer :: "nat \<Rightarrow> thread_ref option \<Rightarrow> sched_sys \<Rightarrow> sched_sys" where
  "cbs_program_timer c running s =
     (if ctl_pcpu_id (sched_ctls s c) = cur_pcpu s then cbs_program_local_timer c running s else s)"

definition cbs_settle_current :: "nat \<Rightarrow> u64 \<Rightarrow> sched_sys \<Rightarrow> sched_sys" where
  "cbs_settle_current c now s =
     (case curr c s of
        None \<Rightarrow> s
      | Some current \<Rightarrow>
          if is_idle_thread current s then s
          else cbs_refresh_thread now current (cbs_account_runtime current now s))"

definition cbs_timer_handler :: "nat \<Rightarrow> sched_sys \<Rightarrow> sched_sys" where
  "cbs_timer_handler c s =
     (let p = cur_pcpu s;
          now = cpu_ticks s;
          s = tick_read s;
          s = set_cbs_timer_deadline c 0 s;
          s = sched_account_tick c s;
          current = curr c s;
          s = cbs_settle_current c now s;
          s = cbs_refresh_queues c now s;
          s = make_reschedule_request p s
      in cbs_program_local_timer c current s)"

section \<open>Admission\<close>

definition cbs_vm_uses_pcpu :: "acrn_vm_config \<Rightarrow> nat \<Rightarrow> bool" where
  "cbs_vm_uses_pcpu cfg p =
     (if cpu_affinity_order cfg \<noteq> [] then p \<in> set (cpu_affinity_order cfg)
      else and (cpu_affinity cfg) (AFFINITY_CPU p) \<noteq> 0)"

definition cbs_admit_vm :: "nat \<Rightarrow> nat \<Rightarrow> u64 \<times> sched_sys \<Rightarrow> u64 \<times> sched_sys" where
  "cbs_admit_vm p vm us =
     (let (utilization, s) = us;
          cfg = vm_configs s vm
      in if \<not> cbs_vm_uses_pcpu cfg p then (utilization, s)
         else
           let (period_us, budget_us, s) = cbs_normalize_us p (vm_sched_params cfg) s;
               utilization = utilization + (ucast budget_us * CBS_UTIL_SCALE) div ucast period_us
           in (utilization,
               if utilization > CBS_UTIL_SCALE then panic ''CBS admission failed'' s else s))"

definition cbs_validate_pcpu_admission :: "nat \<Rightarrow> sched_sys \<Rightarrow> u64 \<times> sched_sys" where
  "cbs_validate_pcpu_admission p s = fold (cbs_admit_vm p) [0..<CONFIG_MAX_VM_NUM] (0, s)"

section \<open>Hooks\<close>

definition sched_cbs_init :: "nat \<Rightarrow> sched_sys \<Rightarrow> sched_sys" where
  "sched_cbs_init c s =
     (let s = assertion (ctl_pcpu_id (sched_ctls s c) = cur_pcpu s) ''init scheduler on wrong cpu!'' s;
          s = upd_ctl c (\<lambda>ct. ct\<lparr>priv := True\<rparr>) s;
          s = set_cbs_runqueue c [] s;
          (util, s) = cbs_validate_pcpu_admission (ctl_pcpu_id (sched_ctls s c)) s;
          s = s\<lparr>cbs_ctl := (cbs_ctl s)(c := (cbs_ctl s c)\<lparr>cbs_admission_utilization := util,
                                                       cbs_timer_deadline_ticks := 0\<rparr>)\<rparr>
      in initialize_timer (Some (CbsTick c)) (Some Cbs_timer_handler) c 0 0 s)"

definition sched_cbs_deinit :: "nat \<Rightarrow> sched_sys \<Rightarrow> sched_sys" where
  "sched_cbs_deinit c s = set_cbs_timer_deadline c 0 (del_timer (Some (CbsTick c)) s)"

definition sched_cbs_init_data :: "thread_ref \<Rightarrow> sched_params \<Rightarrow> sched_sys \<Rightarrow> sched_sys" where
  "sched_cbs_init_data t params s =
     (let now = cpu_ticks s;
          s = tick_read s;
          (period_us, budget_us, s) = cbs_normalize_us (pcpu_id (threads s t)) params s;
          period = us_to_ticks (khz s) period_us;
          budget = us_to_ticks (khz s) budget_us
      in upd_cbs t (\<lambda>d. d\<lparr>cbs_period_ticks := period, cbs_budget_ticks := budget,
             cbs_remaining_ticks := budget, cbs_deadline_ticks := now + period,
             cbs_last_start_ticks := 0, cbs_depleted_count := 0, cbs_replenish_count := 0,
             cbs_wake_replenish_count := 0, cbs_late_account_count := 0\<rparr>) s)"

definition sched_cbs_pick_next :: "nat \<Rightarrow> sched_sys \<Rightarrow> thread_ref \<times> sched_sys" where
  "sched_cbs_pick_next c s =
     (let now = cpu_ticks s;
          s = tick_read s;
          s = cbs_settle_current c now s;
          s = cbs_refresh_queues c now s;
          (next, s) = (case cbs_rq c s of
                         next # _ \<Rightarrow> (next, cbs_queue_remove next s)
                       | [] \<Rightarrow> (idle_var s, s));
          s = (if is_idle_thread next s then s
               else upd_cbs next (\<lambda>d. d\<lparr>cbs_last_start_ticks := now\<rparr>) s)
      in (next, cbs_program_timer c (Some next) s))"

definition sched_cbs_sleep :: "thread_ref \<Rightarrow> sched_sys \<Rightarrow> sched_sys" where
  "sched_cbs_sleep t =
     with_ctl t (\<lambda>p s.
       let s = (if cbs_is_current t s then cbs_account_runtime t (cpu_ticks s) (tick_read s) else s);
           s = cbs_queue_remove t s;
           s = upd_cbs t (\<lambda>d. d\<lparr>cbs_last_start_ticks := 0\<rparr>) s
       in cbs_program_timer p (if cbs_is_current t s then None else curr p s) s)"

definition sched_cbs_wake :: "thread_ref \<Rightarrow> sched_sys \<Rightarrow> sched_sys" where
  "sched_cbs_wake t s =
     (let now = cpu_ticks s;
          s = tick_read s;
          s = run_cbs t (cbs_apply_inactive_wake_rule now) s;
          s = upd_cbs t (\<lambda>d. d\<lparr>cbs_last_start_ticks := 0\<rparr>) s;
          s = cbs_queue_insert t s
      in with_ctl t (\<lambda>p s. cbs_program_timer p (curr p s) s) s)"

definition sched_cbs_prioritize :: "thread_ref \<Rightarrow> sched_sys \<Rightarrow> sched_sys" where
  "sched_cbs_prioritize t s =
     (let now = cpu_ticks s;
          s = tick_read s;
          s = run_cbs t (cbs_refresh_active_window now) s
      in with_ctl t (\<lambda>p s. if \<not> cbs_is_current t s then cbs_queue_insert t s else s) s)"

definition sched_cbs_suspend :: "nat \<Rightarrow> sched_sys \<Rightarrow> sched_sys" where
  "sched_cbs_suspend c s = sched_cbs_deinit c s"

definition sched_cbs :: acrn_scheduler where
  "sched_cbs = \<lparr>sched_name = ''sched_cbs'', stat_desc = ''partitioned-edf-cbs:dts-defaults'',
     hook_init = Some sched_cbs_init, hook_init_data = Some sched_cbs_init_data,
     hook_pick_next = Some sched_cbs_pick_next, hook_sleep = Some sched_cbs_sleep,
     hook_wake = Some sched_cbs_wake, hook_yield = None, hook_prioritize = Some sched_cbs_prioritize,
     hook_deinit_data = None, hook_deinit = Some sched_cbs_deinit,
     hook_suspend = Some sched_cbs_suspend, hook_resume = None\<rparr>"

record sched_cbs_stats =
  cst_period_ticks :: u64
  cst_budget_ticks :: u64
  cst_remaining_ticks :: u64
  cst_deadline_ticks :: u64
  cst_last_start_ticks :: u64
  cst_depleted_count :: u64
  cst_replenish_count :: u64
  cst_wake_replenish_count :: u64
  cst_late_account_count :: u64

text \<open>\<open>None\<close>: the charge does not end.\<close>

definition sched_cbs_snapshot :: "thread_ref \<Rightarrow> sched_sys \<Rightarrow> sched_cbs_stats option \<times> sched_sys" where
  "sched_cbs_snapshot t s =
     (let d = cbs t s;
          now = cpu_ticks s;
          stats = \<lparr>cst_period_ticks = cbs_period_ticks d, cst_budget_ticks = cbs_budget_ticks d,
                   cst_remaining_ticks = cbs_remaining_ticks d, cst_deadline_ticks = cbs_deadline_ticks d,
                   cst_last_start_ticks = cbs_last_start_ticks d, cst_depleted_count = cbs_depleted_count d,
                   cst_replenish_count = cbs_replenish_count d,
                   cst_wake_replenish_count = cbs_wake_replenish_count d,
                   cst_late_account_count = cbs_late_account_count d\<rparr>
      in (if is_running t s \<and> \<not> is_idle_thread t s \<and> cbs_last_start_ticks d \<noteq> 0
             \<and> now > cbs_last_start_ticks d
          then map_option (\<lambda>live. stats\<lparr>cst_remaining_ticks := cbs_remaining_ticks live,
                                      cst_deadline_ticks := cbs_deadline_ticks live\<rparr>)
                 (cbs_charge_runtime (now - cbs_last_start_ticks d) False d)
          else Some stats, tick_read s))"

text \<open>\<open>has_stats\<close> tells whether the pointer for the result is set.\<close>

definition sched_get_cbs_stats ::
  "thread_ref option \<Rightarrow> bool \<Rightarrow> sched_sys \<Rightarrow> sched_cbs_stats option \<times> sched_sys" where
  "sched_get_cbs_stats obj has_stats s =
     (case obj of
        None \<Rightarrow> (None, s)
      | Some t \<Rightarrow>
          (case sched_ctl (threads s t) of
             None \<Rightarrow> (None, s)
           | Some c \<Rightarrow>
               if has_stats \<and> scheduler (sched_ctls s c) = Some Sched_cbs
               then (case sched_cbs_snapshot t s of
                       (Some st, s) \<Rightarrow> (Some st, s)
                     | (None, s) \<Rightarrow> (None, or_diverges s None))
               else (None, s)))"

definition cbs_runqueue_count :: "nat \<Rightarrow> sched_sys \<Rightarrow> u32" where
  "cbs_runqueue_count c s = fold (\<lambda>_ cnt. cnt + 1) (cbs_rq c s) 0"

definition sched_get_cbs_pcpu_stats :: "nat \<Rightarrow> bool \<Rightarrow> sched_sys \<Rightarrow> (u64 \<times> u32) option" where
  "sched_get_cbs_pcpu_stats p has_stats s =
     (if p < pcpu_nums s \<and> has_stats \<and> scheduler (sched_ctls s p) = Some Sched_cbs \<and> priv (sched_ctls s p)
      then Some (cbs_admission_utilization (cbs_ctl s p), cbs_runqueue_count p s) else None)"

section \<open>The server's loops end\<close>

definition cbs_server :: "sched_cbs_data \<Rightarrow> bool" where
  "cbs_server d \<longleftrightarrow> 0 < cbs_budget_ticks d \<and> cbs_budget_ticks d \<le> cbs_period_ticks d
     \<and> cbs_remaining_ticks d \<le> cbs_budget_ticks d"

text \<open>\<open>cbs_later k d d'\<close>: the same reservation, its deadline \<open>k\<close> periods later.\<close>

definition cbs_later :: "nat \<Rightarrow> sched_cbs_data \<Rightarrow> sched_cbs_data \<Rightarrow> bool" where
  "cbs_later k d d' \<longleftrightarrow>
     cbs_period_ticks d' = cbs_period_ticks d \<and> cbs_budget_ticks d' = cbs_budget_ticks d
     \<and> cbs_last_start_ticks d' = cbs_last_start_ticks d
     \<and> unat (cbs_deadline_ticks d') = min (2 ^ 64 - 1) (unat (cbs_deadline_ticks d) + k * unat (cbs_period_ticks d))"

lemma cbs_later_0: "cbs_later 0 d d"
proof -
  have "unat (cbs_deadline_ticks d) < 2 ^ 64" using unsigned_less [of "cbs_deadline_ticks d"] by simp
  then show ?thesis by (simp add: cbs_later_def)
qed

lemma cbs_later_trans: "cbs_later j d d' \<Longrightarrow> cbs_later k d' d'' \<Longrightarrow> cbs_later (j + k) d d''"
  by (simp add: cbs_later_def min_def algebra_simps)

lemma cbs_next_window:
  "cbs_later 1 d (cbs_replenish_next_window cnt d)"
  "cbs_remaining_ticks (cbs_replenish_next_window cnt d) = cbs_budget_ticks d"
proof -
  have "cbs_deadline_ticks (cbs_replenish_next_window cnt d) = sat_add (cbs_deadline_ticks d) (cbs_period_ticks d)"
    by (simp add: cbs_replenish_next_window_def cbs_count_replenish_def sat_add_def Let_def)
  then show "cbs_later 1 d (cbs_replenish_next_window cnt d)"
    by (simp add: cbs_later_def unat_sat_add min.commute)
      (simp add: cbs_replenish_next_window_def cbs_count_replenish_def Let_def)
  show "cbs_remaining_ticks (cbs_replenish_next_window cnt d) = cbs_budget_ticks d"
    by (simp add: cbs_replenish_next_window_def cbs_count_replenish_def Let_def)
qed

text \<open>
  The deadline moves by whole periods to the first that is still to come, unless the counter ends
  before it.
\<close>

lemma cbs_window_loop_ends:
  assumes "0 < cbs_period_ticks d"
  shows "\<exists>d' k. cbs_window_loop now cnt d = Some d' \<and> cbs_later (Suc k) d d' \<and> cbs_remaining_ticks d' = cbs_budget_ticks d
    \<and> (now < cbs_deadline_ticks d' \<or> cbs_deadline_ticks d' = UINT64_MAX)
    \<and> (0 < k \<longrightarrow> unat (cbs_deadline_ticks d) + k * unat (cbs_period_ticks d) \<le> unat now)"
  using assms
proof (induction "2 ^ 64 - unat (cbs_deadline_ticks d)" arbitrary: d rule: less_induct)
  case less
  let ?d = "cbs_replenish_next_window cnt d"
  note W = cbs_next_window [where d = d and cnt = cnt]
  have pd: "cbs_period_ticks ?d = cbs_period_ticks d" using W(1) by (simp add: cbs_later_def)
  show ?case
  proof (cases "cbs_deadline_ticks ?d \<le> now \<and> cbs_deadline_ticks ?d \<noteq> UINT64_MAX")
    case False
    then have "cbs_window_loop now cnt d = Some ?d" by (subst cbs_window_loop.simps) (auto simp: Let_def)
    then show ?thesis using False W by (intro exI [of _ ?d] exI [of _ 0]) auto
  next
    case True
    have "unat (cbs_deadline_ticks ?d) \<noteq> 2 ^ 64 - 1"
    proof
      assume "unat (cbs_deadline_ticks ?d) = 2 ^ 64 - 1"
      then have "unat (cbs_deadline_ticks ?d) = unat UINT64_MAX" by (simp add: unat_max_word)
      then show False using True by (simp only: word_unat_eq_iff [symmetric])
    qed
    then have eq: "unat (cbs_deadline_ticks ?d) = unat (cbs_deadline_ticks d) + unat (cbs_period_ticks d)"
      using W(1) by (simp add: cbs_later_def min_def split: if_splits)
    have "0 < unat (cbs_period_ticks d)" using less.prems by (simp add: word_less_nat_alt)
    moreover have "unat (cbs_deadline_ticks ?d) < 2 ^ 64" using unsigned_less [of "cbs_deadline_ticks ?d"] by simp
    ultimately have "2 ^ 64 - unat (cbs_deadline_ticks ?d) < 2 ^ 64 - unat (cbs_deadline_ticks d)" using eq by simp
    from less.hyps [OF this] less.prems pd obtain d' k where
      IH: "cbs_window_loop now cnt ?d = Some d'" "cbs_later (Suc k) ?d d'" "cbs_remaining_ticks d' = cbs_budget_ticks ?d"
        "now < cbs_deadline_ticks d' \<or> cbs_deadline_ticks d' = UINT64_MAX"
        "0 < k \<longrightarrow> unat (cbs_deadline_ticks ?d) + k * unat (cbs_period_ticks ?d) \<le> unat now" by auto
    have "cbs_window_loop now cnt d = Some d'" using True IH(1) by (subst cbs_window_loop.simps) (simp add: Let_def)
    moreover have "cbs_later (Suc (Suc k)) d d'" using cbs_later_trans [OF W(1) IH(2)] by simp
    moreover have "unat (cbs_deadline_ticks d) + Suc k * unat (cbs_period_ticks d) \<le> unat now"
      using IH(5) True eq pd by (cases k) (simp_all add: word_le_nat_alt)
    ultimately show ?thesis using IH W(1) by (intro exI [of _ d'] exI [of _ "Suc k"]) (simp add: cbs_later_def)
  qed
qed

text \<open>
  Charging \<open>delta\<close> ticks: what was charged is the budget that was left and \<open>k\<close> fresh budgets, less
  what is left now, and every fresh budget put the deadline a period off. No fresh budget is taken
  before the old one is used up.
\<close>

lemma cbs_charge_runtime_ends:
  assumes "0 < cbs_budget_ticks d"
  shows "\<exists>d' k. cbs_charge_runtime delta cnt d = Some d' \<and> cbs_later k d d'
    \<and> unat (cbs_remaining_ticks d') + unat delta = unat (cbs_remaining_ticks d) + k * unat (cbs_budget_ticks d)
    \<and> cbs_remaining_ticks d' \<le> max (cbs_remaining_ticks d) (cbs_budget_ticks d)
    \<and> (0 < k \<longrightarrow> unat (cbs_remaining_ticks d) + (k - 1) * unat (cbs_budget_ticks d) < unat delta)"
  using assms
proof (induction "unat delta" arbitrary: delta d rule: less_induct)
  case less
  let ?B = "unat (cbs_budget_ticks d)"
  show ?case
  proof (cases "delta = 0")
    case True
    then have "cbs_charge_runtime delta cnt d = Some d" by (subst cbs_charge_runtime.simps) simp
    then show ?thesis using True cbs_later_0 by (intro exI [of _ d] exI [of _ 0]) simp
  next
    case False
    then have D: "0 < unat delta" by (simp add: unat_gt_0)
    define k0 :: nat where "k0 = (if cbs_remaining_ticks d = 0 then 1 else 0)"
    define d1 where "d1 = (if cbs_remaining_ticks d = 0 then cbs_replenish_next_window cnt d else d)"
    have l1: "cbs_later k0 d d1" using cbs_next_window cbs_later_0 by (simp add: d1_def k0_def)
    have r1: "unat (cbs_remaining_ticks d1) = unat (cbs_remaining_ticks d) + k0 * ?B"
      "cbs_remaining_ticks d1 \<le> max (cbs_remaining_ticks d) (cbs_budget_ticks d)"
      using cbs_next_window(2) by (auto simp: d1_def k0_def)
    have pos: "0 < unat (cbs_remaining_ticks d1)"
      using less.prems by (simp add: r1(1) k0_def word_less_nat_alt unat_gt_0)
    have k0D: "0 < k0 \<longrightarrow> unat (cbs_remaining_ticks d) < unat delta" using D by (simp add: k0_def)
    have step: "cbs_charge_runtime delta cnt d =
        (if delta < cbs_remaining_ticks d1 then Some (d1\<lparr>cbs_remaining_ticks := cbs_remaining_ticks d1 - delta\<rparr>)
         else cbs_charge_runtime (delta - cbs_remaining_ticks d1) cnt
           (let d = d1\<lparr>cbs_remaining_ticks := 0\<rparr>
            in if cnt then d\<lparr>cbs_depleted_count := cbs_count_event (cbs_depleted_count d)\<rparr> else d))"
      using False by (subst cbs_charge_runtime.simps) (simp add: d1_def Let_def)
    show ?thesis
    proof (cases "delta < cbs_remaining_ticks d1")
      case True
      let ?d = "d1\<lparr>cbs_remaining_ticks := cbs_remaining_ticks d1 - delta\<rparr>"
      have "unat (cbs_remaining_ticks ?d) = unat (cbs_remaining_ticks d1) - unat delta"
        using True by (simp add: unat_diff_le)
      moreover from this have "cbs_remaining_ticks ?d \<le> cbs_remaining_ticks d1" by (simp add: word_le_nat_alt)
      moreover have "cbs_later k0 d ?d" using l1 by (simp add: cbs_later_def)
      ultimately show ?thesis using True step r1 k0D
        by (intro exI [of _ ?d] exI [of _ k0]) (auto simp: word_less_nat_alt k0_def intro: order.trans)
    next
      case False
      define d2 where "d2 = (let d = d1\<lparr>cbs_remaining_ticks := 0\<rparr>
            in if cnt then d\<lparr>cbs_depleted_count := cbs_count_event (cbs_depleted_count d)\<rparr> else d)"
      have l2: "cbs_later 0 d1 d2" "cbs_remaining_ticks d2 = 0" "cbs_budget_ticks d2 = cbs_budget_ticks d"
        using l1 cbs_later_0 [of d1] by (auto simp: d2_def Let_def cbs_later_def)
      have ud: "unat (delta - cbs_remaining_ticks d1) = unat delta - unat (cbs_remaining_ticks d1)"
        using False by (simp add: unat_diff_le)
      then have "unat (delta - cbs_remaining_ticks d1) < unat delta" using pos D by simp
      from less.hyps [OF this, of d2] less.prems l2 obtain d' k where
        IH: "cbs_charge_runtime (delta - cbs_remaining_ticks d1) cnt d2 = Some d'" "cbs_later k d2 d'"
          "unat (cbs_remaining_ticks d') + unat (delta - cbs_remaining_ticks d1) = k * ?B"
          "cbs_remaining_ticks d' \<le> max 0 (cbs_budget_ticks d)"
          "0 < k \<longrightarrow> (k - 1) * ?B < unat (delta - cbs_remaining_ticks d1)" by auto
      have "cbs_later (k0 + k) d d'" using cbs_later_trans [OF l1 cbs_later_trans [OF l2(1) IH(2)]] by simp
      moreover have le: "unat (cbs_remaining_ticks d1) \<le> unat delta" using False by (simp add: word_less_nat_alt)
      then have "unat (cbs_remaining_ticks d') + unat delta = unat (cbs_remaining_ticks d) + (k0 + k) * ?B"
        using IH(3) ud r1(1) by (simp add: algebra_simps)
      moreover have "unat (cbs_remaining_ticks d) + (k0 + k - 1) * ?B < unat delta" if "0 < k0 + k"
        using IH(5) ud r1(1) k0D le that by (cases k) (auto simp: k0_def algebra_simps split: if_splits)
      moreover have "cbs_remaining_ticks d' \<le> max (cbs_remaining_ticks d) (cbs_budget_ticks d)"
        using IH(4) by (auto simp: le_max_iff_disj)
      ultimately show ?thesis using IH(1) False step by (intro exI [of _ d'] exI [of _ "k0 + k"]) (simp add: d2_def)
    qed
  qed
qed

lemma cbs_from_now:
  "cbs_period_ticks (cbs_replenish_from_now now cnt d) = cbs_period_ticks d"
  "cbs_budget_ticks (cbs_replenish_from_now now cnt d) = cbs_budget_ticks d"
  "cbs_remaining_ticks (cbs_replenish_from_now now cnt d) = cbs_budget_ticks d"
  "cbs_deadline_ticks (cbs_replenish_from_now now cnt d) = now + cbs_period_ticks d"
  "cbs_last_start_ticks (cbs_replenish_from_now now cnt d) = cbs_last_start_ticks d"
  by (simp_all add: cbs_replenish_from_now_def cbs_count_replenish_def)

lemma now_less_add:
  fixes now p :: u64
  assumes "0 < p" and "unat now + unat p < 2 ^ 64"
  shows "now < now + p"
  using assms by (simp add: word_less_nat_alt unat_add_nowrap)

lemma cbs_after_depletion:
  assumes "cbs_server d"
  obtains d' where "cbs_replenish_after_depletion now cnt d = Some d'" "cbs_server d'"
    "cbs_remaining_ticks d' = cbs_budget_ticks d" "cbs_period_ticks d' = cbs_period_ticks d"
    "cbs_budget_ticks d' = cbs_budget_ticks d"
    "unat now + unat (cbs_period_ticks d) < 2 ^ 64 \<Longrightarrow> now < cbs_deadline_ticks d'"
proof (cases "cbs_deadline_ticks d = 0")
  case True
  let ?d = "cbs_replenish_from_now now cnt d"
  have p: "0 < cbs_period_ticks d" using assms by (auto simp: cbs_server_def)
  show thesis
    by (rule that [of ?d])
      (use True assms now_less_add [OF p] in \<open>simp_all add: cbs_replenish_after_depletion_def cbs_server_def cbs_from_now\<close>)
next
  case False
  have p: "0 < cbs_period_ticks d" using assms by (auto simp: cbs_server_def)
  then obtain d' k where d': "cbs_window_loop now cnt d = Some d'" "cbs_later (Suc k) d d'"
      "cbs_remaining_ticks d' = cbs_budget_ticks d" "now < cbs_deadline_ticks d' \<or> cbs_deadline_ticks d' = UINT64_MAX"
    using cbs_window_loop_ends by blast
  have "now < cbs_deadline_ticks d'" if "unat now + unat (cbs_period_ticks d) < 2 ^ 64"
  proof -
    have "0 < unat (cbs_period_ticks d)" using p by (simp add: word_less_nat_alt)
    then have "unat now < 2 ^ 64 - 1" using that by linarith
    then have "now < UINT64_MAX" unfolding word_less_nat_alt unat_max_word by simp
    then show ?thesis using d'(4) by auto
  qed
  then show thesis using False assms d'
    by (intro that [of d']) (simp_all add: cbs_replenish_after_depletion_def cbs_server_def cbs_later_def)
qed

lemma cbs_active_window:
  assumes "cbs_server d"
  obtains d' where "cbs_refresh_active_window now d = Some d'" "cbs_server d'" "0 < cbs_remaining_ticks d'"
    "cbs_period_ticks d' = cbs_period_ticks d" "cbs_budget_ticks d' = cbs_budget_ticks d"
    "unat now + unat (cbs_period_ticks d) < 2 ^ 64 \<Longrightarrow> now < cbs_deadline_ticks d'"
    "cbs_remaining_ticks d \<noteq> 0 \<and> now < cbs_deadline_ticks d \<Longrightarrow> d' = d"
proof (cases "cbs_remaining_ticks d = 0")
  case True
  obtain d' where "cbs_replenish_after_depletion now True d = Some d'" "cbs_server d'"
    "cbs_remaining_ticks d' = cbs_budget_ticks d" "cbs_period_ticks d' = cbs_period_ticks d"
    "cbs_budget_ticks d' = cbs_budget_ticks d"
    "unat now + unat (cbs_period_ticks d) < 2 ^ 64 \<Longrightarrow> now < cbs_deadline_ticks d'"
    using cbs_after_depletion [OF assms] by blast
  then show thesis using True assms by (intro that [of d']) (simp_all add: cbs_refresh_active_window_def cbs_server_def)
next
  case False
  let ?d = "if cbs_deadline_ticks d \<le> now then cbs_replenish_from_now now True d else d"
  have p: "0 < cbs_period_ticks d" using assms by (auto simp: cbs_server_def)
  show thesis by (rule that [of ?d])
    (use False assms now_less_add [OF p] in
      \<open>auto simp: cbs_refresh_active_window_def cbs_server_def cbs_from_now word_gt_0\<close>)
qed

lemma unat_prod_less: "unat (a :: u64) * unat (b :: u64) < 2 ^ 128"
proof -
  have "unat a < 2 ^ 64" "unat b < 2 ^ 64" using unsigned_less [of a] unsigned_less [of b] by simp_all
  then have "unat a * unat b < 2 ^ 64 * 2 ^ 64" by (intro mult_strict_mono) auto
  then show ?thesis by simp
qed

lemma unat_ucast_u128 [simp]: "unat (ucast (x :: u64) :: 128 word) = unat x"
proof -
  have "unat x < 2 ^ 64" using unsigned_less [of x] by simp
  then have "unat x < 2 ^ 128" by (rule less_trans) simp
  then show ?thesis by (simp add: unsigned_ucast_eq take_bit_nat_eq_self)
qed

text \<open>The 128-bit products do not wrap: this is the comparison of the two fractions.\<close>

lemma cbs_ratio_greater_iff:
  "cbs_ratio_greater a b c d \<longleftrightarrow> unat c * unat b < unat a * unat d"
  using unat_prod_less [of a d] unat_prod_less [of c b]
  by (simp add: cbs_ratio_greater_def word_less_nat_alt unat_mult_nowrap)

lemma cbs_wake_rule:
  assumes "cbs_server d"
  obtains d' where "cbs_apply_inactive_wake_rule now d = Some d'" "cbs_server d'" "0 < cbs_remaining_ticks d'"
    "cbs_period_ticks d' = cbs_period_ticks d" "cbs_budget_ticks d' = cbs_budget_ticks d"
    "cbs_remaining_ticks d \<noteq> 0 \<Longrightarrow> unat now + unat (cbs_period_ticks d) < 2 ^ 64
       \<Longrightarrow> \<not> cbs_needs_wake_replenish now d'"
proof (cases "cbs_remaining_ticks d = 0")
  case True
  obtain d' where d': "cbs_replenish_after_depletion now True d = Some d'" "cbs_server d'"
    "cbs_remaining_ticks d' = cbs_budget_ticks d" "cbs_period_ticks d' = cbs_period_ticks d"
    "cbs_budget_ticks d' = cbs_budget_ticks d"
    using cbs_after_depletion [OF assms] by metis
  show thesis
    by (rule that [of "d'\<lparr>cbs_wake_replenish_count := cbs_count_event (cbs_wake_replenish_count d')\<rparr>"])
      (use True assms d' in \<open>simp_all add: cbs_apply_inactive_wake_rule_def cbs_server_def\<close>)
next
  case False
  let ?f = "\<lambda>d. d\<lparr>cbs_wake_replenish_count := cbs_count_event (cbs_wake_replenish_count d)\<rparr>"
  let ?d = "if cbs_needs_wake_replenish now d then ?f (cbs_replenish_from_now now True d) else d"
  have p: "0 < cbs_period_ticks d" using assms by (auto simp: cbs_server_def)
  have "\<not> cbs_needs_wake_replenish now ?d" if "unat now + unat (cbs_period_ticks d) < 2 ^ 64"
    using now_less_add [OF p that, unfolded not_le [symmetric]] by (simp add: cbs_needs_wake_replenish_def cbs_from_now cbs_ratio_greater_iff Let_def)
  then show thesis
    by (intro that [of ?d])
      (use False assms in \<open>auto simp: cbs_apply_inactive_wake_rule_def cbs_server_def cbs_from_now word_gt_0\<close>)
qed

section \<open>Frames\<close>

lemma upd_cbs_simps [simp]:
  "cbs_rq q (upd_cbs t f s) = cbs_rq q s" "cbs_ctl (upd_cbs t f s) = cbs_ctl s"
  "timer_ok (upd_cbs t f s) = timer_ok s" "sched_ctls (upd_cbs t f s) = sched_ctls s"
  "sched_ctl (threads (upd_cbs t f s) u) = sched_ctl (threads s u)"
  "pcpu_id (threads (upd_cbs t f s) u) = pcpu_id (threads s u)" "cur_pcpu (upd_cbs t f s) = cur_pcpu s"
  "is_idle_thread u (upd_cbs t f s) = is_idle_thread u s" "curr q (upd_cbs t f s) = curr q s"
  "cbs u (upd_cbs t f s) = (if u = t then f (cbs t s) else cbs u s)" "fault (upd_cbs t f s) = fault s"
  by (simp_all add: upd_cbs_def is_idle_thread_def curr_def cbs_rq_def)

lemma set_cbs_runqueue_simps [simp]:
  "cbs_rq r (set_cbs_runqueue p q s) = (if r = p then q else cbs_rq r s)"
  "threads (set_cbs_runqueue p q s) = threads s" "timer_ok (set_cbs_runqueue p q s) = timer_ok s"
  "set_cbs_runqueue p q (set_cbs_runqueue p q' s) = set_cbs_runqueue p q s"
  "cbs_earlier (set_cbs_runqueue p q s) = cbs_earlier s" "set_cbs_runqueue p (cbs_rq p s) s = s"
  by (auto simp: set_cbs_runqueue_def cbs_rq_def cbs_earlier_def fun_eq_iff)

lemma set_cbs_timer_deadline_simps [simp]:
  "cbs_rq r (set_cbs_timer_deadline p v s) = cbs_rq r s" "threads (set_cbs_timer_deadline p v s) = threads s"
  "timer_ok (set_cbs_timer_deadline p v s) = timer_ok s"
  "cbs_timer_deadline_ticks (cbs_ctl (set_cbs_timer_deadline p v s) p) = v"
  by (auto simp: set_cbs_timer_deadline_def cbs_rq_def)

lemma cbs_rq_machine [simp]:
  "cbs_rq q (tick_read s) = cbs_rq q s" "cbs_rq q (del_timer tr s) = cbs_rq q s"
  "cbs_rq q (update_timer tr d k s) = cbs_rq q s" "cbs_rq q (snd (add_timer tr s)) = cbs_rq q s"
  "cbs_rq q (assertion b m s) = cbs_rq q s" "cbs_rq q (s\<lparr>fault := x\<rparr>) = cbs_rq q s"
  by (simp_all add: cbs_rq_def)

lemma cbs_prim_frames [simp, intro]:
  "hook_frame s (upd_cbs t f s)" "hook_frame s (set_cbs_runqueue p q s)" "hook_frame s (set_cbs_timer_deadline p v s)"
  by (auto simp: upd_cbs_def set_cbs_runqueue_def set_cbs_timer_deadline_def intro!: hook_frame_upd_thread)

lemma run_cbs_frames [simp, intro]:
  "hook_frame s (run_cbs t f s)" "timer_ok s \<Longrightarrow> timer_ok (run_cbs t f s)" "cbs_rq q (run_cbs t f s) = cbs_rq q s"
  by (auto simp: run_cbs_def intro!: hook_frame_or_diverges timer_ok_or_diverges) (simp add: or_diverges_def split: option.split)

lemma cbs_queue_frames [simp, intro]:
  "hook_frame s (cbs_queue_remove t s)" "timer_ok (cbs_queue_remove t s) = timer_ok s"
  "hook_frame s (cbs_queue_insert t s)" "timer_ok s \<Longrightarrow> timer_ok (cbs_queue_insert t s)"
proof -
  show r: "hook_frame s (cbs_queue_remove t s)" "timer_ok (cbs_queue_remove t s) = timer_ok s" for s
    by (auto simp: cbs_queue_remove_def split: option.split)
  show "hook_frame s (cbs_queue_insert t s)" "timer_ok s \<Longrightarrow> timer_ok (cbs_queue_insert t s)"
    unfolding cbs_queue_insert_def Let_def
    by (rule hook_frame_with_ctl, rule hook_frame_trans [OF hook_frame_if [OF r(1) hook_frame_refl] cbs_prim_frames(2)])
      (auto simp: r intro!: timer_ok_with_ctl)
qed

lemmas cbs_steps =
  hook_frame_steps cbs_prim_frames [THEN hook_frame_trans [rotated]] run_cbs_frames(1) [THEN hook_frame_trans [rotated]]
  cbs_queue_frames(1,3) [THEN hook_frame_trans [rotated]]

lemma cbs_account_frames [simp, intro]:
  "hook_frame s (cbs_account_runtime t now s)" "timer_ok s \<Longrightarrow> timer_ok (cbs_account_runtime t now s)"
  "cbs_rq q (cbs_account_runtime t now s) = cbs_rq q s"
  by (auto simp: cbs_account_runtime_def Let_def intro!: cbs_steps)

lemma cbs_refresh_frames [simp, intro]:
  "hook_frame s (cbs_refresh_thread now t s)" "timer_ok s \<Longrightarrow> timer_ok (cbs_refresh_thread now t s)"
  by (auto simp: cbs_refresh_thread_def intro!: hook_frame_with_ctl cbs_steps timer_ok_with_ctl)

lemma cbs_refresh_queued_frames [simp, intro]:
  "hook_frame s (cbs_refresh_queued now t s)" "timer_ok s \<Longrightarrow> timer_ok (cbs_refresh_queued now t s)"
  by (auto simp: cbs_refresh_queued_def intro: hook_frame_trans)

lemma cbs_refresh_queues_frames [simp, intro]:
  "hook_frame s (cbs_refresh_queues c now s)" "timer_ok s \<Longrightarrow> timer_ok (cbs_refresh_queues c now s)"
proof -
  show "hook_frame s (cbs_refresh_queues c now s)" unfolding cbs_refresh_queues_def
    by (rule hook_frame_or_diverges, erule for_each_safe_keeps) (auto intro: hook_frame_trans)
  show "timer_ok (cbs_refresh_queues c now s)" if "timer_ok s" unfolding cbs_refresh_queues_def
    by (rule timer_ok_or_diverges [OF that], erule for_each_safe_keeps [where P = timer_ok]) (use that in auto)
qed

lemma cbs_settle_frames [simp, intro]:
  "hook_frame s (cbs_settle_current c now s)" "timer_ok s \<Longrightarrow> timer_ok (cbs_settle_current c now s)"
  by (auto simp: cbs_settle_current_def intro: hook_frame_trans split: option.split)

lemma cbs_program_local_timer_frames [simp, intro]:
  "hook_frame s (cbs_program_local_timer c r s)" "timer_ok s \<Longrightarrow> timer_ok (cbs_program_local_timer c r s)"
  "threads (cbs_program_local_timer c r s) = threads s" "cbs_rq q (cbs_program_local_timer c r s) = cbs_rq q s"
proof -
  show "hook_frame s (cbs_program_local_timer c r s)"
    unfolding cbs_program_local_timer_def Let_def by (intro hook_frame_if cbs_steps hook_frame_refl)
  show "timer_ok (cbs_program_local_timer c r s)" if "timer_ok s"
    using that by (simp add: cbs_program_local_timer_def Let_def timer_ok_rearm timer_ok_del timer_ok_assertion)
qed (simp_all add: cbs_program_local_timer_def Let_def)

lemma cbs_program_timer_frames [simp, intro]:
  "hook_frame s (cbs_program_timer c r s)" "timer_ok s \<Longrightarrow> timer_ok (cbs_program_timer c r s)"
  "threads (cbs_program_timer c r s) = threads s" "cbs_rq q (cbs_program_timer c r s) = cbs_rq q s"
  by (auto simp: cbs_program_timer_def)

lemma cbs_timer_handler_frames:
  "timer_ok s \<Longrightarrow> timer_ok (cbs_timer_handler c s)" "cur_pcpu (cbs_timer_handler c s) = cur_pcpu s"
  "func (timers (cbs_timer_handler c s) t) = func (timers s t)" "fault s \<noteq> None \<Longrightarrow> fault (cbs_timer_handler c s) \<noteq> None"
proof -
  define s1 where "s1 = sched_account_tick c (set_cbs_timer_deadline c 0 (tick_read s))"
  define s2 where "s2 = make_reschedule_request (cur_pcpu s) (cbs_refresh_queues c (cpu_ticks s) (cbs_settle_current c (cpu_ticks s) s1))"
  have h: "cbs_timer_handler c s = cbs_program_local_timer c (curr c s1) s2"
    by (simp add: cbs_timer_handler_def Let_def s1_def s2_def)
  have P1: "policy_same (set_cbs_timer_deadline c 0 (tick_read s)) s1" by (simp add: s1_def sched_account_tick_def)
  have F: "hook_frame s1 (cbs_refresh_queues c (cpu_ticks s) (cbs_settle_current c (cpu_ticks s) s1))"
    by (rule hook_frame_trans [OF cbs_settle_frames(1) cbs_refresh_queues_frames(1)])
  have P2: "policy_same (cbs_refresh_queues c (cpu_ticks s) (cbs_settle_current c (cpu_ticks s) s1)) s2" by (simp add: s2_def)
  have e1: "timers s1 = timers s" "cur_pcpu s1 = cur_pcpu s" "fault s1 = fault s" "timer_ok s1 = timer_ok s"
    using P1 policy_same_timer_ok [OF P1] by (simp_all add: policy_same_def set_cbs_timer_deadline_def)
  have e2: "func (timers s2 t) = func (timers s t)" "cur_pcpu s2 = cur_pcpu s" "fault s \<noteq> None \<Longrightarrow> fault s2 = fault s" for t
    using P2 hook_frameD(14,24,29) [OF F] e1 by (simp_all add: policy_same_def)
  show "timer_ok (cbs_timer_handler c s)" if "timer_ok s"
    using that e1 policy_same_timer_ok [OF P2] by (simp add: h cbs_program_local_timer_frames)
  show "cur_pcpu (cbs_timer_handler c s) = cur_pcpu s" "func (timers (cbs_timer_handler c s) t) = func (timers s t)"
    "fault s \<noteq> None \<Longrightarrow> fault (cbs_timer_handler c s) \<noteq> None"
    using e2 hook_frameD(14,24,29) [OF cbs_program_local_timer_frames(1) [of s2 c "curr c s1"]] by (simp_all add: h)
qed

section \<open>The run queue\<close>

definition cbs_wf :: "nat \<Rightarrow> sched_sys \<Rightarrow> bool" where
  "cbs_wf p s \<longleftrightarrow> distinct (cbs_rq p s) \<and> (\<forall>t. managed p t s \<longrightarrow> cbs_server (cbs t s))"

text \<open>\<open>cbs_step p t\<close>: the operation moved or changed no thread but \<open>t\<close>.\<close>

definition cbs_step :: "nat \<Rightarrow> thread_ref \<Rightarrow> sched_sys \<Rightarrow> sched_sys \<Rightarrow> bool" where
  "cbs_step p t s s' \<longleftrightarrow>
     hook_frame s s' \<and> cbs_wf p s' \<and> remove1 t (cbs_rq p s') = remove1 t (cbs_rq p s)
     \<and> (\<forall>u. u \<noteq> t \<longrightarrow> cbs u s' = cbs u s)"

definition cbs_enqueued :: "nat \<Rightarrow> thread_ref \<Rightarrow> sched_sys \<Rightarrow> sched_sys \<Rightarrow> bool" where
  "cbs_enqueued p t s s' \<longleftrightarrow>
     cbs_step p t s s' \<and> t \<in> set (cbs_rq p s')
     \<and> (in_order (cbs_earlier s) (remove1 t (cbs_rq p s)) \<longrightarrow> in_order (cbs_earlier s') (cbs_rq p s'))"

interpretation cbs_order: queue_order "cbs_earlier s" for s
  by unfold_locales (auto simp: cbs_earlier_def)

lemma cbs_wf_cong:
  "threads s' = threads s \<Longrightarrow> cbs_rq p s' = cbs_rq p s \<Longrightarrow> cbs_wf p s' = cbs_wf p s"
  by (simp add: cbs_wf_def managed_def)

lemma cbs_wf_machine [simp]:
  "cbs_wf p (tick_read s) = cbs_wf p s" "cbs_wf p (cbs_program_timer c r s) = cbs_wf p s"
  "cbs_wf p (s\<lparr>fault := x\<rparr>) = cbs_wf p s"
  by (rule cbs_wf_cong; simp)+

lemma cbs_earlier_machine [simp]:
  "cbs_earlier (tick_read s) = cbs_earlier s" "cbs_earlier (cbs_program_timer c r s) = cbs_earlier s"
  "cbs_earlier (s\<lparr>fault := x\<rparr>) = cbs_earlier s"
  by (simp_all add: cbs_earlier_def fun_eq_iff)

lemma cbs_step_refl: "cbs_wf p s \<Longrightarrow> cbs_step p t s s"
  by (simp add: cbs_step_def)

lemma cbs_step_trans: "cbs_step p t s s' \<Longrightarrow> cbs_step p t s' s'' \<Longrightarrow> cbs_step p t s s''"
  by (auto simp: cbs_step_def intro: hook_frame_trans)

lemma cbs_step_upd:
  assumes "cbs_wf p s" and "\<And>d. cbs_server d \<Longrightarrow> cbs_server (f d)"
  shows "cbs_step p t s (upd_cbs t f s)"
  using assms managed_frame [OF cbs_prim_frames(1)] by (auto simp: cbs_step_def cbs_wf_def)

lemma cbs_step_run:
  assumes "cbs_wf p s" and "managed p t s" and "\<And>d. cbs_server d \<Longrightarrow> \<exists>d'. f d = Some d' \<and> cbs_server d'"
  shows "cbs_step p t s (run_cbs t f s)" and "f (cbs t s) = Some (cbs t (run_cbs t f s))"
    and "fault (run_cbs t f s) = fault s"
proof -
  obtain d where d: "f (cbs t s) = Some d" "cbs_server d" using assms by (auto simp: cbs_wf_def)
  then have eq: "run_cbs t f s = upd_cbs t (\<lambda>_. d) s" by (simp add: run_cbs_def)
  show "cbs_step p t s (run_cbs t f s)" "f (cbs t s) = Some (cbs t (run_cbs t f s))" "fault (run_cbs t f s) = fault s"
    using cbs_step_upd [OF assms(1), of "\<lambda>_. d" t] d by (simp_all add: eq)
qed

lemma cbs_queue_remove_eq:
  "sched_ctl (threads s t) = Some p \<Longrightarrow> cbs_queue_remove t s = set_cbs_runqueue p (remove1 t (cbs_rq p s)) s"
  by (simp add: cbs_queue_remove_def cbs_is_queued_def remove1_idem)

lemma cbs_queue_insert_eq:
  assumes "sched_ctl (threads s t) = Some p"
  shows "cbs_queue_insert t s
    = set_cbs_runqueue p (insert_before (cbs_earlier s t) t (remove1 t (cbs_rq p s))) s"
  using assms by (simp add: cbs_queue_insert_def cbs_is_queued_def cbs_queue_remove_eq Let_def remove1_idem)

lemma cbs_wf_set_runqueue: "cbs_wf p s \<Longrightarrow> distinct q \<Longrightarrow> cbs_wf p (set_cbs_runqueue p q s)"
  by (simp add: cbs_wf_def managed_frame [OF cbs_prim_frames(2)])

lemma cbs_insert_enqueues:
  assumes "cbs_wf p s" and "sched_ctl (threads s t) = Some p"
  shows "cbs_enqueued p t s (cbs_queue_insert t s)"
proof -
  have d: "distinct (cbs_rq p s)" using assms(1) by (simp add: cbs_wf_def)
  then show ?thesis unfolding cbs_queue_insert_eq [OF assms(2)]
    using cbs_wf_set_runqueue [OF assms(1)] cbs_order.order_insert
    by (simp add: cbs_enqueued_def cbs_step_def remove1_insert_before)
qed

lemma cbs_step_order:
  assumes "cbs_step p t s s'"
  shows "in_order (cbs_earlier s') (remove1 t (cbs_rq p s')) = in_order (cbs_earlier s) (remove1 t (cbs_rq p s'))"
proof (rule in_order_cong)
  have "distinct (cbs_rq p s')" using assms by (simp add: cbs_step_def cbs_wf_def)
  then have n: "t \<notin> set (remove1 t (cbs_rq p s'))" by simp
  fix x y assume "x \<in> set (remove1 t (cbs_rq p s'))" "y \<in> set (remove1 t (cbs_rq p s'))"
  then have "x \<noteq> t" "y \<noteq> t" using n by auto
  then show "cbs_earlier s' x y = cbs_earlier s x y" using assms by (simp add: cbs_step_def cbs_earlier_def)
qed

lemma cbs_enqueued_after:
  assumes "cbs_step p t s s1" and "cbs_enqueued p t s1 s'"
  shows "cbs_enqueued p t s s'"
  using assms cbs_step_order [OF assms(1)] cbs_step_trans [OF assms(1)]
  by (auto simp: cbs_enqueued_def cbs_step_def)

lemma cbs_step_mem: "cbs_step p t s s' \<Longrightarrow> u \<noteq> t \<Longrightarrow> u \<in> set (cbs_rq p s') \<longleftrightarrow> u \<in> set (cbs_rq p s)"
  unfolding cbs_step_def by (metis in_set_remove1)

lemma cbs_enqueued_set: "cbs_enqueued p t s s' \<Longrightarrow> set (cbs_rq p s') = insert t (set (cbs_rq p s))"
proof (rule set_eqI)
  fix u assume "cbs_enqueued p t s s'"
  then show "u \<in> set (cbs_rq p s') \<longleftrightarrow> u \<in> insert t (set (cbs_rq p s))"
    using cbs_step_mem [of p t s s' u] by (cases "u = t") (simp_all add: cbs_enqueued_def)
qed

lemma cbs_is_active_frame: "hook_frame s s' \<Longrightarrow> cbs_is_active t s' = cbs_is_active t s"
  by (auto simp: cbs_is_active_def cbs_is_current_def hook_frameD split: option.splits)

lemma cbs_eligible_active:
  assumes "base_inv p s" and "eligible p t s"
  shows "cbs_is_active t s"
  using assms not_idle_managed [of p t s]
  by (cases "status (threads s t)";
      auto simp: cbs_is_active_def cbs_is_current_def eligible_def managed_def base_inv_def is_blocked_def is_running_def)

lemma cbs_active_window_ok: "cbs_server d \<Longrightarrow> \<exists>d'. cbs_refresh_active_window now d = Some d' \<and> cbs_server d'"
  using cbs_active_window by metis

lemma cbs_refresh_thread_enqueues:
  assumes W: "cbs_wf p s" and m: "managed p t s" and a: "cbs_is_active t s"
  shows "cbs_enqueued p t s (cbs_refresh_thread now t s)"
proof -
  let ?s = "run_cbs t (cbs_refresh_active_window now) s"
  have st: "cbs_step p t s ?s" by (rule cbs_step_run [OF W m]) (rule cbs_active_window_ok)
  have c: "sched_ctl (threads s t) = Some p" using m by (simp add: managed_def)
  then have r: "cbs_refresh_thread now t s = cbs_queue_insert t ?s"
    using a by (simp add: cbs_refresh_thread_def) (simp add: cbs_is_active_def)
  have "sched_ctl (threads ?s t) = Some p" using c hook_frameD(2) [OF run_cbs_frames(1)] by simp
  moreover have "cbs_wf p ?s" using st by (simp add: cbs_step_def)
  ultimately show ?thesis unfolding r by (intro cbs_enqueued_after [OF st] cbs_insert_enqueues)
qed

section \<open>Refreshing the queue\<close>

definition cbs_same :: "bool \<Rightarrow> nat \<Rightarrow> sched_sys \<Rightarrow> sched_sys \<Rightarrow> bool" where
  "cbs_same srt p s s' \<longleftrightarrow>
     hook_frame s s' \<and> cbs_wf p s' \<and> set (cbs_rq p s') = set (cbs_rq p s)
     \<and> (srt \<longrightarrow> in_order (cbs_earlier s') (cbs_rq p s'))"

lemma cbs_same_body:
  assumes B: "base_inv p s" and Q: "queue_inv (cbs_rq p s) p s" and S: "cbs_same srt p s s'"
    and x: "x \<in> set (cbs_rq p s')"
  shows "cbs_same srt p s (cbs_refresh_queued now x s')" and "cbs_step p x s' (cbs_refresh_queued now x s')"
proof -
  have F: "hook_frame s s'" and W: "cbs_wf p s'" using S by (simp_all add: cbs_same_def)
  have e: "eligible p x s" using S x Q by (auto simp: cbs_same_def queue_inv_def)
  have m: "managed p x s'" using e F by (simp add: managed_frame eligible_def)
  have c: "sched_ctl (threads s' x) = Some p" using m by (simp add: managed_def)
  let ?s = "cbs_queue_remove x s'"
  have d: "distinct (cbs_rq p s')" using W by (simp add: cbs_wf_def)
  have "cbs_step p x s' ?s" using d cbs_wf_set_runqueue [OF W]
    by (simp add: cbs_queue_remove_eq [OF c] cbs_step_def remove1_idem)
  moreover have "managed p x ?s" "cbs_is_active x ?s"
    using m cbs_eligible_active [OF B e] F
    by (simp_all add: managed_frame [OF cbs_queue_frames(1)] cbs_is_active_frame [OF cbs_queue_frames(1)] cbs_is_active_frame)
  ultimately have E: "cbs_enqueued p x s' (cbs_refresh_thread now x ?s)"
    by (intro cbs_enqueued_after [of p x s' ?s] cbs_refresh_thread_enqueues) (simp_all add: cbs_step_def)
  have "cbs_same srt p s (cbs_refresh_thread now x ?s)"
    using E S x cbs_enqueued_set [OF E] cbs_order.order_remove
    by (auto simp: cbs_same_def cbs_enqueued_def cbs_step_def intro: hook_frame_trans [OF F])
  with E S W show "cbs_same srt p s (cbs_refresh_queued now x s')" "cbs_step p x s' (cbs_refresh_queued now x s')"
    by (auto simp: cbs_refresh_queued_def cbs_enqueued_def intro: cbs_step_refl)
qed

lemma cbs_refresh_queues_same:
  assumes B: "base_inv p s" and Q: "queue_inv (cbs_rq p s) p s" and S: "cbs_same srt p s s'"
  shows "cbs_same srt p s (cbs_refresh_queues p now s')"
proof (cases "for_each_safe (cbs_rq p) (cbs_refresh_queued now) s'")
  case (Some s2)
  have "cbs_same srt p s s2"
  proof (rule for_each_safe_invariant [OF Some, where P = "cbs_same srt p s"])
    fix x y r assume r: "cbs_same srt p s r" and x: "x \<in> set (cbs_rq p r)"
    note b = cbs_same_body [OF B Q r x, of now]
    show "cbs_same srt p s (cbs_refresh_queued now x r)" by (rule b)
    show "y \<in> set (cbs_rq p (cbs_refresh_queued now x r))" if "y \<in> set (cbs_rq p r)" "y \<noteq> x"
      using cbs_step_mem [OF b(2) that(2)] that by simp
  qed (use S in \<open>auto simp: cbs_same_def cbs_wf_def\<close>)
  then show ?thesis using Some by (simp add: cbs_refresh_queues_def)
next
  case None
  have "hook_frame s (or_diverges s' None)"
    using S by (intro hook_frame_trans [OF _ hook_frame_or_diverges]) (simp_all add: cbs_same_def)
  then show ?thesis using None S by (cases "fault s' = None") (auto simp: cbs_refresh_queues_def cbs_same_def)
qed

section \<open>Choosing the next server\<close>

lemma cbs_charge_ok: "cbs_server d \<Longrightarrow> \<exists>d'. cbs_charge_runtime delta cnt d = Some d' \<and> cbs_server d'"
  using cbs_charge_runtime_ends [of d delta cnt] by (auto simp: cbs_server_def cbs_later_def le_max_iff_disj intro: order.trans)

lemma cbs_account_step:
  assumes "cbs_wf p s" and "managed p t s"
  shows "cbs_step p t s (cbs_account_runtime t now s)"
proof -
  let ?f = "\<lambda>d. (cbs_record_late_account now d)\<lparr>cbs_last_start_ticks := now\<rparr>"
  let ?s = "upd_cbs t ?f s"
  have st: "cbs_step p t s ?s"
    by (rule cbs_step_upd [OF assms(1)]) (simp add: cbs_server_def cbs_record_late_account_def Let_def)
  have "cbs_step p t ?s (run_cbs t (cbs_charge_runtime d True) ?s)" for d
  proof (rule cbs_step_run)
    show "cbs_wf p ?s" using st by (simp add: cbs_step_def)
    show "managed p t ?s" using assms(2) by (simp add: managed_frame [OF cbs_prim_frames(1)])
  qed (rule cbs_charge_ok)
  then show ?thesis
    using cbs_step_trans [OF st] cbs_step_refl [OF assms(1)] by (simp add: cbs_account_runtime_def Let_def)
qed

lemma cbs_settle_current_ok:
  assumes B: "base_inv p s" and Q: "queue_inv (cbs_rq p s) p s" and W: "cbs_wf p s" and c: "curr p s = Some c"
  shows "cbs_wf p (cbs_settle_current p now s)"
    and "set (cbs_rq p (cbs_settle_current p now s)) = (if eligible p c s then insert c (set (cbs_rq p s)) else set (cbs_rq p s))"
    and "in_order (cbs_earlier s) (remove1 c (cbs_rq p s)) \<Longrightarrow>
      in_order (cbs_earlier (cbs_settle_current p now s)) (cbs_rq p (cbs_settle_current p now s))"
proof -
  let ?r = "cbs_settle_current p now s"
  have cc: "c = Idle p \<or> managed p c s" "is_running c s" "is_idle_thread c s \<longleftrightarrow> c = Idle p"
    using base_inv_currE [OF B] c by (metis option.inject)+
  have nq: "c \<notin> set (cbs_rq p s)" if "\<not> eligible p c s" using that Q by (auto simp: queue_inv_def)
  have "cbs_wf p ?r \<and> set (cbs_rq p ?r) = (if eligible p c s then insert c (set (cbs_rq p s)) else set (cbs_rq p s))
    \<and> (in_order (cbs_earlier s) (remove1 c (cbs_rq p s)) \<longrightarrow> in_order (cbs_earlier ?r) (cbs_rq p ?r))"
  proof (cases "c = Idle p")
    case True
    then have "\<not> eligible p c s" by (simp add: eligible_def managed_def)
    then show ?thesis using True c cc W nq by (simp add: cbs_settle_current_def remove1_idem)
  next
    case False
    then have m: "managed p c s" using cc by simp
    define s1 where "s1 = cbs_account_runtime c now s"
    have A: "cbs_step p c s s1" unfolding s1_def by (rule cbs_account_step [OF W m])
    then have F: "hook_frame s s1" and W1: "cbs_wf p s1" by (simp_all add: cbs_step_def)
    have m1: "managed p c s1" using m F by (simp add: managed_frame)
    have r: "?r = cbs_refresh_thread now c s1" using c False cc by (simp add: cbs_settle_current_def s1_def)
    show ?thesis
    proof (cases "be_blocking (threads s c)")
      case False
      then have e: "eligible p c s" using m cc by (simp add: eligible_def is_blocked_def is_running_def)
      then have "cbs_is_active c s1" using cbs_eligible_active [OF B] F by (simp add: cbs_is_active_frame)
      then have "cbs_enqueued p c s ?r"
        unfolding r by (intro cbs_enqueued_after [OF A] cbs_refresh_thread_enqueues W1 m1)
      then show ?thesis using e cbs_enqueued_set by (auto simp: cbs_enqueued_def cbs_step_def)
    next
      case True
      then have ne: "\<not> eligible p c s" by (simp add: eligible_def)
      have "\<not> cbs_is_active c s1"
        using True cc F by (simp add: cbs_is_active_frame) (simp add: cbs_is_active_def is_running_def)
      then have r': "?r = s1" using m1 unfolding r by (simp add: cbs_refresh_thread_def managed_def)
      have "cbs_rq p s1 = cbs_rq p s" by (simp add: s1_def)
      then show ?thesis using ne W1 nq [OF ne] cbs_step_order [OF A] by (simp add: r' remove1_idem)
    qed
  qed
  then show "cbs_wf p ?r" "set (cbs_rq p ?r) = (if eligible p c s then insert c (set (cbs_rq p s)) else set (cbs_rq p s))"
    "in_order (cbs_earlier s) (remove1 c (cbs_rq p s)) \<Longrightarrow> in_order (cbs_earlier ?r) (cbs_rq p ?r)" by blast+
qed

lemma cbs_pick_next:
  assumes B: "base_inv p s" and Q: "queue_inv (cbs_rq p s) p s" and W: "cbs_wf p s" and c: "curr p s = Some c"
    and cp: "cur_pcpu s = p" and pk: "sched_cbs_pick_next p s = (r, s')"
  defines "cands \<equiv> if eligible p c s then insert c (set (cbs_rq p s)) else set (cbs_rq p s)"
  shows "hook_frame s s'" and "cbs_wf p s'" and "timer_ok s \<Longrightarrow> timer_ok s'"
    and "set (cbs_rq p s') = cands - {r}" and "r \<in> cands \<or> cands = {} \<and> r = Idle p"
    and "in_order (cbs_earlier s) (remove1 c (cbs_rq p s)) \<Longrightarrow>
      in_order (cbs_earlier s') (cbs_rq p s') \<and> (\<forall>x \<in> set (cbs_rq p s'). \<not> cbs_earlier s' x r)"
proof -
  define now where "now = cpu_ticks s"
  define s2 where "s2 = cbs_settle_current p now (tick_read s)"
  define s3 where "s3 = cbs_refresh_queues p now s2"
  define s4 where "s4 = (case cbs_rq p s3 of next # _ \<Rightarrow> cbs_queue_remove next s3 | [] \<Rightarrow> s3)"
  have rr: "r = (case cbs_rq p s3 of next # _ \<Rightarrow> next | [] \<Rightarrow> idle_var s3)"
    and s': "s' = cbs_program_timer p (Some r)
      (if is_idle_thread r s4 then s4 else upd_cbs r (\<lambda>d. d\<lparr>cbs_last_start_ticks := now\<rparr>) s4)"
    using pk by (auto simp: sched_cbs_pick_next_def Let_def s4_def s3_def s2_def now_def split: list.splits)
  have F1: "hook_frame s (tick_read s)" by simp
  have pre: "base_inv p (tick_read s)" "queue_inv (cbs_rq p (tick_read s)) p (tick_read s)" "cbs_wf p (tick_read s)"
    "curr p (tick_read s) = Some c"
    using B Q W c base_inv_frame [OF F1] queue_inv_frame [OF F1] hook_frameD(28) [OF F1] by simp_all
  note S = cbs_settle_current_ok [OF pre, of now, folded s2_def]
  have F2: "hook_frame s s2" unfolding s2_def by (rule hook_frame_trans [OF F1]) simp
  have set2: "set (cbs_rq p s2) = cands" using S(2) by (simp add: eligible_frame [OF F1] cands_def)
  have el: "\<forall>t \<in> cands. eligible p t s" using Q by (auto simp: cands_def queue_inv_def)
  have Q2: "queue_inv (cbs_rq p s2) p s2" using el set2 S(1) by (simp add: queue_inv_def eligible_frame [OF F2] cbs_wf_def)
  have B2: "base_inv p s2" using B by (simp add: base_inv_frame [OF F2])
  have RS: "cbs_same srt p s2 s3" if "srt \<longrightarrow> in_order (cbs_earlier s2) (cbs_rq p s2)" for srt
    unfolding s3_def by (rule cbs_refresh_queues_same [OF B2 Q2]) (use S(1) that in \<open>simp add: cbs_same_def\<close>)
  note R = RS [of False, simplified]
  have F3: "hook_frame s s3" using F2 R by (auto simp: cbs_same_def intro: hook_frame_trans)
  have W3: "cbs_wf p s3" and set3: "set (cbs_rq p s3) = cands" using R set2 by (simp_all add: cbs_same_def)
  have id: "idle_var s3 = Idle p" using F3 cp by (simp add: idle_var_def hook_frameD)
  have q4: "s4 = set_cbs_runqueue p (tl (cbs_rq p s3)) s3"
  proof (cases "cbs_rq p s3")
    case (Cons x xs)
    then have "eligible p x s" using el set3 by auto
    then have "sched_ctl (threads s3 x) = Some p" using F3 by (simp add: hook_frameD eligible_def managed_def)
    then show ?thesis using Cons by (simp add: s4_def cbs_queue_remove_eq)
  next
    case Nil
    then show ?thesis using set_cbs_runqueue_simps(6) [of p s3] by (simp add: s4_def)
  qed
  have W4: "cbs_wf p s4" unfolding q4 using W3 by (intro cbs_wf_set_runqueue) (simp_all add: cbs_wf_def distinct_tl)
  have F4: "hook_frame s s4" unfolding q4 by (rule hook_frame_trans [OF F3]) simp
  show "hook_frame s s'" unfolding s' by (rule hook_frame_trans [OF F4]) (auto intro: hook_frame_trans)
  show "cbs_wf p s'"
    using W4 cbs_step_upd [OF W4, of "\<lambda>d. d\<lparr>cbs_last_start_ticks := now\<rparr>" r] by (simp add: s' cbs_step_def cbs_server_def)
  show "timer_ok s'" if "timer_ok s" using that by (auto simp: s' q4 s3_def s2_def)
  have ql: "cbs_rq p s' = tl (cbs_rq p s3)" "cbs_earlier s' = cbs_earlier s3"
    by (auto simp: s' q4 cbs_earlier_def fun_eq_iff)
  have hd: "cbs_rq p s3 = [] \<and> r = Idle p \<or> cbs_rq p s3 = r # tl (cbs_rq p s3)"
    using rr id by (cases "cbs_rq p s3") simp_all
  then show "r \<in> cands \<or> cands = {} \<and> r = Idle p" unfolding set3 [symmetric] by (cases "cbs_rq p s3") simp_all
  show "set (cbs_rq p s') = cands - {r}" unfolding ql set3 [symmetric] using hd W3
    by (cases "cbs_rq p s3") (auto simp: cbs_wf_def)
  assume "in_order (cbs_earlier s) (remove1 c (cbs_rq p s))"
  then have "in_order (cbs_earlier s2) (cbs_rq p s2)" using S(3) by simp
  with RS [of True] have "in_order (cbs_earlier s3) (cbs_rq p s3)" by (simp add: cbs_same_def)
  then show "in_order (cbs_earlier s') (cbs_rq p s') \<and> (\<forall>x \<in> set (cbs_rq p s'). \<not> cbs_earlier s' x r)"
    unfolding ql using hd cbs_order.order_hd [of s3 r "tl (cbs_rq p s3)"] cbs_order.order_tl [of s3 r "tl (cbs_rq p s3)"]
    by (cases "cbs_rq p s3") simp_all
qed

section \<open>Sleep, wake and priority\<close>

lemma cbs_sleep_queue:
  assumes W: "cbs_wf p s" and m: "managed p t s"
  shows "hook_frame s (sched_cbs_sleep t s)" and "timer_ok s \<Longrightarrow> timer_ok (sched_cbs_sleep t s)"
    and "cbs_wf p (sched_cbs_sleep t s)" and "cbs_rq p (sched_cbs_sleep t s) = remove1 t (cbs_rq p s)"
    and "in_order (cbs_earlier s) (cbs_rq p s) \<Longrightarrow> in_order (cbs_earlier (sched_cbs_sleep t s)) (cbs_rq p (sched_cbs_sleep t s))"
proof -
  have c: "sched_ctl (threads s t) = Some p" using m by (simp add: managed_def)
  define s1 where "s1 = (if cbs_is_current t s then cbs_account_runtime t (cpu_ticks s) (tick_read s) else s)"
  define s2 where "s2 = upd_cbs t (\<lambda>d. d\<lparr>cbs_last_start_ticks := 0\<rparr>) (cbs_queue_remove t s1)"
  have r: "sched_cbs_sleep t s = cbs_program_timer p (if cbs_is_current t s2 then None else curr p s2) s2"
    using c by (simp add: sched_cbs_sleep_def Let_def s1_def s2_def)
  have "cbs_step p t s (tick_read s)" using W by (simp add: cbs_step_def)
  moreover have "cbs_step p t (tick_read s) (cbs_account_runtime t (cpu_ticks s) (tick_read s))"
    using W m by (intro cbs_account_step) (simp_all add: managed_frame [OF hook_frame_timer_ops(1)])
  ultimately have st: "cbs_step p t s s1" using cbs_step_trans cbs_step_refl [OF W] by (auto simp: s1_def)
  then have F1: "hook_frame s s1" and W1: "cbs_wf p s1" by (simp_all add: cbs_step_def)
  have c1: "sched_ctl (threads s1 t) = Some p" using c F1 by (simp add: hook_frameD)
  have q1: "cbs_rq p s1 = cbs_rq p s" by (simp add: s1_def)
  have d: "distinct (cbs_rq p s)" using W by (simp add: cbs_wf_def)
  let ?r = "set_cbs_runqueue p (remove1 t (cbs_rq p s)) s1"
  have s2: "s2 = upd_cbs t (\<lambda>d. d\<lparr>cbs_last_start_ticks := 0\<rparr>) ?r"
    by (simp add: s2_def cbs_queue_remove_eq [OF c1] q1)
  have st2: "cbs_step p t ?r s2" unfolding s2
    using d by (intro cbs_step_upd cbs_wf_set_runqueue W1) (simp_all add: cbs_server_def)
  show "hook_frame s (sched_cbs_sleep t s)" unfolding r s2 by (intro cbs_program_timer_frames(1) [THEN hook_frame_trans [rotated]] cbs_steps F1)
  show "timer_ok (sched_cbs_sleep t s)" if "timer_ok s" using that by (auto simp: r s2 s1_def)
  show "cbs_wf p (sched_cbs_sleep t s)" using st2 by (simp add: r cbs_step_def)
  show q: "cbs_rq p (sched_cbs_sleep t s) = remove1 t (cbs_rq p s)" by (simp add: r s2)
  have "cbs_earlier (sched_cbs_sleep t s) x y = cbs_earlier s x y"
    if "x \<in> set (remove1 t (cbs_rq p s))" "y \<in> set (remove1 t (cbs_rq p s))" for x y
    using that d st by (auto simp: r s2 cbs_earlier_def cbs_step_def)
  then have "in_order (cbs_earlier (sched_cbs_sleep t s)) (remove1 t (cbs_rq p s)) = in_order (cbs_earlier s) (remove1 t (cbs_rq p s))"
    by (rule in_order_cong)
  then show "in_order (cbs_earlier (sched_cbs_sleep t s)) (cbs_rq p (sched_cbs_sleep t s))"
    if "in_order (cbs_earlier s) (cbs_rq p s)" using that by (simp only: q cbs_order.order_remove)
qed

lemma cbs_wake_queue:
  assumes W: "cbs_wf p s" and m: "managed p t s"
  shows "hook_frame s (sched_cbs_wake t s)" and "timer_ok s \<Longrightarrow> timer_ok (sched_cbs_wake t s)"
    and "cbs_enqueued p t s (sched_cbs_wake t s)"
proof -
  have c: "sched_ctl (threads s t) = Some p" using m by (simp add: managed_def)
  define s1 where "s1 = run_cbs t (cbs_apply_inactive_wake_rule (cpu_ticks s)) (tick_read s)"
  define s2 where "s2 = upd_cbs t (\<lambda>d. d\<lparr>cbs_last_start_ticks := 0\<rparr>) s1"
  define s3 where "s3 = cbs_queue_insert t s2"
  have "cbs_step p t s (tick_read s)" using W by (simp add: cbs_step_def)
  moreover have "cbs_step p t (tick_read s) s1" unfolding s1_def
    by (rule cbs_step_run) (use W m cbs_wake_rule in \<open>auto simp: managed_frame [OF hook_frame_timer_ops(1)]\<close>, metis)
  ultimately have st1: "cbs_step p t s s1" by (rule cbs_step_trans)
  moreover have "cbs_step p t s1 s2" unfolding s2_def
    using st1 by (intro cbs_step_upd) (simp_all add: cbs_step_def cbs_server_def)
  ultimately have st: "cbs_step p t s s2" by (rule cbs_step_trans)
  then have F2: "hook_frame s s2" and W2: "cbs_wf p s2" by (simp_all add: cbs_step_def)
  have c2: "sched_ctl (threads s2 t) = Some p" using c F2 by (simp add: hook_frameD)
  have E: "cbs_enqueued p t s s3" unfolding s3_def by (rule cbs_enqueued_after [OF st cbs_insert_enqueues [OF W2 c2]])
  then have F: "hook_frame s s3" by (simp add: cbs_enqueued_def cbs_step_def)
  have r: "sched_cbs_wake t s = cbs_program_timer p (curr p s3) s3"
  proof -
    have "sched_cbs_wake t s = with_ctl t (\<lambda>p s. cbs_program_timer p (curr p s) s) s3"
      by (simp only: sched_cbs_wake_def Let_def s1_def s2_def s3_def)
    moreover have "sched_ctl (threads s3 t) = Some p" using c F by (simp add: hook_frameD)
    ultimately show ?thesis by simp
  qed
  show "hook_frame s (sched_cbs_wake t s)" unfolding r by (rule hook_frame_trans [OF F]) simp
  show "timer_ok (sched_cbs_wake t s)" if "timer_ok s" using that by (auto simp: r s3_def s2_def s1_def)
  show "cbs_enqueued p t s (sched_cbs_wake t s)"
    using E hook_frame_trans [OF F cbs_program_timer_frames(1)] by (simp add: r cbs_enqueued_def cbs_step_def)
qed

lemma cbs_prioritize_queue:
  assumes W: "cbs_wf p s" and m: "managed p t s"
  shows "hook_frame s (sched_cbs_prioritize t s)" and "timer_ok s \<Longrightarrow> timer_ok (sched_cbs_prioritize t s)"
    and "cbs_wf p (sched_cbs_prioritize t s)"
    and "set (cbs_rq p (sched_cbs_prioritize t s))
      = (if curr p s = Some t then set (cbs_rq p s) else insert t (set (cbs_rq p s)))"
    and "curr p s \<noteq> Some t \<Longrightarrow> in_order (cbs_earlier s) (cbs_rq p s) \<Longrightarrow>
      in_order (cbs_earlier (sched_cbs_prioritize t s)) (cbs_rq p (sched_cbs_prioritize t s))"
proof -
  have c: "sched_ctl (threads s t) = Some p" using m by (simp add: managed_def)
  define s1 where "s1 = run_cbs t (cbs_refresh_active_window (cpu_ticks s)) (tick_read s)"
  have "cbs_step p t s (tick_read s)" using W by (simp add: cbs_step_def)
  moreover have "cbs_step p t (tick_read s) s1" unfolding s1_def
    by (rule cbs_step_run) (use W m cbs_active_window_ok in \<open>auto simp: managed_frame [OF hook_frame_timer_ops(1)]\<close>)
  ultimately have st: "cbs_step p t s s1" by (rule cbs_step_trans)
  then have F1: "hook_frame s s1" and W1: "cbs_wf p s1" by (simp_all add: cbs_step_def)
  have c1: "sched_ctl (threads s1 t) = Some p" using c F1 by (simp add: hook_frameD)
  have r: "sched_cbs_prioritize t s = (if curr p s = Some t then s1 else cbs_queue_insert t s1)"
    using c1 F1 by (simp add: sched_cbs_prioritize_def Let_def s1_def [symmetric] cbs_is_current_def hook_frameD)
  note E = cbs_enqueued_after [OF st cbs_insert_enqueues [OF W1 c1]]
  have q1: "cbs_rq p s1 = cbs_rq p s" by (simp add: s1_def)
  show "hook_frame s (sched_cbs_prioritize t s)" using F1 by (auto simp: r intro: hook_frame_trans)
  show "timer_ok (sched_cbs_prioritize t s)" if "timer_ok s" using that by (auto simp: r s1_def)
  show "cbs_wf p (sched_cbs_prioritize t s)" using W1 E by (simp add: r cbs_enqueued_def cbs_step_def)
  show "set (cbs_rq p (sched_cbs_prioritize t s)) = (if curr p s = Some t then set (cbs_rq p s) else insert t (set (cbs_rq p s)))"
    using cbs_enqueued_set [OF E] by (simp add: r q1)
  show "in_order (cbs_earlier (sched_cbs_prioritize t s)) (cbs_rq p (sched_cbs_prioritize t s))"
    if "curr p s \<noteq> Some t" "in_order (cbs_earlier s) (cbs_rq p s)"
    using E that cbs_order.order_remove by (simp add: r cbs_enqueued_def)
qed

interpretation cbs: sched_policy_live sched_cbs cbs_rq cbs_wf False
proof unfold_locales
  fix p s pick t s'
  assume B: "base_inv p s" and Q: "queue_inv (cbs_rq p s) p s" and W: "cbs_wf p s" and p: "cur_pcpu s = p"
    and h: "hook_pick_next sched_cbs = Some pick" "pick p s = (t, s')"
  obtain c where c: "curr p s = Some c" using B by (blast elim: base_inv_currE)
  have pk: "sched_cbs_pick_next p s = (t, s')" using h by (simp add: sched_cbs_def)
  note R = cbs_pick_next [OF B Q W c p pk]
  have Q': "queue_inv (cbs_rq p s') p s" using R(2,4) Q by (auto simp: queue_inv_def cbs_wf_def split: if_splits)
  have "t = Idle p \<or> eligible p t s" using R(5) Q by (auto simp: queue_inv_def split: if_splits)
  then show "hook_ok cbs_wf p s s' \<and> queue_inv (cbs_rq p s') p s \<and> (t = Idle p \<or> eligible p t s)"
    using R Q' by (simp add: hook_ok_def)
  show "\<not> False \<and> u = t \<or> u \<in> set (cbs_rq p s')"
    if "u \<in> set (cbs_rq p s) \<or> \<not> False \<and> curr p s = Some u" "eligible p u s" for u
    using that R(4) c by auto
next
  fix p s t f s'
  assume W: "cbs_wf p s" and "eligible p t s" and h: "hook_prioritize sched_cbs = Some f"
  then have m: "managed p t s" and f: "f = sched_cbs_prioritize" by (simp_all add: eligible_def sched_cbs_def)
  note P = cbs_prioritize_queue [OF W m, folded f]
  show "hook_ok cbs_wf p s s' \<and> distinct (cbs_rq p s') \<and> set (cbs_rq p s') \<subseteq> insert t (set (cbs_rq p s))"
    if "f t s = s'" using that P by (auto simp: hook_ok_def cbs_wf_def)
  show "u \<in> set (cbs_rq p (f t s))" if "u \<in> set (cbs_rq p s)" for u using that P by auto
next
  fix p s t s'
  assume W: "cbs_wf p s" and m: "managed p t s"
  note K = cbs_wake_queue [OF W m] cbs_enqueued_set [OF cbs_wake_queue(3) [OF W m]]
  have k: "call_hook (hook_wake sched_cbs) t s = sched_cbs_wake t s" by (simp add: call_hook_def sched_cbs_def)
  show "hook_ok cbs_wf p s s' \<and> distinct (cbs_rq p s') \<and> set (cbs_rq p s') \<subseteq> insert t (set (cbs_rq p s))"
    if "call_hook (hook_wake sched_cbs) t s = s'"
    using that K by (auto simp: k hook_ok_def cbs_enqueued_def cbs_step_def cbs_wf_def)
  show "u \<in> set (cbs_rq p (call_hook (hook_wake sched_cbs) t s))" if "u \<in> set (cbs_rq p s) \<or> u = t" for u
    using that K by (auto simp: k)
  note S = cbs_sleep_queue [OF W m]
  have k: "call_hook (hook_sleep sched_cbs) t s = sched_cbs_sleep t s" by (simp add: call_hook_def sched_cbs_def)
  have d: "distinct (cbs_rq p s)" using W by (simp add: cbs_wf_def)
  show "hook_ok cbs_wf p s s' \<and> distinct (cbs_rq p s') \<and> set (cbs_rq p s') \<subseteq> set (cbs_rq p s) - {t}"
    if "call_hook (hook_sleep sched_cbs) t s = s'"
    using that S d by (auto simp: k hook_ok_def)
  show "u \<in> set (cbs_rq p (call_hook (hook_sleep sched_cbs) t s))" if "u \<in> set (cbs_rq p s)" "u \<noteq> t" for u
    using that S by (simp add: k)
qed (simp_all add: policy_same_def cbs_rq_def sched_cbs_def cbs_wf_def managed_def)

section \<open>The refresh ends\<close>

definition cbs_horizon :: "nat \<Rightarrow> u64 \<Rightarrow> sched_sys \<Rightarrow> bool" where
  "cbs_horizon p now s \<longleftrightarrow> (\<forall>t. managed p t s \<longrightarrow> unat now + unat (cbs_period_ticks (cbs t s)) < 2 ^ 64)"

definition cbs_due :: "u64 \<Rightarrow> sched_cbs_data \<Rightarrow> bool" where
  "cbs_due now d \<longleftrightarrow> cbs_remaining_ticks d = 0 \<or> cbs_deadline_ticks d \<le> now"

lemma cbs_insert_data [simp]: "cbs u (cbs_queue_insert t s) = cbs u s"
  by (simp add: cbs_queue_insert_def with_ctl_def cbs_queue_remove_def Let_def split: option.split)

lemma cbs_remove_data [simp]: "cbs u (cbs_queue_remove t s) = cbs u s"
  by (simp add: cbs_queue_remove_def split: option.split)

lemma cbs_refresh_queued_data:
  assumes W: "cbs_wf p s" and m: "managed p t s" and a: "cbs_is_active t s"
    and H: "unat now + unat (cbs_period_ticks (cbs t s)) < 2 ^ 64"
  shows "\<not> cbs_due now (cbs t (cbs_refresh_queued now t s))"
    and "cbs_period_ticks (cbs u (cbs_refresh_queued now t s)) = cbs_period_ticks (cbs u s)"
    and "\<not> cbs_due now (cbs t s) \<Longrightarrow> cbs_refresh_queued now t s = s"
proof -
  let ?s = "cbs_queue_remove t s" and ?f = "cbs_refresh_active_window now"
  have c: "sched_ctl (threads s t) = Some p" using m by (simp add: managed_def)
  have srv: "cbs_server (cbs t s)" using W m by (simp add: cbs_wf_def)
  obtain d where d: "?f (cbs t s) = Some d" "0 < cbs_remaining_ticks d" "cbs_period_ticks d = cbs_period_ticks (cbs t s)"
      "now < cbs_deadline_ticks d" using cbs_active_window [OF srv, of now] H by metis
  have "cbs_is_active t ?s" using a by (simp add: cbs_is_active_frame [OF cbs_queue_frames(1)])
  moreover have "sched_ctl (threads ?s t) = Some p" using c by (simp add: cbs_queue_remove_eq)
  ultimately have "cbs_refresh_thread now t ?s = cbs_queue_insert t (run_cbs t ?f ?s)"
    by (simp add: cbs_refresh_thread_def) (simp add: cbs_is_active_def)
  moreover have "run_cbs t ?f ?s = upd_cbs t (\<lambda>_. d) ?s" using d(1) by (simp add: run_cbs_def)
  ultimately have r: "cbs_refresh_queued now t s = (if cbs_due now (cbs t s) then cbs_queue_insert t (upd_cbs t (\<lambda>_. d) ?s) else s)"
    by (simp add: cbs_refresh_queued_def cbs_due_def)
  show "\<not> cbs_due now (cbs t (cbs_refresh_queued now t s))" using d by (auto simp: r cbs_due_def)
  show "cbs_period_ticks (cbs u (cbs_refresh_queued now t s)) = cbs_period_ticks (cbs u s)" using d(3) by (simp add: r)
  show "\<not> cbs_due now (cbs t s) \<Longrightarrow> cbs_refresh_queued now t s = s" by (simp add: r)
qed

lemma cbs_refresh_walk:
  assumes B: "base_inv p s" and Q: "queue_inv (cbs_rq p s) p s" and W: "cbs_wf p s" and H: "cbs_horizon p now s"
  shows "cbs_refresh_queues p now s
    = fold (cbs_refresh_queued now) (filter (\<lambda>t. cbs_due now (cbs t s)) (cbs_rq p s)) s"
proof -
  let ?P = "\<lambda>r. cbs_same False p s r \<and> cbs_horizon p now r"
  have body: "?P (cbs_refresh_queued now x r) \<and> cbs_step p x r (cbs_refresh_queued now x r)
      \<and> \<not> cbs_due now (cbs x (cbs_refresh_queued now x r))
      \<and> (\<not> cbs_due now (cbs x r) \<longrightarrow> cbs_refresh_queued now x r = r)"
    if P: "?P r" and x: "x \<in> set (cbs_rq p r)" for x r
  proof -
    have S: "cbs_same False p s r" using P by simp
    note b = cbs_same_body [OF B Q S x, of now]
    have F: "hook_frame s r" and W': "cbs_wf p r" using S by (simp_all add: cbs_same_def)
    have e: "eligible p x s" using S x Q by (auto simp: cbs_same_def queue_inv_def)
    have m: "managed p x r" using e F by (simp add: eligible_def managed_frame)
    have a: "cbs_is_active x r" using cbs_eligible_active [OF B e] F by (simp add: cbs_is_active_frame)
    have "unat now + unat (cbs_period_ticks (cbs x r)) < 2 ^ 64" using P m by (simp add: cbs_horizon_def)
    note d = cbs_refresh_queued_data [OF W' m a this]
    have "cbs_horizon p now (cbs_refresh_queued now x r)"
      using P d(2) managed_frame [OF cbs_refresh_queued_frames(1)] by (simp add: cbs_horizon_def)
    then show ?thesis using b d by simp
  qed
  have "for_each_safe (cbs_rq p) (cbs_refresh_queued now) s
      = Some (fold (cbs_refresh_queued now) (filter (\<lambda>t. \<not> \<not> cbs_due now (cbs t s)) (cbs_rq p s)) s)"
  proof (rule for_each_safe_fold [where P = ?P])
    fix x y r assume r: "?P r" and x: "x \<in> set (cbs_rq p r)"
    note b = body [OF r x]
    show "?P (cbs_refresh_queued now x r)" "\<not> cbs_due now (cbs x (cbs_refresh_queued now x r))"
      "\<not> cbs_due now (cbs x r) \<Longrightarrow> cbs_refresh_queued now x r = r" using b by auto
    show "remove1 x (cbs_rq p (cbs_refresh_queued now x r)) = remove1 x (cbs_rq p r)"
      "y \<noteq> x \<Longrightarrow> (\<not> cbs_due now (cbs y (cbs_refresh_queued now x r))) = (\<not> cbs_due now (cbs y r))"
      using b by (simp_all add: cbs_step_def)
  qed (use W H in \<open>auto simp: cbs_same_def cbs_wf_def\<close>)
  then show ?thesis by (simp add: cbs_refresh_queues_def)
qed

section \<open>The one-shot timer\<close>

text \<open>\<open>timer_deadline_ticks\<close> says whether the timer is started, and for when.\<close>

definition cbs_timer_cache :: "nat \<Rightarrow> sched_sys \<Rightarrow> bool" where
  "cbs_timer_cache c s \<longleftrightarrow>
     (let v = cbs_timer_deadline_ticks (cbs_ctl s c)
      in (v \<noteq> 0 \<longleftrightarrow> timer_is_started (CbsTick c) s) \<and> (v \<noteq> 0 \<longrightarrow> timeout (timers s (CbsTick c)) = v)
         \<and> func (timers s (CbsTick c)) \<noteq> None)"

lemma add_timer_fresh:
  assumes "func (timers s t) \<noteq> None" and "d \<noteq> 0" and "\<not> timer_is_started t s"
  shows "fault (snd (add_timer (Some t) (update_timer (Some t) d 0 s))) = fault s"
    and "timer_is_started t (snd (add_timer (Some t) (update_timer (Some t) d 0 s)))"
    and "timeout (timers (snd (add_timer (Some t) (update_timer (Some t) d 0 s))) t) = d"
  using assms
  by (simp_all add: add_timer_def update_timer_def set_timer_mode_def limit_period_def local_add_timer_def
      update_architecture_timer_def timer_is_started_def assertion_def Let_def split_def split: list.split)

lemma cbs_program_local_timer_cache:
  assumes C: "cbs_timer_cache c s" and p: "ctl_pcpu_id (sched_ctls s c) = cur_pcpu s"
  shows "cbs_timer_cache c (cbs_program_local_timer c r s)"
    and "fault (cbs_program_local_timer c r s) = fault s"
    and "cbs_timer_deadline_ticks (cbs_ctl (cbs_program_local_timer c r s) c) = cbs_timeout r (cpu_ticks s) s"
proof -
  let ?v = "cbs_timer_deadline_ticks (cbs_ctl s c)" and ?d = "cbs_timeout r (cpu_ticks s) s" and ?t = "CbsTick c"
  define s1 where "s1 = (if ?v \<noteq> 0 then set_cbs_timer_deadline c 0 (del_timer (Some ?t) (tick_read s)) else tick_read s)"
  have to: "cbs_timeout r now (tick_read s) = cbs_timeout r now s" for now
    by (cases r) (simp_all add: cbs_timeout_def is_idle_thread_def)
  have r: "cbs_program_local_timer c r s = (if ?d = ?v then tick_read s else if ?d \<noteq> 0
      then set_cbs_timer_deadline c ?d (snd (add_timer (Some ?t) (update_timer (Some ?t) ?d 0 s1))) else s1)"
    using p by (simp add: cbs_program_local_timer_def Let_def s1_def to)
  have n: "\<not> timer_is_started ?t s1" "func (timers s1 ?t) \<noteq> None" "fault s1 = fault s" "cbs_timer_deadline_ticks (cbs_ctl s1 c) = 0"
    using C del_timer_stops [of ?t "tick_read s"]
    by (auto simp: s1_def cbs_timer_cache_def Let_def set_cbs_timer_deadline_def timer_is_started_def)
  note A = add_timer_fresh [OF n(2) _ n(1), of ?d]
  show "cbs_timer_cache c (cbs_program_local_timer c r s)"
    using C A n by (auto simp: r cbs_timer_cache_def Let_def set_cbs_timer_deadline_def timer_is_started_def)
  show "fault (cbs_program_local_timer c r s) = fault s"
    using A n(3) by (auto simp: r set_cbs_timer_deadline_def)
  show "cbs_timer_deadline_ticks (cbs_ctl (cbs_program_local_timer c r s) c) = ?d"
    using n(4) by (simp add: r)
qed

text \<open>The deadline set is never in the past, and there is one whenever a server runs.\<close>

lemma cbs_timeout_set:
  assumes "\<not> is_idle_thread t s" and "now \<noteq> 0" and "cbs_deadline_ticks (cbs t s) \<noteq> 0"
    and "unat now + unat (cbs_remaining_ticks (cbs t s)) < 2 ^ 64" and "cbs_last_start_ticks (cbs t s) \<le> now"
  shows "now \<le> cbs_timeout (Some t) now s" and "cbs_timeout (Some t) now s \<noteq> 0"
    and "cbs_timeout (Some t) now s \<le> max now (cbs_deadline_ticks (cbs t s))"
proof -
  let ?d = "cbs t s"
  have nz: "x + cbs_remaining_ticks ?d \<noteq> 0" if "x \<noteq> 0" "x \<le> now" for x
  proof -
    have "unat x + unat (cbs_remaining_ticks ?d) < 2 ^ 64" using that(2) assms(4) by (simp add: word_le_nat_alt)
    then have "unat (x + cbs_remaining_ticks ?d) = unat x + unat (cbs_remaining_ticks ?d)" by (simp add: unat_add_nowrap)
    then show ?thesis using that(1) by (metis add_is_0 unsigned_0 word_unat_eq_iff)
  qed
  have nz2: "now + cbs_remaining_ticks ?d \<noteq> 0" "cbs_last_start_ticks ?d \<noteq> 0 \<Longrightarrow> cbs_last_start_ticks ?d + cbs_remaining_ticks ?d \<noteq> 0"
    using nz assms(2,5) by auto
  show "now \<le> cbs_timeout (Some t) now s" "cbs_timeout (Some t) now s \<noteq> 0"
    "cbs_timeout (Some t) now s \<le> max now (cbs_deadline_ticks (cbs t s))"
    using assms(1,2,3) nz2 by (auto simp: cbs_timeout_def Let_def le_max_iff_disj)
qed

section \<open>Admission\<close>

definition cbs_vm_share :: "nat \<Rightarrow> sched_sys \<Rightarrow> nat \<Rightarrow> nat" where
  "cbs_vm_share p s vm =
     (if cbs_vm_uses_pcpu (vm_configs s vm) p
      then let (period, budget, _) = cbs_normalize_us p (vm_sched_params (vm_configs s vm)) s
           in unat budget * 1000000 div unat period
      else 0)"

lemma cbs_normalize_frame:
  assumes "cbs_normalize_us p params s = (period, budget, s')"
  shows "vm_configs s' = vm_configs s" and "platform_config s' = platform_config s"
    and "fault s \<noteq> None \<Longrightarrow> fault s' \<noteq> None"
    and "fault s' = None \<Longrightarrow> 500 \<le> budget \<and> budget \<le> period"
proof -
  have s': "s' = (if budget > period then panic ''CBS budget > period'' else id)
      ((if budget < CBS_MIN_BUDGET_US then panic ''CBS budget below minimum'' else id)
      ((if period < CBS_MIN_PERIOD_US then panic ''CBS period below minimum'' else id) s))"
    using assms by (auto simp: cbs_normalize_us_def Let_def split: prod.splits)
  show "vm_configs s' = vm_configs s" "platform_config s' = platform_config s" by (simp_all add: s')
  show "fault s \<noteq> None \<Longrightarrow> fault s' \<noteq> None" by (auto simp: s' panic_def)
  show "500 \<le> budget \<and> budget \<le> period" if "fault s' = None"
    using that panic_frame(6) by (auto simp: s' CBS_MIN_BUDGET_US_def not_less split: if_splits)
qed

lemma cbs_normalize_values:
  assumes "platform_config s' = platform_config s"
  shows "fst (cbs_normalize_us p params s') = fst (cbs_normalize_us p params s)"
    and "fst (snd (cbs_normalize_us p params s')) = fst (snd (cbs_normalize_us p params s))"
proof -
  have "sched_get_pcpu_pool_config p s' = sched_get_pcpu_pool_config p s"
    using assms by (simp add: sched_get_pcpu_pool_config_def)
  then show "fst (cbs_normalize_us p params s') = fst (cbs_normalize_us p params s)"
    "fst (snd (cbs_normalize_us p params s')) = fst (snd (cbs_normalize_us p params s))"
    by (simp_all add: cbs_normalize_us_def Let_def split_def)
qed

lemma cbs_admit_fault:
  assumes "fault s \<noteq> None"
  shows "fault (snd (fold (cbs_admit_vm p) vms (u, s))) \<noteq> None"
  using assms
proof (induction vms arbitrary: u s)
  case (Cons x xs)
  obtain pe b s1 where n: "cbs_normalize_us p (vm_sched_params (vm_configs s x)) s = (pe, b, s1)" by (metis prod_cases3)
  obtain u2 s2 where v: "cbs_admit_vm p x (u, s) = (u2, s2)" by fastforce
  have "fault s2 \<noteq> None"
    using Cons.prems cbs_normalize_frame(3) [OF n] n v
    by (auto simp: cbs_admit_vm_def Let_def panic_def split: if_splits)
  with Cons.IH show ?case by (simp add: v)
qed simp

lemma cbs_admit_step:
  assumes v: "cbs_admit_vm p vm (u, s) = (u1, s1)" and f: "fault s1 = None" and u: "u \<le> 1000000"
  shows "unat u1 = unat u + cbs_vm_share p s vm" and "u1 \<le> 1000000" and "cbs_vm_share p s1 = cbs_vm_share p s"
    and "fault s = None"
proof -
  have "unat u1 = unat u + cbs_vm_share p s vm \<and> u1 \<le> 1000000 \<and> cbs_vm_share p s1 = cbs_vm_share p s \<and> fault s = None"
  proof (cases "cbs_vm_uses_pcpu (vm_configs s vm) p")
    case False
    then show ?thesis using v f u by (simp add: cbs_admit_vm_def cbs_vm_share_def)
  next
    case True
    obtain pe b s2 where n: "cbs_normalize_us p (vm_sched_params (vm_configs s vm)) s = (pe, b, s2)" by (metis prod_cases3)
    define w :: u64 where "w = (ucast b * CBS_UTIL_SCALE) div ucast pe"
    have v1: "u1 = u + w" "s1 = (if u1 > CBS_UTIL_SCALE then panic ''CBS admission failed'' s2 else s2)"
      using v n True by (auto simp: cbs_admit_vm_def w_def Let_def)
    have fr: "vm_configs s1 = vm_configs s" "platform_config s1 = platform_config s"
      using cbs_normalize_frame(1,2) [OF n] by (simp_all add: v1)
    have sh: "cbs_vm_share p s1 = cbs_vm_share p s"
      using cbs_normalize_values [OF fr(2)] by (simp add: cbs_vm_share_def fun_eq_iff fr split_def Let_def)
    have le: "u1 \<le> 1000000" and f2: "fault s2 = None"
      using v1 f panic_frame(6) by (auto simp: CBS_UTIL_SCALE_def split: if_splits)
    have f0: "fault s = None" and bp: "b \<le> pe" using f2 cbs_normalize_frame(3,4) [OF n] by blast+
    have "unat b < 2 ^ 32" using unsigned_less [of b] by simp
    then have "unat (ucast b * CBS_UTIL_SCALE :: u64) = unat b * 1000000"
      by (subst unat_mult_nowrap) (simp_all add: CBS_UTIL_SCALE_def)
    then have w: "unat w = unat b * 1000000 div unat pe" by (simp add: w_def unat_div)
    have "unat b * 1000000 div unat pe \<le> unat pe * 1000000 div unat pe"
      using bp by (intro div_le_mono) (simp add: word_le_nat_alt)
    also have "\<dots> \<le> 1000000" by simp
    finally have "unat u + unat w < 2 ^ 64" using u w by (simp add: word_le_nat_alt)
    then have "unat u1 = unat u + unat w" by (simp add: v1 unat_add_nowrap)
    then show ?thesis using sh w n True f0 le by (simp add: cbs_vm_share_def)
  qed
  then show "unat u1 = unat u + cbs_vm_share p s vm" "u1 \<le> 1000000" "cbs_vm_share p s1 = cbs_vm_share p s" "fault s = None" by auto
qed

text \<open>If the check does not panic, the sum it returns is exact and at most the whole pCPU.\<close>

lemma cbs_admission_sum:
  assumes "fold (cbs_admit_vm p) vms (u, s) = (u', s')" and "fault s' = None" and "u \<le> 1000000"
  shows "unat u' = unat u + (\<Sum>vm \<leftarrow> vms. cbs_vm_share p s vm) \<and> u' \<le> 1000000"
  using assms(1,3)
proof (induction vms arbitrary: u s)
  case (Cons vm vms)
  obtain u1 s1 where v: "cbs_admit_vm p vm (u, s) = (u1, s1)" by fastforce
  then have f: "fold (cbs_admit_vm p) vms (u1, s1) = (u', s')" using Cons.prems(1) by simp
  then have "fault s1 = None" using cbs_admit_fault [of s1 p vms u1] assms(2) by fastforce
  note S = cbs_admit_step [OF v this Cons.prems(2)]
  from Cons.IH [OF f S(2)] S(1,3) show ?case by simp
qed simp

lemma cbs_init_data_server:
  assumes "2 \<le> khz s" and "fault (sched_cbs_init_data t params s) = None"
  shows "cbs_server (cbs t (sched_cbs_init_data t params s))"
proof -
  obtain pu bu s1 where n: "cbs_normalize_us (pcpu_id (threads (tick_read s) t)) params (tick_read s) = (pu, bu, s1)"
    by (metis prod_cases3)
  have k: "khz s1 = khz s" using n by (auto simp: cbs_normalize_us_def Let_def split: prod.splits if_splits)
  have r: "sched_cbs_init_data t params s = upd_cbs t (\<lambda>d. d\<lparr>cbs_period_ticks := us_to_ticks (khz s) pu,
      cbs_budget_ticks := us_to_ticks (khz s) bu, cbs_remaining_ticks := us_to_ticks (khz s) bu,
      cbs_deadline_ticks := cpu_ticks s + us_to_ticks (khz s) pu, cbs_last_start_ticks := 0, cbs_depleted_count := 0,
      cbs_replenish_count := 0, cbs_wake_replenish_count := 0, cbs_late_account_count := 0\<rparr>) s1"
    using n k by (simp add: sched_cbs_init_data_def Let_def)
  then have "fault s1 = None" using assms(2) by simp
  then have b: "500 \<le> bu" "bu \<le> pu" using cbs_normalize_frame(4) [OF n] by auto
  have "500 * 2 \<le> unat bu * unat (khz s)" using b(1) assms(1) by (intro mult_le_mono) (simp_all add: word_le_nat_alt)
  then have "0 < unat (us_to_ticks (khz s) bu)" unfolding unat_us_to_ticks by (simp add: div_greater_zero_iff)
  then have "0 < us_to_ticks (khz s) bu" by (simp add: word_less_nat_alt)
  then show ?thesis using us_to_ticks_mono [OF b(2), of "khz s"] by (simp add: r cbs_server_def)
qed

section \<open>Properties\<close>

text \<open>
  Claim C26. Charging ends for every amount of time, and conserves it: what is left of the budget and
  the charge together are what was left before and one budget for each period by which the deadline
  was moved on. So a server that runs for \<open>delta\<close> ticks pays with its deadline for what exceeds
  its bandwidth.
\<close>

theorem cbs_charge_conserves:
  assumes "cbs_server d"
  shows "\<exists>d' k. cbs_charge_runtime delta cnt d = Some d' \<and> cbs_remaining_ticks d' \<le> cbs_budget_ticks d
    \<and> unat (cbs_remaining_ticks d') + unat delta = unat (cbs_remaining_ticks d) + k * unat (cbs_budget_ticks d)
    \<and> unat (cbs_deadline_ticks d') = min (2 ^ 64 - 1) (unat (cbs_deadline_ticks d) + k * unat (cbs_period_ticks d))"
proof -
  have b: "0 < cbs_budget_ticks d" "cbs_remaining_ticks d \<le> cbs_budget_ticks d" using assms by (simp_all add: cbs_server_def)
  then show ?thesis using cbs_charge_runtime_ends [OF b(1), of delta cnt] by (auto simp: cbs_later_def max_def split: if_splits)
qed

definition cbs_example :: sched_cbs_data where
  "cbs_example = \<lparr>cbs_period_ticks = 40, cbs_budget_ticks = 10, cbs_remaining_ticks = 0, cbs_deadline_ticks = 100,
     cbs_last_start_ticks = 0, cbs_depleted_count = 0, cbs_replenish_count = 0, cbs_wake_replenish_count = 0,
     cbs_late_account_count = 0\<rparr>"

theorem cbs_charge_conserves_witness:
  "\<exists>d' k. cbs_charge_runtime 25 False cbs_example = Some d' \<and> unat (cbs_remaining_ticks d') + 25 = k * 10"
  using cbs_charge_conserves [of cbs_example 25 False] by (auto simp: cbs_server_def cbs_example_def)

text \<open>
  Claim C35. After the wake rule a server that came with budget left has budget and a deadline ahead,
  and the budget until the deadline is no more than its bandwidth allows.
\<close>

theorem cbs_wake_rule_bandwidth:
  assumes "cbs_server d" and "cbs_remaining_ticks d \<noteq> 0" and "unat now + unat (cbs_period_ticks d) < 2 ^ 64"
  shows "\<exists>d'. cbs_apply_inactive_wake_rule now d = Some d' \<and> 0 < cbs_remaining_ticks d' \<and> now < cbs_deadline_ticks d'
    \<and> unat (cbs_remaining_ticks d') * unat (cbs_period_ticks d)
        \<le> unat (cbs_budget_ticks d) * (unat (cbs_deadline_ticks d') - unat now)"
proof -
  obtain d' where d': "cbs_apply_inactive_wake_rule now d = Some d'" "0 < cbs_remaining_ticks d'"
    "cbs_period_ticks d' = cbs_period_ticks d" "cbs_budget_ticks d' = cbs_budget_ticks d" "\<not> cbs_needs_wake_replenish now d'"
    using cbs_wake_rule [OF assms(1)] assms(2,3) by metis
  then have lt: "now < cbs_deadline_ticks d'" by (auto simp: cbs_needs_wake_replenish_def not_le split: if_splits)
  then have "unat (cbs_deadline_ticks d' - now) = unat (cbs_deadline_ticks d') - unat now" by (intro unat_diff_le) simp
  then show ?thesis using d' lt
    by (auto simp: cbs_needs_wake_replenish_def cbs_ratio_greater_iff not_less mult.commute split: if_splits)
qed

theorem cbs_wake_rule_bandwidth_witness:
  "\<exists>d'. cbs_apply_inactive_wake_rule 70 (cbs_example\<lparr>cbs_remaining_ticks := 9\<rparr>) = Some d' \<and> 70 < cbs_deadline_ticks d'"
  using cbs_wake_rule_bandwidth [of "cbs_example\<lparr>cbs_remaining_ticks := 9\<rparr>" 70] by (auto simp: cbs_server_def cbs_example_def)


text \<open>
  Claim C37. Where the admission of a pCPU passes, the bandwidths of the VMs that use it, in parts per
  million and rounded down, sum up to no more than the whole pCPU, and the sum is what is recorded.
\<close>

theorem cbs_admission_bounds_utilization:
  assumes "cbs_validate_pcpu_admission p s = (u, s')" and "fault s' = None"
  shows "unat u = (\<Sum>vm \<leftarrow> [0..<CONFIG_MAX_VM_NUM]. cbs_vm_share p s vm) \<and> unat u \<le> 1000000"
  using cbs_admission_sum [of p "[0..<CONFIG_MAX_VM_NUM]" 0 s u s'] assms
  by (simp add: cbs_validate_pcpu_admission_def word_le_nat_alt)

end
