(* ===== verification/Sched_Bfp.thy ===== *)
theory Sched_Bfp
  imports Sched_Contract
begin

text \<open>
  \<open>core/sched/bfp.c\<close>: fixed priorities with a hard budget per period. A thread with budget waits on
  the ready queue, highest priority first; one without waits on the depleted queue, ordered by its
  replenishment, and never runs before it. A thread is queued on the pCPU of its \<open>pcpu_id\<close>. At
  initialization the policy checks the reservations of the configured VMs by a response-time
  analysis.
\<close>

section \<open>Server data\<close>

definition BFP_DEFAULT_PERIOD_US :: u32 where "BFP_DEFAULT_PERIOD_US = 4000"
definition BFP_DEFAULT_BUDGET_US :: u32 where "BFP_DEFAULT_BUDGET_US = 2000"
definition BFP_MIN_PERIOD_US :: u32 where "BFP_MIN_PERIOD_US = 500"
definition BFP_MIN_BUDGET_US :: u32 where "BFP_MIN_BUDGET_US = 500"
definition BFP_RTA_MAX_ITERATIONS :: nat where "BFP_RTA_MAX_ITERATIONS = 64"

definition bfp_counter_add :: "u64 \<Rightarrow> u64 \<Rightarrow> u64" where
  "bfp_counter_add counter value =
     (if counter > UINT64_MAX - value then UINT64_MAX else counter + value)"

definition bfp_next_period_boundary :: "u64 \<Rightarrow> u64 \<Rightarrow> u64" where
  "bfp_next_period_boundary now period_ticks =
     (if period_ticks = 0 then UINT64_MAX
      else
        let periods = now div period_ticks
        in if periods \<ge> UINT64_MAX div period_ticks then UINT64_MAX else (periods + 1) * period_ticks)"

definition bfp_is_queued :: "sched_bfp_data \<Rightarrow> bool" where
  "bfp_is_queued d \<longleftrightarrow> bfp_queue d \<noteq> BFP_QUEUE_NONE"

definition bfp_advance_inactive_period :: "u64 \<Rightarrow> sched_bfp_data \<Rightarrow> bool \<times> sched_bfp_data" where
  "bfp_advance_inactive_period now d =
     (if bfp_next_replenish_ticks d \<noteq> UINT64_MAX \<and> now \<ge> bfp_next_replenish_ticks d then
        let periods = (now - bfp_next_replenish_ticks d) div bfp_period_ticks d + 1;
            d = (if periods > (UINT64_MAX - bfp_next_replenish_ticks d) div bfp_period_ticks d
                 then d\<lparr>bfp_next_replenish_ticks := UINT64_MAX, bfp_remaining_ticks := 0\<rparr>
                 else d\<lparr>bfp_next_replenish_ticks := bfp_next_replenish_ticks d + periods * bfp_period_ticks d,
                        bfp_remaining_ticks := bfp_budget_ticks d\<rparr>)
        in (True, d\<lparr>bfp_replenish_count := bfp_counter_add (bfp_replenish_count d) periods\<rparr>)
      else (False, d))"

definition bfp_charge_current_period :: "u64 \<Rightarrow> sched_bfp_data \<Rightarrow> sched_bfp_data" where
  "bfp_charge_current_period delta d =
     (if delta > bfp_remaining_ticks d
      then d\<lparr>bfp_remaining_ticks := 0, bfp_overrun_count := bfp_counter_add (bfp_overrun_count d) 1\<rparr>
      else d\<lparr>bfp_remaining_ticks := bfp_remaining_ticks d - delta\<rparr>)"

text \<open>The part of \<open>bfp_account_runtime\<close> past its guard.\<close>

definition bfp_charge :: "u64 \<Rightarrow> sched_bfp_data \<Rightarrow> sched_bfp_data" where
  "bfp_charge now d =
     (let start = bfp_last_start_ticks d;
          d = d\<lparr>bfp_last_start_ticks := now\<rparr>;
          boundary = bfp_next_replenish_ticks d
      in if boundary = UINT64_MAX \<or> now < boundary then bfp_charge_current_period (now - start) d
         else
           let d = (if start < boundary then bfp_charge_current_period (boundary - start) d else d);
               elapsed = now - boundary;
               full_periods = elapsed div bfp_period_ticks d;
               phase = elapsed mod bfp_period_ticks d;
               replenishments = full_periods + 1
           in if replenishments > (UINT64_MAX - boundary) div bfp_period_ticks d
              then d\<lparr>bfp_next_replenish_ticks := UINT64_MAX, bfp_remaining_ticks := 0,
                     bfp_overrun_count := bfp_counter_add (bfp_overrun_count d) 1\<rparr>
              else
                let d = d\<lparr>bfp_next_replenish_ticks := boundary + replenishments * bfp_period_ticks d,
                          bfp_replenish_count := bfp_counter_add (bfp_replenish_count d) replenishments\<rparr>;
                    d = (if full_periods \<noteq> 0 \<and> bfp_budget_ticks d < bfp_period_ticks d
                         then d\<lparr>bfp_overrun_count := bfp_counter_add (bfp_overrun_count d) full_periods\<rparr>
                         else d)
                in if phase > bfp_budget_ticks d
                   then d\<lparr>bfp_remaining_ticks := 0,
                          bfp_overrun_count := bfp_counter_add (bfp_overrun_count d) 1\<rparr>
                   else d\<lparr>bfp_remaining_ticks := bfp_budget_ticks d - phase\<rparr>)"

section \<open>Admission\<close>

record bfp_admission_task =
  adm_vm_id :: nat
  adm_priority :: u32
  adm_period_us :: u32
  adm_budget_us :: u32

definition bfp_normalize_us :: "nat \<Rightarrow> sched_params \<Rightarrow> sched_sys \<Rightarrow> u32 \<times> u32 \<times> sched_sys" where
  "bfp_normalize_us p params s =
     (let pool = sched_get_pcpu_pool_config p s;
          period = (if bfp_period_us params \<noteq> 0 then bfp_period_us params else BFP_DEFAULT_PERIOD_US);
          budget = (if bfp_budget_us params \<noteq> 0 then bfp_budget_us params else BFP_DEFAULT_BUDGET_US);
          (period, budget) =
            (case pool of
               None \<Rightarrow> (period, budget)
             | Some pl \<Rightarrow>
                 if policy pl = SCHED_POLICY_BFP
                 then (if bfp_period_us params = 0 \<and> pool_period_us pl \<noteq> 0 then pool_period_us pl else period,
                       if bfp_budget_us params = 0 \<and> pool_budget_us pl \<noteq> 0 then pool_budget_us pl else budget)
                 else (period, budget));
          s = (if period < BFP_MIN_PERIOD_US then panic ''BFP period below minimum'' s else s);
          s = (if budget < BFP_MIN_BUDGET_US then panic ''BFP budget below minimum'' s else s);
          s = (if budget > period then panic ''BFP budget > period'' s else s)
      in (period, budget, s))"

definition bfp_vm_uses_pcpu :: "acrn_vm_config \<Rightarrow> nat \<Rightarrow> bool" where
  "bfp_vm_uses_pcpu cfg p =
     (if vm_name cfg = [] then False
      else if cpu_affinity_order cfg \<noteq> [] then p \<in> set (cpu_affinity_order cfg)
      else and (cpu_affinity cfg) (AFFINITY_CPU p) \<noteq> 0)"

definition bfp_collect_vm ::
  "nat \<Rightarrow> nat \<Rightarrow> bfp_admission_task list \<times> sched_sys \<Rightarrow> bfp_admission_task list \<times> sched_sys" where
  "bfp_collect_vm p vm ts =
     (let (tasks, s) = ts;
          cfg = vm_configs s vm
      in if \<not> bfp_vm_uses_pcpu cfg p then (tasks, s)
         else
           let s = (if prio (vm_sched_params cfg) \<le> PRIO_IDLE then panic ''BFP invalid priority'' s else s);
               (period_us, budget_us, s) = bfp_normalize_us p (vm_sched_params cfg) s
           in (tasks @ [\<lparr>adm_vm_id = vm, adm_priority = prio (vm_sched_params cfg),
                        adm_period_us = period_us, adm_budget_us = budget_us\<rparr>], s))"

definition bfp_collect_admission_tasks :: "nat \<Rightarrow> sched_sys \<Rightarrow> bfp_admission_task list \<times> sched_sys" where
  "bfp_collect_admission_tasks p s = fold (bfp_collect_vm p) [0..<CONFIG_MAX_VM_NUM] ([], s)"

definition bfp_add_interference ::
  "bfp_admission_task list \<Rightarrow> nat \<Rightarrow> u64 \<Rightarrow> nat \<Rightarrow> u64 \<times> sched_sys \<Rightarrow> u64 \<times> sched_sys" where
  "bfp_add_interference tasks i response j ds =
     (let (demand, s) = ds
      in if j = i \<or> adm_priority (tasks ! j) < adm_priority (tasks ! i) then (demand, s)
         else
           let period = ucast (adm_period_us (tasks ! j)) :: u64;
               budget = ucast (adm_budget_us (tasks ! j)) :: u64;
               jobs = response div period;
               jobs = (if response mod period \<noteq> 0 then jobs + 1 else jobs);
               s = (if jobs > UINT64_MAX div budget then panic ''BFP response interference overflow'' s else s);
               interference = jobs * budget;
               s = (if demand > UINT64_MAX - interference then panic ''BFP response demand overflow'' s else s)
           in (demand + interference, s))"

definition bfp_demand ::
  "bfp_admission_task list \<Rightarrow> nat \<Rightarrow> u64 \<Rightarrow> sched_sys \<Rightarrow> u64 \<times> sched_sys" where
  "bfp_demand tasks i response s =
     fold (bfp_add_interference tasks i response) [0..<length tasks] (ucast (adm_budget_us (tasks ! i)), s)"

fun bfp_response_loop ::
  "bfp_admission_task list \<Rightarrow> nat \<Rightarrow> nat \<Rightarrow> u64 \<Rightarrow> sched_sys \<Rightarrow> sched_sys" where
  "bfp_response_loop tasks i 0 response s = panic ''BFP admission did not converge'' s"
| "bfp_response_loop tasks i (Suc iterations) response s =
     (let (demand, s) = bfp_demand tasks i response s;
          s = (if demand > ucast (adm_period_us (tasks ! i)) then panic ''BFP admission failed'' s else s)
      in if demand = response then s else bfp_response_loop tasks i iterations demand s)"

definition bfp_validate_response_time :: "bfp_admission_task list \<Rightarrow> nat \<Rightarrow> sched_sys \<Rightarrow> sched_sys" where
  "bfp_validate_response_time tasks i s =
     bfp_response_loop tasks i BFP_RTA_MAX_ITERATIONS (ucast (adm_budget_us (tasks ! i))) s"

definition bfp_validate_pcpu_admission :: "nat \<Rightarrow> sched_sys \<Rightarrow> nat \<times> sched_sys" where
  "bfp_validate_pcpu_admission p s =
     (let (tasks, s) = bfp_collect_admission_tasks p s
      in (length tasks, fold (bfp_validate_response_time tasks) [0..<length tasks] s))"

section \<open>Queues\<close>

abbreviation bfp :: "thread_ref \<Rightarrow> sched_sys \<Rightarrow> sched_bfp_data" where
  "bfp t s \<equiv> bfp_data (threads s t)"

definition upd_bfp :: "thread_ref \<Rightarrow> (sched_bfp_data \<Rightarrow> sched_bfp_data) \<Rightarrow> sched_sys \<Rightarrow> sched_sys" where
  "upd_bfp t f s = upd_thread t (\<lambda>th. th\<lparr>bfp_data := f (bfp_data th)\<rparr>) s"

definition bfp_ready :: "nat \<Rightarrow> sched_sys \<Rightarrow> thread_ref list" where
  "bfp_ready p s = bfp_ready_queue (bfp_ctl s p)"

definition bfp_depleted :: "nat \<Rightarrow> sched_sys \<Rightarrow> thread_ref list" where
  "bfp_depleted p s = bfp_depleted_queue (bfp_ctl s p)"

definition set_bfp_queues ::
  "nat \<Rightarrow> thread_ref list \<Rightarrow> thread_ref list \<Rightarrow> sched_sys \<Rightarrow> sched_sys" where
  "set_bfp_queues p r d s =
     s\<lparr>bfp_ctl := (bfp_ctl s)(p := (bfp_ctl s p)\<lparr>bfp_ready_queue := r, bfp_depleted_queue := d\<rparr>)\<rparr>"

definition set_bfp_timer_deadline :: "nat \<Rightarrow> u64 \<Rightarrow> sched_sys \<Rightarrow> sched_sys" where
  "set_bfp_timer_deadline p v s =
     s\<lparr>bfp_ctl := (bfp_ctl s)(p := (bfp_ctl s p)\<lparr>bfp_timer_deadline_ticks := v\<rparr>)\<rparr>"

definition bfp_is_current :: "thread_ref \<Rightarrow> sched_sys \<Rightarrow> bool" where
  "bfp_is_current t s \<longleftrightarrow> curr (pcpu_id (threads s t)) s = Some t"

definition bfp_is_active :: "thread_ref \<Rightarrow> sched_sys \<Rightarrow> bool" where
  "bfp_is_active t s \<longleftrightarrow>
     \<not> is_idle_thread t s
     \<and> (bfp_is_current t s \<and> \<not> be_blocking (threads s t)
        \<or> status (threads s t) = THREAD_STS_RUNNABLE)"

definition bfp_queue_remove :: "thread_ref \<Rightarrow> sched_sys \<Rightarrow> sched_sys" where
  "bfp_queue_remove t s =
     (if bfp_is_queued (bfp t s) then
        let p = pcpu_id (threads s t);
            s = set_bfp_queues p (remove1 t (bfp_ready p s)) (remove1 t (bfp_depleted p s)) s
        in upd_bfp t (\<lambda>d. d\<lparr>bfp_queue := BFP_QUEUE_NONE\<rparr>) s
      else s)"

text \<open>Where a new node goes: in front of a lower priority, or also of an equal one to keep its turn.\<close>

definition bfp_goes_before :: "bool \<Rightarrow> sched_sys \<Rightarrow> thread_ref \<Rightarrow> thread_ref \<Rightarrow> bool" where
  "bfp_goes_before keep_turn s x y \<longleftrightarrow>
     bfp_priority (bfp x s) > bfp_priority (bfp y s)
     \<or> keep_turn \<and> bfp_priority (bfp x s) = bfp_priority (bfp y s)"

definition bfp_ready_insert :: "bool \<Rightarrow> thread_ref \<Rightarrow> sched_sys \<Rightarrow> sched_sys" where
  "bfp_ready_insert keep_turn t s =
     (let p = pcpu_id (threads s t);
          s = bfp_queue_remove t s;
          s = set_bfp_queues p (insert_before (bfp_goes_before keep_turn s t) t (bfp_ready p s)) (bfp_depleted p s) s
      in upd_bfp t (\<lambda>d. d\<lparr>bfp_queue := BFP_QUEUE_READY\<rparr>) s)"

text \<open>\<open>data->next_replenish_ticks < iter_data->next_replenish_ticks\<close>\<close>

definition bfp_replenish_less :: "sched_sys \<Rightarrow> thread_ref \<Rightarrow> thread_ref \<Rightarrow> bool" where
  "bfp_replenish_less s x y \<longleftrightarrow> bfp_next_replenish_ticks (bfp x s) < bfp_next_replenish_ticks (bfp y s)"

definition bfp_depleted_insert :: "thread_ref \<Rightarrow> sched_sys \<Rightarrow> sched_sys" where
  "bfp_depleted_insert t s =
     (let p = pcpu_id (threads s t);
          s = bfp_queue_remove t s;
          s = set_bfp_queues p (bfp_ready p s) (insert_before (bfp_replenish_less s t) t (bfp_depleted p s)) s
      in upd_bfp t (\<lambda>d. d\<lparr>bfp_queue := BFP_QUEUE_DEPLETED, bfp_depleted_count := bfp_depleted_count d + 1\<rparr>) s)"

definition bfp_account_runtime :: "thread_ref \<Rightarrow> u64 \<Rightarrow> sched_sys \<Rightarrow> sched_sys" where
  "bfp_account_runtime t now s =
     (if is_idle_thread t s \<or> \<not> is_running t s
         \<or> bfp_last_start_ticks (bfp t s) = 0 \<or> now \<le> bfp_last_start_ticks (bfp t s)
      then s else upd_bfp t (bfp_charge now) s)"

definition bfp_refresh_thread :: "u64 \<Rightarrow> bool \<Rightarrow> thread_ref \<Rightarrow> sched_sys \<Rightarrow> sched_sys" where
  "bfp_refresh_thread now keep_turn t s =
     (let s = upd_bfp t (\<lambda>d. snd (bfp_advance_inactive_period now d)) s
      in if \<not> bfp_is_active t s then bfp_queue_remove t s
         else if bfp_remaining_ticks (bfp t s) \<noteq> 0 then bfp_ready_insert keep_turn t s
         else bfp_depleted_insert t s)"

definition bfp_refresh_depleted :: "u64 \<Rightarrow> thread_ref \<Rightarrow> sched_sys \<Rightarrow> sched_sys" where
  "bfp_refresh_depleted now t s =
     (let (advanced, d) = bfp_advance_inactive_period now (bfp t s);
          s = upd_bfp t (\<lambda>_. d) s
      in if advanced then
           let s = bfp_queue_remove t s
           in if bfp_is_active t s \<and> bfp_remaining_ticks (bfp t s) \<noteq> 0 then bfp_ready_insert False t s else s
         else s)"

definition bfp_refresh_queues :: "nat \<Rightarrow> u64 \<Rightarrow> sched_sys \<Rightarrow> sched_sys" where
  "bfp_refresh_queues c now s =
     (let s = fold (\<lambda>t. upd_bfp t (\<lambda>d. snd (bfp_advance_inactive_period now d))) (bfp_ready c s) s
      in or_diverges s (for_each_safe (bfp_depleted c) (bfp_refresh_depleted now) s))"

definition bfp_next_depleted_replenishment :: "nat \<Rightarrow> sched_sys \<Rightarrow> u64" where
  "bfp_next_depleted_replenishment c s =
     (case bfp_depleted c s of [] \<Rightarrow> 0 | t # _ \<Rightarrow> bfp_next_replenish_ticks (bfp t s))"

section \<open>Timer\<close>

definition bfp_timer_handler :: "nat \<Rightarrow> sched_sys \<Rightarrow> sched_sys" where
  "bfp_timer_handler c s =
     (let p = cur_pcpu s;
          now = cpu_ticks s;
          s = tick_read s;
          s = assertion (ctl_pcpu_id (sched_ctls s c) = p) ''BFP timer on wrong cpu!'' s;
          s = set_bfp_timer_deadline c 0 s;
          s = sched_account_tick c s;
          s = (case curr c s of
                 None \<Rightarrow> s
               | Some current \<Rightarrow> if is_idle_thread current s then s else bfp_account_runtime current now s);
          s = bfp_refresh_queues c now s
      in make_reschedule_request p s)"

definition bfp_timeout :: "nat \<Rightarrow> thread_ref option \<Rightarrow> u64 \<Rightarrow> sched_sys \<Rightarrow> u64" where
  "bfp_timeout c running now s =
     (let timeout =
            (case running of
               None \<Rightarrow> 0
             | Some t \<Rightarrow>
                 let d = bfp t s
                 in if \<not> is_idle_thread t s \<and> bfp_remaining_ticks d \<noteq> 0 then
                      let timeout = (if bfp_remaining_ticks d \<le> UINT64_MAX - now
                                     then now + bfp_remaining_ticks d else UINT64_MAX)
                      in if bfp_next_replenish_ticks d < timeout then bfp_next_replenish_ticks d else timeout
                    else 0);
          replenish_timeout = bfp_next_depleted_replenishment c s
      in if replenish_timeout \<noteq> 0 \<and> (timeout = 0 \<or> replenish_timeout < timeout)
         then replenish_timeout else timeout)"

definition bfp_program_local_timer :: "nat \<Rightarrow> thread_ref option \<Rightarrow> sched_sys \<Rightarrow> sched_sys" where
  "bfp_program_local_timer c running s =
     (let now = cpu_ticks s;
          s = tick_read s;
          s = assertion (ctl_pcpu_id (sched_ctls s c) = cur_pcpu s) ''program BFP timer on wrong cpu!'' s;
          timeout = bfp_timeout c running now s
      in if timeout = bfp_timer_deadline_ticks (bfp_ctl s c) \<and> timer_is_started (BfpTick c) s then s
         else
           let s = (if timer_is_started (BfpTick c) s then del_timer (Some (BfpTick c)) s else s);
               s = set_bfp_timer_deadline c 0 s
           in if timeout \<noteq> 0 then
                let s = assertion (timeout > now) ''BFP timer deadline is not in the future!'' s;
                    s = update_timer (Some (BfpTick c)) timeout 0 s;
                    (ret, s) = add_timer (Some (BfpTick c)) s;
                    s = (if ret \<noteq> 0 then panic ''BFP failed to arm timer'' s else s)
                in set_bfp_timer_deadline c timeout s
              else s)"

definition bfp_program_timer :: "nat \<Rightarrow> thread_ref option \<Rightarrow> sched_sys \<Rightarrow> sched_sys" where
  "bfp_program_timer c running s =
     (if ctl_pcpu_id (sched_ctls s c) = cur_pcpu s then bfp_program_local_timer c running s else s)"

section \<open>Hooks\<close>

definition sched_bfp_init :: "nat \<Rightarrow> sched_sys \<Rightarrow> sched_sys" where
  "sched_bfp_init c s =
     (let s = assertion (ctl_pcpu_id (sched_ctls s c) = cur_pcpu s) ''init BFP on wrong cpu!'' s;
          s = upd_ctl c (\<lambda>ct. ct\<lparr>priv := True\<rparr>) s;
          s = set_bfp_timer_deadline c 0 (set_bfp_queues c [] [] s);
          (n, s) = bfp_validate_pcpu_admission (ctl_pcpu_id (sched_ctls s c)) s;
          s = s\<lparr>bfp_ctl := (bfp_ctl s)(c := (bfp_ctl s c)\<lparr>bfp_admitted_vcpus := n\<rparr>)\<rparr>
      in initialize_timer (Some (BfpTick c)) (Some Bfp_timer_handler) c 0 0 s)"

definition sched_bfp_deinit :: "nat \<Rightarrow> sched_sys \<Rightarrow> sched_sys" where
  "sched_bfp_deinit c s =
     set_bfp_timer_deadline c 0 (del_timer (Some (BfpTick c))
       (assertion (ctl_pcpu_id (sched_ctls s c) = cur_pcpu s) ''deinit BFP on wrong cpu!'' s))"

text \<open>The parameter pointer is not null here: \<open>init_thread_data\<close> passes it on from its callers.\<close>

definition sched_bfp_init_data :: "thread_ref \<Rightarrow> sched_params \<Rightarrow> sched_sys \<Rightarrow> sched_sys" where
  "sched_bfp_init_data t params s =
     (let now = cpu_ticks s;
          s = tick_read s;
          s = upd_bfp t (\<lambda>_. \<lparr>bfp_period_ticks = 0, bfp_budget_ticks = 0, bfp_remaining_ticks = 0,
                bfp_next_replenish_ticks = UINT64_MAX, bfp_last_start_ticks = 0, bfp_depleted_count = 0,
                bfp_replenish_count = 0, bfp_overrun_count = 0, bfp_priority = PRIO_IDLE,
                bfp_queue = BFP_QUEUE_NONE\<rparr>) s
      in if is_idle_thread t s then s
         else
           let s = (if \<not> is_vcpu (threads s t) then panic ''BFP rejects host thread'' s else s);
               s = (if prio params \<le> PRIO_IDLE then panic ''BFP invalid priority'' s else s);
               (period_us, budget_us, s) = bfp_normalize_us (pcpu_id (threads s t)) params s;
               period = us_to_ticks (khz s) period_us;
               budget = us_to_ticks (khz s) budget_us;
               s = (if period = 0 \<or> budget = 0 \<or> budget > period then panic ''BFP invalid tick budget'' s else s)
           in upd_bfp t (\<lambda>d. d\<lparr>bfp_period_ticks := period, bfp_budget_ticks := budget,
                bfp_remaining_ticks := budget,
                bfp_next_replenish_ticks := bfp_next_period_boundary now period,
                bfp_priority := prio params\<rparr>) s)"

definition sched_bfp_deinit_data :: "thread_ref \<Rightarrow> sched_sys \<Rightarrow> sched_sys" where
  "sched_bfp_deinit_data t s = bfp_queue_remove t s"

definition bfp_settle_current :: "nat \<Rightarrow> u64 \<Rightarrow> sched_sys \<Rightarrow> sched_sys" where
  "bfp_settle_current c now s =
     (case curr c s of
        None \<Rightarrow> s
      | Some current \<Rightarrow>
          if is_idle_thread current s then s
          else bfp_refresh_thread now True current (bfp_account_runtime current now s))"

definition sched_bfp_pick_next :: "nat \<Rightarrow> sched_sys \<Rightarrow> thread_ref \<times> sched_sys" where
  "sched_bfp_pick_next c s =
     (let now = cpu_ticks s;
          s = tick_read s;
          s = bfp_settle_current c now s;
          s = bfp_refresh_queues c now s;
          (next, s) = (case bfp_ready c s of
                         next # _ \<Rightarrow> (next, upd_bfp next (\<lambda>d. d\<lparr>bfp_last_start_ticks := now\<rparr>) (bfp_queue_remove next s))
                       | [] \<Rightarrow> (idle_var s, s))
      in (next, bfp_program_local_timer c (Some next) s))"

definition sched_bfp_sleep :: "thread_ref \<Rightarrow> sched_sys \<Rightarrow> sched_sys" where
  "sched_bfp_sleep t s =
     (let s = (if bfp_is_current t s then bfp_account_runtime t (cpu_ticks s) (tick_read s) else s);
          s = bfp_queue_remove t s
      in upd_bfp t (\<lambda>d. d\<lparr>bfp_last_start_ticks := 0\<rparr>) s)"

definition sched_bfp_wake :: "thread_ref \<Rightarrow> sched_sys \<Rightarrow> sched_sys" where
  "sched_bfp_wake t s =
     (let now = cpu_ticks s;
          s = tick_read s;
          s = upd_bfp t (\<lambda>d. (snd (bfp_advance_inactive_period now d))\<lparr>bfp_last_start_ticks := 0\<rparr>) s;
          s = (if bfp_remaining_ticks (bfp t s) \<noteq> 0 then bfp_ready_insert False t s
               else bfp_depleted_insert t s);
          p = pcpu_id (threads s t)
      in bfp_program_timer p (curr p s) s)"

definition sched_bfp_suspend :: "nat \<Rightarrow> sched_sys \<Rightarrow> sched_sys" where
  "sched_bfp_suspend c s =
     (let s = assertion (ctl_pcpu_id (sched_ctls s c) = cur_pcpu s) ''suspend BFP on wrong cpu!'' s;
          s = (case curr c s of
                 None \<Rightarrow> s
               | Some current \<Rightarrow>
                   if is_idle_thread current s then s
                   else upd_bfp current (\<lambda>d. d\<lparr>bfp_last_start_ticks := 0\<rparr>)
                          (bfp_account_runtime current (cpu_ticks s) (tick_read s)))
      in set_bfp_timer_deadline c 0 (del_timer (Some (BfpTick c)) s))"

definition sched_bfp_resume :: "nat \<Rightarrow> sched_sys \<Rightarrow> sched_sys" where
  "sched_bfp_resume c s =
     (let now = cpu_ticks s;
          s = tick_read s;
          s = assertion (ctl_pcpu_id (sched_ctls s c) = cur_pcpu s) ''resume BFP on wrong cpu!'' s;
          s = (case curr c s of
                 None \<Rightarrow> s
               | Some current \<Rightarrow>
                   if is_idle_thread current s then s
                   else upd_bfp current (\<lambda>d. (snd (bfp_advance_inactive_period now d))\<lparr>bfp_last_start_ticks := now\<rparr>) s)
      in make_reschedule_request (ctl_pcpu_id (sched_ctls s c)) s)"

definition sched_bfp :: acrn_scheduler where
  "sched_bfp = \<lparr>sched_name = ''bfp'', stat_desc = ''hard-budget fixed-priority:inactive'',
     hook_init = Some sched_bfp_init, hook_init_data = Some sched_bfp_init_data,
     hook_pick_next = Some sched_bfp_pick_next, hook_sleep = Some sched_bfp_sleep,
     hook_wake = Some sched_bfp_wake, hook_yield = None, hook_prioritize = None,
     hook_deinit_data = Some sched_bfp_deinit_data, hook_deinit = Some sched_bfp_deinit,
     hook_suspend = Some sched_bfp_suspend, hook_resume = Some sched_bfp_resume\<rparr>"

section \<open>Frames\<close>

definition bfp_rq :: "nat \<Rightarrow> sched_sys \<Rightarrow> thread_ref list" where
  "bfp_rq p s = bfp_ready p s @ bfp_depleted p s"

lemma upd_bfp_simps [simp]:
  "bfp_ready q (upd_bfp t f s) = bfp_ready q s" "bfp_depleted q (upd_bfp t f s) = bfp_depleted q s"
  "bfp_ctl (upd_bfp t f s) = bfp_ctl s" "timer_ok (upd_bfp t f s) = timer_ok s" "sched_ctls (upd_bfp t f s) = sched_ctls s"
  "pcpu_id (threads (upd_bfp t f s) u) = pcpu_id (threads s u)" "cur_pcpu (upd_bfp t f s) = cur_pcpu s"
  "is_idle_thread u (upd_bfp t f s) = is_idle_thread u s" "curr q (upd_bfp t f s) = curr q s"
  "bfp u (upd_bfp t f s) = (if u = t then f (bfp t s) else bfp u s)" "fault (upd_bfp t f s) = fault s"
  by (simp_all add: upd_bfp_def is_idle_thread_def curr_def bfp_ready_def bfp_depleted_def)

lemma set_bfp_queues_simps [simp]:
  "bfp_ready q (set_bfp_queues p r d s) = (if q = p then r else bfp_ready q s)"
  "bfp_depleted q (set_bfp_queues p r d s) = (if q = p then d else bfp_depleted q s)"
  "threads (set_bfp_queues p r d s) = threads s" "timer_ok (set_bfp_queues p r d s) = timer_ok s"
  "set_bfp_queues p (bfp_ready p s) (bfp_depleted p s) s = s"
  by (auto simp: set_bfp_queues_def bfp_ready_def bfp_depleted_def)

lemma set_bfp_timer_deadline_simps [simp]:
  "bfp_ready q (set_bfp_timer_deadline p v s) = bfp_ready q s"
  "bfp_depleted q (set_bfp_timer_deadline p v s) = bfp_depleted q s"
  "threads (set_bfp_timer_deadline p v s) = threads s" "timer_ok (set_bfp_timer_deadline p v s) = timer_ok s"
  by (auto simp: set_bfp_timer_deadline_def bfp_ready_def bfp_depleted_def)

lemma bfp_queues_machine [simp]:
  "bfp_ready q (tick_read s) = bfp_ready q s" "bfp_depleted q (tick_read s) = bfp_depleted q s"
  "bfp_ready q (del_timer tr s) = bfp_ready q s" "bfp_depleted q (del_timer tr s) = bfp_depleted q s"
  "bfp_ready q (update_timer tr d k s) = bfp_ready q s" "bfp_depleted q (update_timer tr d k s) = bfp_depleted q s"
  "bfp_ready q (snd (add_timer tr s)) = bfp_ready q s" "bfp_depleted q (snd (add_timer tr s)) = bfp_depleted q s"
  "bfp_ready q (assertion b m s) = bfp_ready q s" "bfp_depleted q (assertion b m s) = bfp_depleted q s"
  "bfp_ready q (panic m s) = bfp_ready q s" "bfp_depleted q (panic m s) = bfp_depleted q s"
  "bfp_ready q (s\<lparr>fault := x\<rparr>) = bfp_ready q s" "bfp_depleted q (s\<lparr>fault := x\<rparr>) = bfp_depleted q s"
  by (simp_all add: bfp_ready_def bfp_depleted_def)

lemma bfp_prim_frames [simp, intro]:
  "hook_frame s (upd_bfp t f s)" "hook_frame s (set_bfp_queues p r d s)" "hook_frame s (set_bfp_timer_deadline p v s)"
  by (auto simp: upd_bfp_def set_bfp_queues_def set_bfp_timer_deadline_def intro!: hook_frame_upd_thread)

lemmas bfp_prim_steps = hook_frame_steps bfp_prim_frames [THEN hook_frame_trans [rotated]]

lemma bfp_queue_frames [simp, intro]:
  "hook_frame s (bfp_queue_remove t s)" "timer_ok (bfp_queue_remove t s) = timer_ok s"
  "hook_frame s (bfp_ready_insert k t s)" "timer_ok (bfp_ready_insert k t s) = timer_ok s"
  "hook_frame s (bfp_depleted_insert t s)" "timer_ok (bfp_depleted_insert t s) = timer_ok s"
proof -
  show r: "hook_frame s (bfp_queue_remove t s)" "timer_ok (bfp_queue_remove t s) = timer_ok s" for s
    by (auto simp: bfp_queue_remove_def Let_def intro!: bfp_prim_steps)
  show "hook_frame s (bfp_ready_insert k t s)" "hook_frame s (bfp_depleted_insert t s)"
    unfolding bfp_ready_insert_def bfp_depleted_insert_def Let_def by (intro bfp_prim_steps r(1))+
qed (simp_all add: bfp_ready_insert_def bfp_depleted_insert_def bfp_queue_remove_def Let_def)

lemmas bfp_steps = bfp_prim_steps bfp_queue_frames(1,3,5) [THEN hook_frame_trans [rotated]]

lemma bfp_account_frames [simp, intro]:
  "hook_frame s (bfp_account_runtime t now s)" "timer_ok (bfp_account_runtime t now s) = timer_ok s"
  by (auto simp: bfp_account_runtime_def)

lemma bfp_refresh_frames [simp, intro]:
  "hook_frame s (bfp_refresh_thread now k t s)" "timer_ok (bfp_refresh_thread now k t s) = timer_ok s"
  "hook_frame s (bfp_refresh_depleted now t s)" "timer_ok (bfp_refresh_depleted now t s) = timer_ok s"
proof -
  show "hook_frame s (bfp_refresh_thread now k t s)" "hook_frame s (bfp_refresh_depleted now t s)"
    unfolding bfp_refresh_thread_def bfp_refresh_depleted_def Let_def split_def
    by (intro hook_frame_if bfp_steps hook_frame_refl)+
qed (simp_all add: bfp_refresh_thread_def bfp_refresh_depleted_def Let_def split_def)

lemma bfp_fold_frames:
  "hook_frame s (fold (\<lambda>t. upd_bfp t f) ts s)" "timer_ok (fold (\<lambda>t. upd_bfp t f) ts s) = timer_ok s"
proof -
  show "hook_frame s (fold (\<lambda>t. upd_bfp t f) ts s)"
    by (induction ts arbitrary: s) (auto intro: hook_frame_trans)
  show "timer_ok (fold (\<lambda>t. upd_bfp t f) ts s) = timer_ok s" by (induction ts arbitrary: s) simp_all
qed

lemma bfp_refresh_queues_frames [simp, intro]:
  "hook_frame s (bfp_refresh_queues c now s)" "timer_ok s \<Longrightarrow> timer_ok (bfp_refresh_queues c now s)"
proof -
  have 1: "hook_frame s (or_diverges s (for_each_safe q (bfp_refresh_depleted now) s))" for q s
    by (rule hook_frame_or_diverges, erule for_each_safe_keeps) (auto intro: hook_frame_trans)
  have 2: "timer_ok (or_diverges s (for_each_safe q (bfp_refresh_depleted now) s))" if "timer_ok s" for q s
    by (rule timer_ok_or_diverges [OF that], erule for_each_safe_keeps [where P = timer_ok]) (use that in auto)
  show "hook_frame s (bfp_refresh_queues c now s)"
    unfolding bfp_refresh_queues_def Let_def by (rule hook_frame_trans [OF bfp_fold_frames(1) 1])
  show "timer_ok (bfp_refresh_queues c now s)" if "timer_ok s"
    unfolding bfp_refresh_queues_def Let_def by (rule 2) (use that in \<open>simp add: bfp_fold_frames\<close>)
qed

lemma bfp_settle_frames [simp, intro]:
  "hook_frame s (bfp_settle_current c now s)" "timer_ok (bfp_settle_current c now s) = timer_ok s"
  by (auto simp: bfp_settle_current_def intro: hook_frame_trans split: option.split)

lemma bfp_program_local_timer_frames [simp, intro]:
  "hook_frame s (bfp_program_local_timer c r s)" "timer_ok s \<Longrightarrow> timer_ok (bfp_program_local_timer c r s)"
  "threads (bfp_program_local_timer c r s) = threads s"
  "bfp_ready q (bfp_program_local_timer c r s) = bfp_ready q s"
  "bfp_depleted q (bfp_program_local_timer c r s) = bfp_depleted q s"
proof -
  show "hook_frame s (bfp_program_local_timer c r s)"
    unfolding bfp_program_local_timer_def Let_def split_def by (intro hook_frame_if bfp_steps hook_frame_refl)
  show "timer_ok (bfp_program_local_timer c r s)" if "timer_ok s"
    using that by (simp add: bfp_program_local_timer_def Let_def split_def timer_ok_rearm timer_ok_del timer_ok_assertion)
qed (simp_all add: bfp_program_local_timer_def Let_def split_def)

lemma bfp_program_timer_frames [simp, intro]:
  "hook_frame s (bfp_program_timer c r s)" "timer_ok s \<Longrightarrow> timer_ok (bfp_program_timer c r s)"
  "threads (bfp_program_timer c r s) = threads s"
  "bfp_ready q (bfp_program_timer c r s) = bfp_ready q s"
  "bfp_depleted q (bfp_program_timer c r s) = bfp_depleted q s"
  by (auto simp: bfp_program_timer_def)

lemma bfp_timer_handler_frames:
  "timer_ok s \<Longrightarrow> timer_ok (bfp_timer_handler c s)" "cur_pcpu (bfp_timer_handler c s) = cur_pcpu s"
  "func (timers (bfp_timer_handler c s) t) = func (timers s t)" "fault s \<noteq> None \<Longrightarrow> fault (bfp_timer_handler c s) \<noteq> None"
proof -
  define s0 where "s0 = set_bfp_timer_deadline c 0 (assertion (ctl_pcpu_id (sched_ctls (tick_read s) c) = cur_pcpu s)
    ''BFP timer on wrong cpu!'' (tick_read s))"
  define s1 where "s1 = sched_account_tick c s0"
  define s2 where "s2 = (case curr c s1 of None \<Rightarrow> s1
    | Some current \<Rightarrow> if is_idle_thread current s1 then s1 else bfp_account_runtime current (cpu_ticks s) s1)"
  have h: "bfp_timer_handler c s = make_reschedule_request (cur_pcpu s) (bfp_refresh_queues c (cpu_ticks s) s2)"
    by (simp only: bfp_timer_handler_def Let_def s0_def s1_def s2_def)
  have F0: "hook_frame s s0" unfolding s0_def by (intro bfp_steps hook_frame_refl)
  have P1: "policy_same s0 s1" by (simp add: s1_def sched_account_tick_def)
  have F2: "hook_frame s1 (bfp_refresh_queues c (cpu_ticks s) s2)" "timer_ok s1 \<Longrightarrow> timer_ok (bfp_refresh_queues c (cpu_ticks s) s2)"
    unfolding s2_def by (auto intro: hook_frame_trans split: option.split)
  have P3: "policy_same (bfp_refresh_queues c (cpu_ticks s) s2) (bfp_timer_handler c s)" by (simp add: h)
  have T0: "timer_ok s \<Longrightarrow> timer_ok s0" by (simp add: s0_def timer_ok_assertion)
  show "timer_ok (bfp_timer_handler c s)" if "timer_ok s"
    using T0 [OF that] F2(2) policy_same_timer_ok [OF P1] policy_same_timer_ok [OF P3] by simp
  note e = hook_frameD(14,24,29) [OF F0] hook_frameD(14,24,29) [OF F2(1)]
  show "cur_pcpu (bfp_timer_handler c s) = cur_pcpu s" "func (timers (bfp_timer_handler c s) t) = func (timers s t)"
    "fault s \<noteq> None \<Longrightarrow> fault (bfp_timer_handler c s) \<noteq> None"
    using e P1 P3 by (simp_all add: policy_same_def)
qed

section \<open>The queues\<close>

definition bfp_linked :: "nat \<Rightarrow> sched_sys \<Rightarrow> bool" where
  "bfp_linked p s \<longleftrightarrow>
     distinct (bfp_rq p s)
     \<and> (\<forall>t. pcpu_id (threads s t) = p \<longrightarrow>
          bfp_queue (bfp t s) =
            (if t \<in> set (bfp_ready p s) then BFP_QUEUE_READY
             else if t \<in> set (bfp_depleted p s) then BFP_QUEUE_DEPLETED else BFP_QUEUE_NONE))"

text \<open>\<open>bfp_step p t\<close>: the operation moved or changed no thread but \<open>t\<close>, and no priority.\<close>

definition bfp_step :: "nat \<Rightarrow> thread_ref \<Rightarrow> sched_sys \<Rightarrow> sched_sys \<Rightarrow> bool" where
  "bfp_step p t s s' \<longleftrightarrow>
     bfp_linked p s' \<and> hook_frame s s'
     \<and> remove1 t (bfp_ready p s') = remove1 t (bfp_ready p s)
     \<and> remove1 t (bfp_depleted p s') = remove1 t (bfp_depleted p s)
     \<and> (\<forall>u. u \<noteq> t \<longrightarrow> bfp u s' = bfp u s) \<and> bfp_priority (bfp t s') = bfp_priority (bfp t s)"

lemma bfp_step_frame: "bfp_step p t s s' \<Longrightarrow> hook_frame s s'"
  by (simp add: bfp_step_def)

lemma bfp_step_trans: "bfp_step p t s s' \<Longrightarrow> bfp_step p t s' s'' \<Longrightarrow> bfp_step p t s s''"
  by (auto simp: bfp_step_def intro: hook_frame_trans)

lemma bfp_step_upd:
  assumes "bfp_linked p s" and "\<And>d. bfp_queue (f d) = bfp_queue d" and "\<And>d. bfp_priority (f d) = bfp_priority d"
  shows "bfp_step p t s (upd_bfp t f s)"
  using assms by (auto simp: bfp_step_def bfp_linked_def bfp_rq_def)

text \<open>Taking \<open>t\<close> off its queue and putting it at a place.\<close>

definition bfp_place ::
  "nat \<Rightarrow> thread_ref \<Rightarrow> thread_ref list \<Rightarrow> thread_ref list \<Rightarrow> (sched_bfp_data \<Rightarrow> sched_bfp_data) \<Rightarrow> sched_sys \<Rightarrow> sched_sys" where
  "bfp_place p t r d f s =
     upd_bfp t (\<lambda>x. (f x)\<lparr>bfp_queue := (if t \<in> set r then BFP_QUEUE_READY
        else if t \<in> set d then BFP_QUEUE_DEPLETED else BFP_QUEUE_NONE)\<rparr>) (set_bfp_queues p r d s)"

lemma bfp_place_simps [simp]:
  "bfp_ready p (bfp_place p t r d f s) = r" "bfp_depleted p (bfp_place p t r d f s) = d"
  "pcpu_id (threads (bfp_place p t r d f s) u) = pcpu_id (threads s u)"
  "u \<noteq> t \<Longrightarrow> bfp u (bfp_place p t r d f s) = bfp u s"
  "bfp_next_replenish_ticks (bfp t (bfp_place p t r d f s)) = bfp_next_replenish_ticks (f (bfp t s))"
  "bfp_remaining_ticks (bfp t (bfp_place p t r d f s)) = bfp_remaining_ticks (f (bfp t s))"
  "bfp_budget_ticks (bfp t (bfp_place p t r d f s)) = bfp_budget_ticks (f (bfp t s))"
  "bfp_period_ticks (bfp t (bfp_place p t r d f s)) = bfp_period_ticks (f (bfp t s))"
  "bfp_priority (bfp t (bfp_place p t r d f s)) = bfp_priority (f (bfp t s))"
  by (auto simp: bfp_place_def)

lemma bfp_place_frame [simp, intro]: "hook_frame s (bfp_place p t r d f s)"
  unfolding bfp_place_def by (intro bfp_steps hook_frame_refl)

lemma bfp_step_place:
  assumes "bfp_linked p s" and "distinct (r @ d)" and "bfp_priority (f (bfp t s)) = bfp_priority (bfp t s)"
    and "remove1 t r = remove1 t (bfp_ready p s)" and "remove1 t d = remove1 t (bfp_depleted p s)"
  shows "bfp_step p t s (bfp_place p t r d f s)"
proof -
  have mem: "u \<in> set r \<longleftrightarrow> u \<in> set (bfp_ready p s)" "u \<in> set d \<longleftrightarrow> u \<in> set (bfp_depleted p s)" if "u \<noteq> t" for u
    using assms(4,5) that in_set_remove1 [of u t] by metis+
  have q: "bfp_queue (bfp u (bfp_place p t r d f s)) = (if u = t then
      (if t \<in> set r then BFP_QUEUE_READY else if t \<in> set d then BFP_QUEUE_DEPLETED else BFP_QUEUE_NONE)
      else bfp_queue (bfp u s))" for u by (simp add: bfp_place_def)
  show ?thesis using assms mem by (simp add: bfp_step_def bfp_linked_def bfp_rq_def q)
qed

lemma upd_bfp_same: "f (bfp t s) = bfp t s \<Longrightarrow> upd_bfp t f s = s"
  by (simp add: upd_bfp_def upd_thread_def)

lemma bfp_queue_remove_place:
  assumes L: "bfp_linked p s" and c: "pcpu_id (threads s t) = p"
  shows "bfp_queue_remove t s = bfp_place p t (remove1 t (bfp_ready p s)) (remove1 t (bfp_depleted p s)) id s"
proof (cases "t \<in> set (bfp_rq p s)")
  case True
  have "t \<notin> set (remove1 t (bfp_ready p s))" "t \<notin> set (remove1 t (bfp_depleted p s))"
    using L by (auto simp: bfp_linked_def bfp_rq_def)
  moreover have "bfp_is_queued (bfp t s)" using True L c by (auto simp: bfp_is_queued_def bfp_linked_def bfp_rq_def)
  ultimately show ?thesis using c by (simp add: bfp_queue_remove_def bfp_place_def)
next
  case False
  then have q: "bfp_queue (bfp t s) = BFP_QUEUE_NONE" using L c by (auto simp: bfp_linked_def bfp_rq_def)
  from False have "remove1 t (bfp_ready p s) = bfp_ready p s" "remove1 t (bfp_depleted p s) = bfp_depleted p s"
    "t \<notin> set (bfp_ready p s)" "t \<notin> set (bfp_depleted p s)"
    by (auto simp: bfp_rq_def remove1_idem)
  then show ?thesis using q by (simp add: bfp_queue_remove_def bfp_is_queued_def bfp_place_def upd_bfp_same)
qed

lemma bfp_place_place:
  "bfp_place p t r d f (bfp_place p t r' d' id s) = bfp_place p t r d (\<lambda>x. f (x\<lparr>bfp_queue := bfp_queue (bfp t (bfp_place p t r' d' id s))\<rparr>)) s"
  by (simp add: bfp_place_def set_bfp_queues_def upd_bfp_def upd_thread_def)

definition bfp_higher :: "sched_sys \<Rightarrow> thread_ref \<Rightarrow> thread_ref \<Rightarrow> bool" where
  "bfp_higher s x y \<longleftrightarrow> bfp_priority (bfp x s) > bfp_priority (bfp y s)"

lemma bfp_orders_remove:
  "bfp_goes_before k (bfp_queue_remove t s) = bfp_goes_before k s"
  "bfp_replenish_less (bfp_queue_remove t s) = bfp_replenish_less s"
  by (simp_all add: bfp_queue_remove_def Let_def bfp_goes_before_def bfp_replenish_less_def fun_eq_iff)

lemma bfp_ready_insert_place:
  assumes L: "bfp_linked p s" and c: "pcpu_id (threads s t) = p"
  shows "bfp_ready_insert k t s = bfp_place p t
    (insert_before (bfp_goes_before k s t) t (remove1 t (bfp_ready p s))) (remove1 t (bfp_depleted p s)) id s"
proof -
  define s1 where "s1 = bfp_queue_remove t s"
  have s1: "s1 = bfp_place p t (remove1 t (bfp_ready p s)) (remove1 t (bfp_depleted p s)) id s"
    by (simp add: s1_def bfp_queue_remove_place [OF L c])
  have "bfp_ready_insert k t s = bfp_place p t (insert_before (bfp_goes_before k s t) t (bfp_ready p s1)) (bfp_depleted p s1) id s1"
    using c by (simp add: bfp_ready_insert_def Let_def bfp_place_def s1_def bfp_orders_remove)
  then show ?thesis unfolding s1 bfp_place_place by (simp add: bfp_place_def)
qed

lemma bfp_depleted_insert_place:
  assumes L: "bfp_linked p s" and c: "pcpu_id (threads s t) = p"
  shows "bfp_depleted_insert t s = bfp_place p t (remove1 t (bfp_ready p s))
    (insert_before (bfp_replenish_less s t) t (remove1 t (bfp_depleted p s)))
    (\<lambda>d. d\<lparr>bfp_depleted_count := bfp_depleted_count d + 1\<rparr>) s"
proof -
  define s1 where "s1 = bfp_queue_remove t s"
  have s1: "s1 = bfp_place p t (remove1 t (bfp_ready p s)) (remove1 t (bfp_depleted p s)) id s"
    by (simp add: s1_def bfp_queue_remove_place [OF L c])
  have n: "t \<notin> set (bfp_ready p s1)" using L by (simp add: s1 bfp_linked_def bfp_rq_def)
  have q: "d\<lparr>bfp_queue := a, bfp_depleted_count := b\<rparr> = d\<lparr>bfp_depleted_count := b, bfp_queue := a\<rparr>" for d a b
    by (cases d) simp
  have "bfp_depleted_insert t s = bfp_place p t (bfp_ready p s1)
      (insert_before (bfp_replenish_less s t) t (bfp_depleted p s1)) (\<lambda>d. d\<lparr>bfp_depleted_count := bfp_depleted_count d + 1\<rparr>) s1"
    using c n by (simp add: bfp_depleted_insert_def Let_def bfp_place_def s1_def bfp_orders_remove)
      (simp add: upd_bfp_def upd_thread_def q)
  then show ?thesis unfolding s1 bfp_place_place by (simp add: bfp_place_def)
qed

section \<open>The invariant\<close>

definition bfp_server :: "sched_bfp_data \<Rightarrow> bool" where
  "bfp_server d \<longleftrightarrow> 0 < bfp_budget_ticks d \<and> bfp_budget_ticks d \<le> bfp_period_ticks d
     \<and> bfp_remaining_ticks d \<le> bfp_budget_ticks d"

text \<open>A thread may run: it has budget left in its period, or its last period never ends.\<close>

definition bfp_token :: "sched_bfp_data \<Rightarrow> bool" where
  "bfp_token d \<longleftrightarrow> bfp_remaining_ticks d \<noteq> 0 \<or> bfp_next_replenish_ticks d = UINT64_MAX"

text \<open>
  The queues are in order and hold the threads that their flags say, and a thread with no budget
  is not on the ready queue. \<open>bfp_wf_but X\<close> leaves out the threads \<open>X\<close> whose data changed and
  that are about to move.
\<close>

definition bfp_wf_but :: "thread_ref set \<Rightarrow> nat \<Rightarrow> sched_sys \<Rightarrow> bool" where
  "bfp_wf_but X p s \<longleftrightarrow>
     bfp_linked p s \<and> (\<forall>t. managed p t s \<longrightarrow> bfp_server (bfp t s))
     \<and> in_order (bfp_higher s) (bfp_ready p s)
     \<and> in_order (bfp_replenish_less s) (filter (\<lambda>t. t \<notin> X) (bfp_depleted p s))
     \<and> (\<forall>t \<in> set (bfp_ready p s) - X. bfp_token (bfp t s))"

abbreviation bfp_wf :: "nat \<Rightarrow> sched_sys \<Rightarrow> bool" where
  "bfp_wf \<equiv> bfp_wf_but {}"

interpretation bfp_priority_order: queue_order "bfp_higher s" for s
  by unfold_locales (auto simp: bfp_higher_def)

interpretation bfp_replenish_order: queue_order "bfp_replenish_less s" for s
  by unfold_locales (auto simp: bfp_replenish_less_def)

lemma in_order_filter: "in_order ahead xs \<Longrightarrow> in_order ahead (filter f xs)"
  by (simp add: in_order_def sorted_wrt_filter)

lemma bfp_wf_weaken:
  assumes "bfp_wf_but X p s" and "X \<subseteq> Y"
  shows "bfp_wf_but Y p s"
proof -
  have e: "filter (\<lambda>t. t \<notin> Y) q = filter (\<lambda>t. t \<notin> Y) (filter (\<lambda>t. t \<notin> X) q)" for q
    using assms(2) by (auto simp: filter_filter intro: filter_cong)
  have "in_order (bfp_replenish_less s) (filter (\<lambda>t. t \<notin> Y) (bfp_depleted p s))"
    by (subst e, rule in_order_filter) (use assms(1) in \<open>simp add: bfp_wf_but_def\<close>)
  then show ?thesis using assms by (auto simp: bfp_wf_but_def)
qed

lemma bfp_wf_cong:
  assumes "threads s' = threads s" "bfp_ready p s' = bfp_ready p s" "bfp_depleted p s' = bfp_depleted p s"
  shows "bfp_wf_but X p s' = bfp_wf_but X p s"
  using assms by (simp add: bfp_wf_but_def bfp_linked_def bfp_rq_def managed_def bfp_higher_def bfp_replenish_less_def in_order_def)

lemma bfp_wf_machine [simp]:
  "bfp_wf_but X p (tick_read s) = bfp_wf_but X p s"
  "bfp_wf_but X p (bfp_program_local_timer c r s) = bfp_wf_but X p s"
  "bfp_wf_but X p (bfp_program_timer c r s) = bfp_wf_but X p s"
  by (rule bfp_wf_cong; simp)+

lemma bfp_wf_same: "policy_same s s' \<Longrightarrow> bfp_wf_but X p s \<Longrightarrow> bfp_wf_but X p s'" "policy_same s s' \<Longrightarrow> bfp_rq p s' = bfp_rq p s"
  by (auto simp: bfp_wf_but_def bfp_linked_def bfp_rq_def managed_def bfp_higher_def bfp_replenish_less_def in_order_def
      bfp_ready_def bfp_depleted_def policy_same_def)

lemma bfp_wf_upd:
  assumes W: "bfp_wf_but X p s" and "t \<in> X" and q: "\<And>d. bfp_queue (f d) = bfp_queue d"
    and pr: "\<And>d. bfp_priority (f d) = bfp_priority d" and srv: "\<And>d. bfp_server d \<Longrightarrow> bfp_server (f d)"
  shows "bfp_wf_but X p (upd_bfp t f s)"
proof -
  let ?s = "upd_bfp t f s"
  have "in_order (bfp_replenish_less ?s) (filter (\<lambda>t. t \<notin> X) (bfp_depleted p s))"
    using W assms(2) by (subst in_order_cong [where g = "bfp_replenish_less s"]) (auto simp: bfp_wf_but_def bfp_replenish_less_def)
  moreover have "bfp_higher ?s = bfp_higher s" by (auto simp: bfp_higher_def pr fun_eq_iff)
  ultimately show ?thesis using W assms(2) srv
    by (auto simp: bfp_wf_but_def bfp_linked_def bfp_rq_def q managed_frame [OF bfp_prim_frames(1)])
qed

lemma bfp_wf_place:
  assumes W: "bfp_wf_but {t} p s" and d: "distinct (r @ d)" and f: "bfp_priority (f (bfp t s)) = bfp_priority (bfp t s)"
    "bfp_next_replenish_ticks (f (bfp t s)) = bfp_next_replenish_ticks (bfp t s)"
    "bfp_remaining_ticks (f (bfp t s)) = bfp_remaining_ticks (bfp t s)"
    "bfp_budget_ticks (f (bfp t s)) = bfp_budget_ticks (bfp t s)" "bfp_period_ticks (f (bfp t s)) = bfp_period_ticks (bfp t s)"
    and m: "remove1 t r = remove1 t (bfp_ready p s)" "remove1 t d = remove1 t (bfp_depleted p s)"
    and o: "in_order (bfp_higher s) r" "in_order (bfp_replenish_less s) d"
    and tk: "t \<in> set r \<Longrightarrow> bfp_token (bfp t s)"
  shows "bfp_wf p (bfp_place p t r d f s)"
proof -
  let ?s = "bfp_place p t r d f s"
  have L: "bfp_linked p ?s" using bfp_step_place [of p s r d f t] d f(1) m W by (simp add: bfp_wf_but_def bfp_step_def)
  have e: "bfp_next_replenish_ticks (bfp u ?s) = bfp_next_replenish_ticks (bfp u s)"
    "bfp_remaining_ticks (bfp u ?s) = bfp_remaining_ticks (bfp u s)" "bfp_priority (bfp u ?s) = bfp_priority (bfp u s)"
    "bfp_budget_ticks (bfp u ?s) = bfp_budget_ticks (bfp u s)" "bfp_period_ticks (bfp u ?s) = bfp_period_ticks (bfp u s)" for u
    using f by (cases "u = t"; simp)+
  have ord: "bfp_higher ?s = bfp_higher s" "bfp_replenish_less ?s = bfp_replenish_less s"
    by (auto simp: bfp_higher_def bfp_replenish_less_def e fun_eq_iff)
  have "u \<in> set (bfp_ready p s)" if "u \<in> set r" "u \<noteq> t" for u using m(1) that in_set_remove1 [of u t] by metis
  then have "bfp_token (bfp u ?s)" if "u \<in> set r" for u using that W tk by (auto simp: bfp_wf_but_def bfp_token_def e)
  then show ?thesis using L W o by (auto simp: bfp_wf_but_def ord managed_frame [OF bfp_place_frame] bfp_server_def e)
qed

lemma bfp_but_lists:
  assumes "bfp_wf_but {t} p s"
  shows "in_order (bfp_replenish_less s) (remove1 t (bfp_depleted p s))" "in_order (bfp_higher s) (remove1 t (bfp_ready p s))"
    "distinct (remove1 t (bfp_ready p s) @ remove1 t (bfp_depleted p s))"
    "t \<notin> set (remove1 t (bfp_ready p s))" "t \<notin> set (remove1 t (bfp_depleted p s))"
proof -
  have d: "distinct (bfp_ready p s)" "distinct (bfp_depleted p s)" "distinct (bfp_ready p s @ bfp_depleted p s)"
    using assms by (auto simp: bfp_wf_but_def bfp_linked_def bfp_rq_def)
  then have "remove1 t (bfp_depleted p s) = filter (\<lambda>u. u \<notin> {t}) (bfp_depleted p s)" 
    by (auto simp: distinct_remove1_removeAll removeAll_filter_not_eq intro: filter_cong)
  then show "in_order (bfp_replenish_less s) (remove1 t (bfp_depleted p s))" using assms by (simp add: bfp_wf_but_def)
  show "in_order (bfp_higher s) (remove1 t (bfp_ready p s))"
    using assms by (simp add: bfp_wf_but_def bfp_priority_order.order_remove)
  show "distinct (remove1 t (bfp_ready p s) @ remove1 t (bfp_depleted p s))"
    "t \<notin> set (remove1 t (bfp_ready p s))" "t \<notin> set (remove1 t (bfp_depleted p s))"
    using d by (auto dest: notin_set_remove1)
qed

lemma bfp_goes_before_order:
  assumes "in_order (bfp_higher s) xs"
  shows "in_order (bfp_higher s) (insert_before (bfp_goes_before k s t) t xs)"
  using assms unfolding in_order_def
  by (rule sorted_wrt_insert_before) (auto simp: bfp_higher_def bfp_goes_before_def transp_def)

text \<open>The three moves re-establish the invariant, and leave every other thread where it was.\<close>

lemma bfp_remove_wf:
  assumes W: "bfp_wf_but {t} p s" and c: "pcpu_id (threads s t) = p"
  shows "bfp_wf p (bfp_queue_remove t s)" "bfp_step p t s (bfp_queue_remove t s)"
    "bfp_ready p (bfp_queue_remove t s) = remove1 t (bfp_ready p s)"
    "bfp_depleted p (bfp_queue_remove t s) = remove1 t (bfp_depleted p s)"
proof -
  have L: "bfp_linked p s" using W by (simp add: bfp_wf_but_def)
  note e = bfp_queue_remove_place [OF L c] and b = bfp_but_lists [OF W]
  show "bfp_wf p (bfp_queue_remove t s)" "bfp_step p t s (bfp_queue_remove t s)"
    unfolding e using b by (auto intro!: bfp_wf_place [OF W] bfp_step_place [OF L] simp: remove1_idem)
qed (use bfp_queue_remove_place [OF _ c] W in \<open>simp_all add: bfp_wf_but_def\<close>)

lemma bfp_ready_insert_wf:
  assumes W: "bfp_wf_but {t} p s" and c: "pcpu_id (threads s t) = p" and tk: "bfp_token (bfp t s)"
  shows "bfp_wf p (bfp_ready_insert k t s)" "bfp_step p t s (bfp_ready_insert k t s)"
    "set (bfp_ready p (bfp_ready_insert k t s)) = insert t (set (bfp_ready p s))"
    "bfp_depleted p (bfp_ready_insert k t s) = remove1 t (bfp_depleted p s)"
proof -
  have L: "bfp_linked p s" using W by (simp add: bfp_wf_but_def)
  note e = bfp_ready_insert_place [OF L c] and b = bfp_but_lists [OF W]
  have d: "distinct (insert_before (bfp_goes_before k s t) t (remove1 t (bfp_ready p s)) @ remove1 t (bfp_depleted p s))"
    using b(3-5) by auto
  show "bfp_wf p (bfp_ready_insert k t s)" "bfp_step p t s (bfp_ready_insert k t s)" unfolding e using b d tk
    by (auto intro!: bfp_wf_place [OF W] bfp_step_place [OF L] bfp_goes_before_order simp: remove1_idem remove1_insert_before)
  show "set (bfp_ready p (bfp_ready_insert k t s)) = insert t (set (bfp_ready p s))"
    using L by (auto simp: e bfp_linked_def bfp_rq_def)
qed (use bfp_ready_insert_place [OF _ c] W in \<open>simp_all add: bfp_wf_but_def\<close>)

lemma bfp_depleted_insert_wf:
  assumes W: "bfp_wf_but {t} p s" and c: "pcpu_id (threads s t) = p"
  shows "bfp_wf p (bfp_depleted_insert t s)" "bfp_step p t s (bfp_depleted_insert t s)"
    "bfp_ready p (bfp_depleted_insert t s) = remove1 t (bfp_ready p s)"
    "set (bfp_depleted p (bfp_depleted_insert t s)) = insert t (set (bfp_depleted p s))"
proof -
  have L: "bfp_linked p s" using W by (simp add: bfp_wf_but_def)
  note e = bfp_depleted_insert_place [OF L c] and b = bfp_but_lists [OF W]
  have d: "distinct (remove1 t (bfp_ready p s) @ insert_before (bfp_replenish_less s t) t (remove1 t (bfp_depleted p s)))"
    using b(3-5) by auto
  show "bfp_wf p (bfp_depleted_insert t s)" "bfp_step p t s (bfp_depleted_insert t s)" unfolding e using b d
    by (auto intro!: bfp_wf_place [OF W] bfp_step_place [OF L] bfp_replenish_order.order_insert simp: remove1_idem remove1_insert_before)
  show "set (bfp_depleted p (bfp_depleted_insert t s)) = insert t (set (bfp_depleted p s))"
    using L by (auto simp: e bfp_linked_def bfp_rq_def)
qed (use bfp_depleted_insert_place [OF _ c] W in \<open>simp_all add: bfp_wf_but_def\<close>)

section \<open>Refresh\<close>

definition bfp_due :: "u64 \<Rightarrow> sched_bfp_data \<Rightarrow> bool" where
  "bfp_due now d \<longleftrightarrow> bfp_next_replenish_ticks d \<noteq> UINT64_MAX \<and> bfp_next_replenish_ticks d \<le> now"

lemma bfp_advance_simps [simp]:
  "fst (bfp_advance_inactive_period now d) \<longleftrightarrow> bfp_due now d"
  "bfp_queue (snd (bfp_advance_inactive_period now d)) = bfp_queue d"
  "bfp_priority (snd (bfp_advance_inactive_period now d)) = bfp_priority d"
  "bfp_budget_ticks (snd (bfp_advance_inactive_period now d)) = bfp_budget_ticks d"
  "bfp_period_ticks (snd (bfp_advance_inactive_period now d)) = bfp_period_ticks d"
  "bfp_server d \<Longrightarrow> bfp_server (snd (bfp_advance_inactive_period now d))"
  by (auto simp: bfp_advance_inactive_period_def bfp_due_def bfp_server_def Let_def)

lemma bfp_advance_due:
  "\<not> bfp_due now d \<Longrightarrow> bfp_advance_inactive_period now d = (False, d)"
  "bfp_due now d \<Longrightarrow> bfp_server d \<Longrightarrow> bfp_token (snd (bfp_advance_inactive_period now d))"
  by (auto simp: bfp_advance_inactive_period_def bfp_due_def bfp_server_def bfp_token_def Let_def word_gt_0)

lemma bfp_advance_token:
  "bfp_server d \<Longrightarrow> bfp_token d \<Longrightarrow> bfp_token (snd (bfp_advance_inactive_period now d))"
  using bfp_advance_due [of now d] by (cases "bfp_due now d") simp_all

lemma bfp_charge_simps [simp]:
  "bfp_queue (bfp_charge now d) = bfp_queue d" "bfp_priority (bfp_charge now d) = bfp_priority d"
  "bfp_budget_ticks (bfp_charge now d) = bfp_budget_ticks d" "bfp_period_ticks (bfp_charge now d) = bfp_period_ticks d"
  by (simp_all add: bfp_charge_def bfp_charge_current_period_def Let_def)

lemma bfp_charge_server [simp]:
  assumes "bfp_server d"
  shows "bfp_server (bfp_charge now d)"
proof -
  have 1: "bfp_remaining_ticks (bfp_charge_current_period x d') \<le> bfp_budget_ticks d'"
    if "bfp_remaining_ticks d' \<le> bfp_budget_ticks d'" for x d'
    using that order_trans [OF word_sub_le [of x "bfp_remaining_ticks d'"]]
    by (simp add: bfp_charge_current_period_def not_less)
  have 2: "\<not> b < x \<Longrightarrow> b - x \<le> b" for b x :: u64 by (simp add: not_less word_sub_le)
  have "bfp_remaining_ticks (bfp_charge now d) \<le> bfp_budget_ticks d"
    using assms 1 [of "d\<lparr>bfp_last_start_ticks := now\<rparr>"]
    by (auto simp: bfp_server_def bfp_charge_def Let_def 2 bfp_charge_current_period_def)
  then show ?thesis using assms by (simp add: bfp_server_def)
qed

lemma bfp_active_frame: "hook_frame s s' \<Longrightarrow> bfp_is_active t s' = bfp_is_active t s"
  by (auto simp: bfp_is_active_def bfp_is_current_def hook_frameD)

lemma bfp_eligible_active: "base_inv p s \<Longrightarrow> eligible p t s \<Longrightarrow> bfp_is_active t s"
  by (cases "status (threads s t)")
    (auto simp: bfp_is_active_def bfp_is_current_def eligible_def managed_def base_inv_def is_blocked_def is_running_def is_idle_thread_def)

text \<open>A refresh of one thread queues it when it may run; it is left out of both queues otherwise.\<close>

lemma bfp_refresh_thread_wf:
  fixes now k t s
  defines "s' \<equiv> bfp_refresh_thread now k t s"
  assumes W: "bfp_wf_but {t} p s" and m: "managed p t s"
  shows "bfp_wf p s'" "bfp_step p t s s'"
    "set (bfp_rq p s') = (if bfp_is_active t s then insert t (set (bfp_rq p s)) else set (bfp_rq p s) - {t})"
proof -
  define s1 where "s1 = upd_bfp t (\<lambda>d. snd (bfp_advance_inactive_period now d)) s"
  have W1: "bfp_wf_but {t} p s1" unfolding s1_def by (rule bfp_wf_upd [OF W]) simp_all
  have S1: "bfp_step p t s s1" unfolding s1_def using W by (intro bfp_step_upd) (simp_all add: bfp_wf_but_def)
  have c: "pcpu_id (threads s1 t) = p" using m by (simp add: s1_def managed_def)
  have a: "bfp_is_active t s1 = bfp_is_active t s" by (simp add: s1_def bfp_active_frame [OF bfp_prim_frames(1)])
  have q: "bfp_ready p s1 = bfp_ready p s" "bfp_depleted p s1 = bfp_depleted p s" by (simp_all add: s1_def)
  have d: "distinct (bfp_rq p s)" using W by (simp add: bfp_wf_but_def bfp_linked_def)
  have s': "s' = (if \<not> bfp_is_active t s then bfp_queue_remove t s1
     else if bfp_remaining_ticks (bfp t s1) \<noteq> 0 then bfp_ready_insert k t s1 else bfp_depleted_insert t s1)"
    by (simp only: s'_def bfp_refresh_thread_def Let_def s1_def [symmetric] a)
  note R = bfp_remove_wf [OF W1 c] and I = bfp_ready_insert_wf [OF W1 c] and D = bfp_depleted_insert_wf [OF W1 c]
  have "bfp_wf p s' \<and> bfp_step p t s1 s' \<and>
    set (bfp_rq p s') = (if bfp_is_active t s then insert t (set (bfp_rq p s)) else set (bfp_rq p s) - {t})"
    unfolding s' using R I [unfolded bfp_token_def] D d by (auto simp: bfp_rq_def q)
  then show "bfp_wf p s'" "bfp_step p t s s'"
    "set (bfp_rq p s') = (if bfp_is_active t s then insert t (set (bfp_rq p s)) else set (bfp_rq p s) - {t})"
    using bfp_step_trans [OF S1] by blast+
qed

text \<open>
  What a pass over the queues keeps: no thread comes up, and one that goes has reached the end of
  the tick counter.
\<close>

definition bfp_kept :: "nat \<Rightarrow> sched_sys \<Rightarrow> sched_sys \<Rightarrow> bool" where
  "bfp_kept p s s' \<longleftrightarrow>
     hook_frame s s' \<and> bfp_wf p s' \<and> set (bfp_rq p s') \<subseteq> set (bfp_rq p s)
     \<and> (\<forall>u \<in> set (bfp_rq p s). u \<in> set (bfp_rq p s') \<or> bfp_next_replenish_ticks (bfp u s') = UINT64_MAX)"

lemma bfp_kept_distinct: "bfp_kept p s r \<Longrightarrow> distinct (bfp_ready p r)" "bfp_kept p s r \<Longrightarrow> distinct (bfp_depleted p r)"
  by (auto simp: bfp_kept_def bfp_wf_but_def bfp_linked_def bfp_rq_def)

lemma bfp_advance_ready:
  assumes W: "bfp_wf p s" and t: "t \<in> set (bfp_ready p s)" and m: "managed p t s"
  shows "bfp_wf p (upd_bfp t (\<lambda>d. snd (bfp_advance_inactive_period now d)) s)"
proof -
  let ?s = "upd_bfp t (\<lambda>d. snd (bfp_advance_inactive_period now d)) s"
  have "t \<notin> set (bfp_depleted p s)" using W t by (auto simp: bfp_wf_but_def bfp_linked_def bfp_rq_def)
  then have "filter (\<lambda>u. u \<notin> {t}) (bfp_depleted p s) = bfp_depleted p s" by (auto simp: filter_id_conv)
  moreover have "bfp_wf_but {t} p ?s" by (rule bfp_wf_upd [OF bfp_wf_weaken [OF W]]) simp_all
  moreover have "bfp_token (snd (bfp_advance_inactive_period now (bfp t s)))"
    using W t m by (intro bfp_advance_token) (auto simp: bfp_wf_but_def)
  ultimately show ?thesis by (auto simp: bfp_wf_but_def)
qed

lemma bfp_ready_pass:
  fixes now
  defines "pass \<equiv> fold (\<lambda>t. upd_bfp t (\<lambda>d. snd (bfp_advance_inactive_period now d)))"
  assumes "bfp_wf p s" and "set ts \<subseteq> set (bfp_ready p s)" and "\<forall>t \<in> set ts. managed p t s"
  shows "bfp_wf p (pass ts s)" "bfp_ready p (pass ts s) = bfp_ready p s" "bfp_depleted p (pass ts s) = bfp_depleted p s"
proof -
  have "bfp_wf p (pass ts s) \<and> bfp_ready p (pass ts s) = bfp_ready p s \<and> bfp_depleted p (pass ts s) = bfp_depleted p s"
    using assms(2-) unfolding pass_def
    by (induction ts arbitrary: s) (auto simp: bfp_advance_ready managed_frame [OF bfp_prim_frames(1)])
  then show "bfp_wf p (pass ts s)" "bfp_ready p (pass ts s) = bfp_ready p s" "bfp_depleted p (pass ts s) = bfp_depleted p s"
    by simp_all
qed

lemma bfp_refresh_depleted_kept:
  assumes B: "base_inv p s" and Q: "queue_inv (bfp_rq p s) p s" and K: "bfp_kept p s r" and x: "x \<in> set (bfp_depleted p r)"
  shows "bfp_kept p s (bfp_refresh_depleted now x r)"
    and "bfp_step p x r (bfp_refresh_depleted now x r)"
    and "bfp_due now (bfp x r) \<Longrightarrow> x \<notin> set (bfp_depleted p (bfp_refresh_depleted now x r))"
    and "\<not> bfp_due now (bfp x r) \<Longrightarrow> bfp_refresh_depleted now x r = r"
proof -
  let ?r = "bfp_refresh_depleted now x r"
  have F: "hook_frame s r" and W: "bfp_wf p r" using K by (simp_all add: bfp_kept_def)
  have xq: "x \<in> set (bfp_rq p s)" using K x by (auto simp: bfp_kept_def bfp_rq_def)
  then have e: "eligible p x s" using Q by (simp add: queue_inv_def)
  then have m: "managed p x r" using F by (simp add: eligible_def managed_frame)
  then have srv: "bfp_server (bfp x r)" using W by (simp add: bfp_wf_but_def)
  show nd: "?r = r" if "\<not> bfp_due now (bfp x r)"
    using bfp_advance_due(1) [OF that] by (simp add: bfp_refresh_depleted_def upd_bfp_same)
  define r1 where "r1 = upd_bfp x (\<lambda>d. snd (bfp_advance_inactive_period now d)) r"
  have r1': "upd_bfp x (\<lambda>_. snd (bfp_advance_inactive_period now (bfp x r))) r = r1"
    by (simp add: r1_def upd_bfp_def upd_thread_def)
  define r2 where "r2 = bfp_queue_remove x r1"
  have W1: "bfp_wf_but {x} p r1" unfolding r1_def by (rule bfp_wf_upd [OF bfp_wf_weaken [OF W]]) simp_all
  have S1: "bfp_step p x r r1" unfolding r1_def using W by (intro bfp_step_upd) (simp_all add: bfp_wf_but_def)
  have c1: "pcpu_id (threads r1 x) = p" using m by (simp add: r1_def managed_def)
  note R = bfp_remove_wf [OF W1 c1, folded r2_def]
  have d: "distinct (bfp_ready p r)" "distinct (bfp_depleted p r)" by (rule bfp_kept_distinct [OF K])+
  have q1: "bfp_ready p r1 = bfp_ready p r" "bfp_depleted p r1 = bfp_depleted p r" by (simp_all add: r1_def)
  have W2: "bfp_wf_but {x} p r2" by (rule bfp_wf_weaken [OF R(1)]) simp
  have c2: "pcpu_id (threads r2 x) = p" using c1 by (simp add: r2_def bfp_queue_remove_def Let_def)
  have d2: "bfp_next_replenish_ticks (bfp x r2) = bfp_next_replenish_ticks (snd (bfp_advance_inactive_period now (bfp x r)))"
    "bfp_remaining_ticks (bfp x r2) = bfp_remaining_ticks (snd (bfp_advance_inactive_period now (bfp x r)))"
    by (simp_all add: r2_def r1_def bfp_queue_remove_def Let_def)
  have act: "bfp_is_active x r2"
    using bfp_eligible_active [OF B e] bfp_active_frame [OF F] bfp_active_frame [OF bfp_step_frame [OF S1]]
      bfp_active_frame [OF bfp_step_frame [OF R(2)]] by simp
  have due: "bfp_kept p s ?r \<and> bfp_step p x r ?r \<and> x \<notin> set (bfp_depleted p ?r)" if "bfp_due now (bfp x r)"
  proof (cases "bfp_remaining_ticks (bfp x r2) = 0")
    case True
    have r': "?r = r2" using that True by (simp add: bfp_refresh_depleted_def split_def Let_def r1' r2_def [symmetric])
    have S: "bfp_step p x r r2" using S1 R(2) by (rule bfp_step_trans)
    have st: "set (bfp_rq p r2) = set (bfp_rq p r) - {x}" "x \<notin> set (bfp_depleted p r2)"
      using R(3,4) d by (auto simp: q1 bfp_rq_def)
    have "bfp_next_replenish_ticks (bfp x r2) = UINT64_MAX"
      using bfp_advance_due(2) [OF that srv] True by (simp add: bfp_token_def d2)
    then have "u \<in> set (bfp_rq p r2) \<or> bfp_next_replenish_ticks (bfp u r2) = UINT64_MAX" if "u \<in> set (bfp_rq p s)" for u
      using K S st that by (cases "u = x") (auto simp: bfp_kept_def bfp_step_def)
    then show ?thesis using K R(1) S st hook_frame_trans [OF F bfp_step_frame [OF S]] by (auto simp: r' bfp_kept_def)
  next
    case False
    have r': "?r = bfp_ready_insert False x r2"
      using that False act by (simp add: bfp_refresh_depleted_def split_def Let_def r1' r2_def [symmetric])
    have "bfp_token (bfp x r2)" using False by (simp add: bfp_token_def)
    note I = bfp_ready_insert_wf [OF W2 c2 this, of False, folded r']
    have S: "bfp_step p x r ?r" using S1 R(2) I(2) by (blast intro: bfp_step_trans)
    have st: "set (bfp_ready p ?r) = insert x (set (bfp_ready p r))" "set (bfp_depleted p ?r) = set (bfp_depleted p r) - {x}"
      using I(3,4) R(3,4) d by (auto simp: q1 remove1_idem)
    have q: "set (bfp_rq p ?r) = set (bfp_rq p r)" using st x by (auto simp: bfp_rq_def)
    have "u \<in> set (bfp_rq p ?r) \<or> bfp_next_replenish_ticks (bfp u ?r) = UINT64_MAX" if "u \<in> set (bfp_rq p s)" for u
    proof (cases "u = x")
      case True
      then show ?thesis using q x by (simp add: bfp_rq_def)
    next
      case False
      then have "bfp u ?r = bfp u r" using S by (simp add: bfp_step_def)
      then show ?thesis using K q that by (auto simp: bfp_kept_def)
    qed
    then show ?thesis using K I(1) S q st(2) hook_frame_trans [OF F bfp_step_frame [OF S]] by (auto simp: bfp_kept_def)
  qed
  show "bfp_kept p s ?r" using due nd K by (cases "bfp_due now (bfp x r)") simp_all
  have "bfp_step p x r r" using W by (simp add: bfp_step_def bfp_wf_but_def)
  then show "bfp_step p x r ?r" using due nd by (cases "bfp_due now (bfp x r)") simp_all
  show "x \<notin> set (bfp_depleted p ?r)" if "bfp_due now (bfp x r)" using due that by blast
qed

text \<open>
  The pass over the depleted queue ends whatever the clock says, and is one visit to each server
  whose period is over.
\<close>

lemma bfp_depleted_pass:
  fixes now p r
  defines "pass \<equiv> fold (bfp_refresh_depleted now) (filter (\<lambda>t. bfp_due now (bfp t r)) (bfp_depleted p r)) r"
  assumes B: "base_inv p s" and Q: "queue_inv (bfp_rq p s) p s" and K: "bfp_kept p s r"
  shows "for_each_safe (bfp_depleted p) (bfp_refresh_depleted now) r = Some pass" and "bfp_kept p s pass"
proof -
  let ?walk = "for_each_safe (bfp_depleted p) (bfp_refresh_depleted now) r"
  let ?st = "\<lambda>t r. t \<notin> set (bfp_depleted p r) \<or> \<not> bfp_due now (bfp t r)"
  note b = bfp_refresh_depleted_kept [OF B Q]
  have st: "?st y (bfp_refresh_depleted now x r) = ?st y r" if "bfp_kept p s r" "x \<in> set (bfp_depleted p r)" "y \<noteq> x" for x y r
  proof -
    have S: "bfp_step p x r (bfp_refresh_depleted now x r)" by (rule b(2) [OF that(1,2)])
    then have "y \<in> set (bfp_depleted p (bfp_refresh_depleted now x r)) \<longleftrightarrow> y \<in> set (bfp_depleted p r)"
      using in_set_remove1 [OF that(3)] unfolding bfp_step_def by metis
    then show ?thesis using S that(3) by (simp add: bfp_step_def)
  qed
  have sb: "?st x (bfp_refresh_depleted now x r)" if "bfp_kept p s r" "x \<in> set (bfp_depleted p r)" for x r
    using b(3,4) [OF that, of now] by (cases "bfp_due now (bfp x r)") simp_all
  have id: "bfp_refresh_depleted now x r = r" if "bfp_kept p s r" "x \<in> set (bfp_depleted p r)" "?st x r" for x r
    using that b(4) by blast
  have mv: "remove1 x (bfp_depleted p (bfp_refresh_depleted now x r)) = remove1 x (bfp_depleted p r)"
    if "bfp_kept p s r" "x \<in> set (bfp_depleted p r)" for x r using b(2) [OF that, of now] by (simp add: bfp_step_def)
  have fl: "filter (\<lambda>t. \<not> ?st t r) (bfp_depleted p r) = filter (\<lambda>t. bfp_due now (bfp t r)) (bfp_depleted p r)"
    by (auto intro: filter_cong)
  have "?walk = Some (fold (bfp_refresh_depleted now) (filter (\<lambda>t. \<not> ?st t r) (bfp_depleted p r)) r)"
    by (rule for_each_safe_fold [where P = "bfp_kept p s" and settled = ?st])
      (fact | rule b(1) bfp_kept_distinct sb id mv st; assumption)+
  then show w: "?walk = Some pass" unfolding fl pass_def .
  have in_q: "y \<in> set (bfp_depleted p (bfp_refresh_depleted now x r))"
    if "bfp_kept p s r" "x \<in> set (bfp_depleted p r)" "y \<in> set (bfp_depleted p r)" "y \<noteq> x" for x y r
    using b(2) [OF that(1,2), of now] that(3) in_set_remove1 [OF that(4)] unfolding bfp_step_def by metis
  show "bfp_kept p s pass"
    by (rule for_each_safe_invariant [OF w]) (use K b(1) in_q bfp_kept_distinct in blast)+
qed

lemma bfp_refresh_queues_kept:
  assumes B: "base_inv p s" and Q: "queue_inv (bfp_rq p s) p s" and W: "bfp_wf p s"
  shows "bfp_kept p s (bfp_refresh_queues p now s)"
proof -
  define s1 where "s1 = fold (\<lambda>t. upd_bfp t (\<lambda>d. snd (bfp_advance_inactive_period now d))) (bfp_ready p s) s"
  have m: "\<forall>t \<in> set (bfp_ready p s). managed p t s" using Q by (auto simp: queue_inv_def bfp_rq_def eligible_def)
  have "bfp_kept p s s1"
    using bfp_ready_pass [OF W order_refl m, of now, folded s1_def] bfp_fold_frames(1) [of s _ "bfp_ready p s"]
    by (simp add: bfp_kept_def bfp_rq_def s1_def)
  note D = bfp_depleted_pass [OF B Q this, of now]
  show ?thesis using D(2) by (simp add: bfp_refresh_queues_def s1_def [symmetric] D(1))
qed

lemma bfp_settle_current:
  assumes B: "base_inv p s" and Q: "queue_inv (bfp_rq p s) p s" and W: "bfp_wf p s" and c: "curr p s = Some c"
  shows "bfp_wf p (bfp_settle_current p now s)"
    and "set (bfp_rq p (bfp_settle_current p now s)) = (if eligible p c s then insert c (set (bfp_rq p s)) else set (bfp_rq p s))"
proof -
  let ?r = "bfp_settle_current p now s"
  have cc: "c = Idle p \<or> managed p c s" "is_running c s" "is_idle_thread c s \<longleftrightarrow> c = Idle p"
    using base_inv_currE [OF B] c by (metis option.inject)+
  have nq: "c \<notin> set (bfp_rq p s)" if "\<not> eligible p c s" using that Q by (auto simp: queue_inv_def)
  have "bfp_wf p ?r \<and> set (bfp_rq p ?r) = (if eligible p c s then insert c (set (bfp_rq p s)) else set (bfp_rq p s))"
  proof (cases "c = Idle p")
    case True
    then have "\<not> eligible p c s" by (simp add: eligible_def managed_def)
    then show ?thesis using True c cc W by (simp add: bfp_settle_current_def)
  next
    case False
    then have m: "managed p c s" using cc by simp
    define s1 where "s1 = bfp_account_runtime c now s"
    have W1: "bfp_wf_but {c} p s1" unfolding s1_def bfp_account_runtime_def
      using bfp_wf_weaken [OF W, of "{c}"] by (auto intro: bfp_wf_upd)
    have F: "hook_frame s s1" by (simp add: s1_def)
    have m1: "managed p c s1" using m managed_frame [OF F] by simp
    have "bfp_is_active c s1 \<longleftrightarrow> eligible p c s"
      using m cc False c bfp_active_frame [OF F]
      by (auto simp: bfp_is_active_def eligible_def is_running_def is_blocked_def bfp_is_current_def managed_def)
    moreover have "bfp_rq p s1 = bfp_rq p s" by (simp add: s1_def bfp_account_runtime_def bfp_rq_def)
    moreover have "?r = bfp_refresh_thread now True c s1" using c False cc by (simp add: bfp_settle_current_def s1_def)
    ultimately show ?thesis using bfp_refresh_thread_wf [OF W1 m1, of now True] nq by auto
  qed
  then show "bfp_wf p ?r" "set (bfp_rq p ?r) = (if eligible p c s then insert c (set (bfp_rq p s)) else set (bfp_rq p s))"
    by blast+
qed

section \<open>Pick\<close>

lemma bfp_pick_next:
  assumes B: "base_inv p s" and Q: "queue_inv (bfp_rq p s) p s" and W: "bfp_wf p s" and c: "curr p s = Some c"
    and cp: "cur_pcpu s = p" and pk: "sched_bfp_pick_next p s = (r, s')"
  defines "cands \<equiv> if eligible p c s then insert c (set (bfp_rq p s)) else set (bfp_rq p s)"
  shows "hook_frame s s'" and "bfp_wf p s'" and "timer_ok s \<Longrightarrow> timer_ok s'"
    and "set (bfp_rq p s') \<subseteq> cands - {r}"
    and "\<And>u. u \<in> cands \<Longrightarrow> u = r \<or> u \<in> set (bfp_rq p s') \<or> bfp_next_replenish_ticks (bfp u s') = UINT64_MAX"
    and "r \<in> cands \<or> bfp_ready p s' = [] \<and> r = Idle p"
    and "r \<in> cands \<Longrightarrow> bfp_token (bfp r s') \<and> bfp_last_start_ticks (bfp r s') = cpu_ticks s
           \<and> (\<forall>x \<in> set (bfp_ready p s'). \<not> bfp_higher s' x r)"
proof -
  define now where "now = cpu_ticks s"
  define s1 where "s1 = tick_read s"
  define s2 where "s2 = bfp_settle_current p now s1"
  define s3 where "s3 = bfp_refresh_queues p now s2"
  define s4 where "s4 = (case bfp_ready p s3 of [] \<Rightarrow> s3
    | next # _ \<Rightarrow> upd_bfp next (\<lambda>d. d\<lparr>bfp_last_start_ticks := now\<rparr>) (bfp_queue_remove next s3))"
  have F1: "hook_frame s s1" by (simp add: s1_def)
  have q1: "bfp_rq p s1 = bfp_rq p s" by (simp add: s1_def bfp_rq_def)
  have pre: "base_inv p s1" "queue_inv (bfp_rq p s1) p s1" "bfp_wf p s1" "curr p s1 = Some c"
    using B Q W c base_inv_frame [OF F1] queue_inv_frame [OF F1] hook_frameD(28) [OF F1] q1
    by (simp_all add: s1_def)
  note S = bfp_settle_current [OF pre, of now, folded s2_def]
  have F2: "hook_frame s s2" using F1 by (auto simp: s2_def intro: hook_frame_trans)
  have set2: "set (bfp_rq p s2) = cands" using S(2) eligible_frame [OF F1] by (simp add: q1 cands_def)
  have el: "\<forall>t \<in> cands. eligible p t s" using Q by (auto simp: cands_def queue_inv_def)
  have "distinct (bfp_rq p s2)" using S(1) by (simp add: bfp_wf_but_def bfp_linked_def)
  then have Q2: "queue_inv (bfp_rq p s2) p s2" using el set2 eligible_frame [OF F2] by (simp add: queue_inv_def)
  have "base_inv p s2" using B base_inv_frame [OF F2] by simp
  from bfp_refresh_queues_kept [OF this Q2 S(1), of now] have K: "bfp_kept p s2 s3" by (simp add: s3_def)
  have F3: "hook_frame s s3" using F2 K by (auto simp: bfp_kept_def intro: hook_frame_trans)
  have W3: "bfp_wf p s3" and sub3: "set (bfp_rq p s3) \<subseteq> cands"
    and lost3: "\<forall>u \<in> cands. u \<in> set (bfp_rq p s3) \<or> bfp_next_replenish_ticks (bfp u s3) = UINT64_MAX"
    using K set2 by (auto simp: bfp_kept_def)
  have id: "idle_var s3 = Idle p" using hook_frameD(14) [OF F3] cp by (simp add: idle_var_def)
  have r: "r = (case bfp_ready p s3 of [] \<Rightarrow> Idle p | next # _ \<Rightarrow> next)" and s': "s' = bfp_program_local_timer p (Some r) s4"
    using pk id by (auto simp: sched_bfp_pick_next_def Let_def s4_def s3_def s2_def s1_def now_def split: list.splits)
  have F4: "hook_frame s3 s4" unfolding s4_def by (auto intro: hook_frame_trans split: list.split)
  show "hook_frame s s'" unfolding s' by (intro hook_frame_trans [OF F3] hook_frame_trans [OF F4]) simp
  show "timer_ok s'" if "timer_ok s"
    using that by (auto simp: s' s4_def s3_def s2_def s1_def split: list.split)
  have eq: "bfp_rq p s' = bfp_rq p s4" "threads s' = threads s4" "bfp_ready p s' = bfp_ready p s4" "bfp_higher s' = bfp_higher s4"
    by (simp_all add: s' bfp_rq_def bfp_higher_def fun_eq_iff)
  have wf: "bfp_wf p s' = bfp_wf p s4" by (simp add: s')
  have "bfp_wf p s4 \<and> set (bfp_rq p s4) \<subseteq> cands - {r}
    \<and> (\<forall>u \<in> cands. u = r \<or> u \<in> set (bfp_rq p s4) \<or> bfp_next_replenish_ticks (bfp u s4) = UINT64_MAX)
    \<and> (r \<in> cands \<or> bfp_ready p s4 = [] \<and> r = Idle p)
    \<and> (r \<in> cands \<longrightarrow> bfp_token (bfp r s4) \<and> bfp_last_start_ticks (bfp r s4) = now \<and> (\<forall>x \<in> set (bfp_ready p s4). \<not> bfp_higher s4 x r))"
  proof (cases "bfp_ready p s3")
    case Nil
    then have "s4 = s3" "r = Idle p" by (simp_all add: s4_def r)
    moreover have "Idle p \<notin> cands" using el by (auto simp: eligible_def managed_def)
    ultimately show ?thesis using W3 sub3 lost3 Nil by auto
  next
    case (Cons n ns)
    then have n: "r = n" "n \<in> cands" using sub3 by (auto simp: r bfp_rq_def)
    have pc: "pcpu_id (threads s3 n) = p" using el n hook_frameD [OF F3] by (auto simp: eligible_def managed_def)
    define s5 where "s5 = bfp_queue_remove n s3"
    note R = bfp_remove_wf [OF bfp_wf_weaken [OF W3, of "{n}"] pc, simplified, folded s5_def]
    have s4: "s4 = upd_bfp n (\<lambda>d. d\<lparr>bfp_last_start_ticks := now\<rparr>) s5" by (simp add: s4_def Cons s5_def)
    have d: "distinct (n # ns)" "distinct (bfp_depleted p s3)" using W3 by (auto simp: bfp_wf_but_def bfp_linked_def bfp_rq_def Cons)
    have q4: "bfp_ready p s4 = ns" "bfp_depleted p s4 = remove1 n (bfp_depleted p s3)" using R(3,4) Cons by (simp_all add: s4)
    have nd: "n \<notin> set (bfp_depleted p s3)" using W3 Cons by (auto simp: bfp_wf_but_def bfp_linked_def bfp_rq_def)
    have st: "set (bfp_rq p s4) = set (bfp_rq p s3) - {n}" using d nd by (auto simp: bfp_rq_def q4 Cons remove1_idem)
    have n5: "bfp_higher s5 = bfp_higher s3" "bfp_token (bfp n s5) = bfp_token (bfp n s3)" "u \<noteq> n \<Longrightarrow> bfp u s5 = bfp u s3" for u
      by (auto simp: s5_def bfp_queue_remove_def Let_def bfp_higher_def bfp_token_def fun_eq_iff)
    have h4: "bfp_higher s4 = bfp_higher s5" "bfp_token (bfp n s4) = bfp_token (bfp n s5)" "u \<noteq> n \<Longrightarrow> bfp u s4 = bfp u s5" for u
      by (auto simp: s4 bfp_higher_def bfp_token_def fun_eq_iff)
    have "bfp_token (bfp n s3)" using W3 Cons by (auto simp: bfp_wf_but_def)
    moreover have "\<forall>x \<in> set ns. \<not> bfp_higher s3 x n"
      using W3 Cons bfp_priority_order.order_hd [of s3 n ns] by (auto simp: bfp_wf_but_def)
    moreover have "bfp_wf p s4"
    proof -
      have "bfp_replenish_less s4 = bfp_replenish_less s5" by (auto simp: s4 bfp_replenish_less_def fun_eq_iff)
      then show ?thesis using R(1) h4 R(3) d Cons
        by (auto simp: bfp_wf_but_def s4 bfp_linked_def bfp_rq_def managed_frame [OF bfp_prim_frames(1)] bfp_server_def)
    qed
    moreover have "\<forall>u \<in> cands. u = n \<or> u \<in> set (bfp_rq p s4) \<or> bfp_next_replenish_ticks (bfp u s4) = UINT64_MAX"
      using lost3 by (auto simp: st h4 n5)
    moreover have "bfp_last_start_ticks (bfp n s4) = now" by (simp add: s4)
    ultimately show ?thesis using sub3 n unfolding q4 by (simp add: h4 n5) (auto simp: st)
  qed
  then show "bfp_wf p s'" "set (bfp_rq p s') \<subseteq> cands - {r}"
    "\<And>u. u \<in> cands \<Longrightarrow> u = r \<or> u \<in> set (bfp_rq p s') \<or> bfp_next_replenish_ticks (bfp u s') = UINT64_MAX"
    "r \<in> cands \<or> bfp_ready p s' = [] \<and> r = Idle p"
    "r \<in> cands \<Longrightarrow> bfp_token (bfp r s') \<and> bfp_last_start_ticks (bfp r s') = cpu_ticks s
      \<and> (\<forall>x \<in> set (bfp_ready p s'). \<not> bfp_higher s' x r)"
    unfolding eq wf now_def by blast+
qed

section \<open>Sleep and wake\<close>

lemma bfp_wf_plain_upd:
  assumes "bfp_wf p s" and "\<And>d. bfp_queue (f d) = bfp_queue d" "\<And>d. bfp_priority (f d) = bfp_priority d"
    "\<And>d. bfp_budget_ticks (f d) = bfp_budget_ticks d" "\<And>d. bfp_period_ticks (f d) = bfp_period_ticks d"
    "\<And>d. bfp_remaining_ticks (f d) = bfp_remaining_ticks d" "\<And>d. bfp_next_replenish_ticks (f d) = bfp_next_replenish_ticks d"
  shows "bfp_wf p (upd_bfp t f s)"
proof -
  have "bfp_higher (upd_bfp t f s) = bfp_higher s" "bfp_replenish_less (upd_bfp t f s) = bfp_replenish_less s"
    using assms by (auto simp: bfp_higher_def bfp_replenish_less_def fun_eq_iff)
  then show ?thesis using assms
    by (auto simp: bfp_wf_but_def bfp_linked_def bfp_rq_def managed_frame [OF bfp_prim_frames(1)] bfp_server_def bfp_token_def)
qed

lemma bfp_sleep_queue:
  assumes W: "bfp_wf p s" and c: "pcpu_id (threads s t) = p"
  shows "hook_frame s (sched_bfp_sleep t s)" and "timer_ok (sched_bfp_sleep t s) = timer_ok s"
    and "bfp_wf p (sched_bfp_sleep t s)"
    and "set (bfp_rq p (sched_bfp_sleep t s)) = set (bfp_rq p s) - {t}"
proof -
  define s1 where "s1 = (if bfp_is_current t s then bfp_account_runtime t (cpu_ticks s) (tick_read s) else s)"
  have s': "sched_bfp_sleep t s = upd_bfp t (\<lambda>d. d\<lparr>bfp_last_start_ticks := 0\<rparr>) (bfp_queue_remove t s1)"
    by (simp add: sched_bfp_sleep_def s1_def)
  have F: "hook_frame s s1" "timer_ok s1 = timer_ok s" by (auto simp: s1_def intro: hook_frame_trans)
  show "hook_frame s (sched_bfp_sleep t s)" "timer_ok (sched_bfp_sleep t s) = timer_ok s"
    unfolding s' using F by (auto intro: bfp_steps)
  have W1: "bfp_wf_but {t} p s1"
    using bfp_wf_weaken [OF W, of "{t}"] by (auto simp: s1_def bfp_account_runtime_def intro: bfp_wf_upd)
  have "pcpu_id (threads s1 t) = p" using c hook_frameD [OF F(1)] by simp
  note R = bfp_remove_wf [OF W1 this]
  show "bfp_wf p (sched_bfp_sleep t s)" unfolding s' by (rule bfp_wf_plain_upd [OF R(1)]) simp_all
  have "bfp_ready p s1 = bfp_ready p s" "bfp_depleted p s1 = bfp_depleted p s"
    by (simp_all add: s1_def bfp_account_runtime_def)
  then show "set (bfp_rq p (sched_bfp_sleep t s)) = set (bfp_rq p s) - {t}"
    using R(3,4) W by (auto simp: s' bfp_rq_def bfp_wf_but_def bfp_linked_def)
qed

lemma bfp_wake_queue:
  assumes W: "bfp_wf p s" and m: "managed p t s"
  shows "hook_frame s (sched_bfp_wake t s)" and "timer_ok s \<Longrightarrow> timer_ok (sched_bfp_wake t s)"
    and "bfp_wf p (sched_bfp_wake t s)"
    and "set (bfp_rq p (sched_bfp_wake t s)) = insert t (set (bfp_rq p s))"
proof -
  define s1 where "s1 = upd_bfp t (\<lambda>d. (snd (bfp_advance_inactive_period (cpu_ticks s) d))\<lparr>bfp_last_start_ticks := 0\<rparr>) (tick_read s)"
  define s2 where "s2 = (if bfp_remaining_ticks (bfp t s1) \<noteq> 0 then bfp_ready_insert False t s1 else bfp_depleted_insert t s1)"
  have s': "sched_bfp_wake t s = bfp_program_timer (pcpu_id (threads s2 t)) (curr (pcpu_id (threads s2 t)) s2) s2"
    unfolding sched_bfp_wake_def Let_def s1_def s2_def ..
  have F: "hook_frame s s2" "timer_ok s2 = timer_ok s"
    unfolding s2_def s1_def by (auto intro!: bfp_steps hook_frame_refl)
  show "hook_frame s (sched_bfp_wake t s)" "timer_ok s \<Longrightarrow> timer_ok (sched_bfp_wake t s)"
    unfolding s' using F by (auto intro: hook_frame_trans)
  have srv: "bfp_server d \<Longrightarrow> bfp_server (d\<lparr>bfp_last_start_ticks := x\<rparr>)" for d x by (simp add: bfp_server_def)
  have W1: "bfp_wf_but {t} p s1" unfolding s1_def
    by (rule bfp_wf_upd) (use bfp_wf_weaken [OF W, of "{t}"] srv in simp_all)
  have c: "pcpu_id (threads s1 t) = p" using m by (simp add: s1_def managed_def)
  note I = bfp_ready_insert_wf [OF W1 c] and D = bfp_depleted_insert_wf [OF W1 c]
  have q1: "bfp_ready p s1 = bfp_ready p s" "bfp_depleted p s1 = bfp_depleted p s" by (simp_all add: s1_def)
  have "bfp_wf p s2" using I(1) D(1) by (simp add: s2_def bfp_token_def)
  then show "bfp_wf p (sched_bfp_wake t s)" by (simp add: s')
  have "set (bfp_rq p s2) = insert t (set (bfp_rq p s))"
  proof (cases "bfp_remaining_ticks (bfp t s1) \<noteq> 0")
    case True
    then have "s2 = bfp_ready_insert False t s1" "bfp_token (bfp t s1)" by (simp_all add: s2_def bfp_token_def)
    then show ?thesis using I(3,4) q1 W by (auto simp: bfp_rq_def bfp_wf_but_def bfp_linked_def)
  next
    case False
    then have "s2 = bfp_depleted_insert t s1" by (simp add: s2_def)
    then show ?thesis using D(3,4) q1 W by (auto simp: bfp_rq_def bfp_wf_but_def bfp_linked_def)
  qed
  then show "set (bfp_rq p (sched_bfp_wake t s)) = insert t (set (bfp_rq p s))" by (simp add: s' bfp_rq_def)
qed

interpretation bfp: sched_policy sched_bfp bfp_rq bfp_wf
proof unfold_locales
  fix p s pick t s'
  assume B: "base_inv p s" and Q: "queue_inv (bfp_rq p s) p s" and W: "bfp_wf p s" and p: "cur_pcpu s = p"
    and h: "hook_pick_next sched_bfp = Some pick" "pick p s = (t, s')"
  obtain c where c: "curr p s = Some c" using B by (blast elim: base_inv_currE)
  have pk: "sched_bfp_pick_next p s = (t, s')" using h by (simp add: sched_bfp_def)
  note R = bfp_pick_next [OF B Q W c p pk]
  have "distinct (bfp_rq p s')" using R(2) by (simp add: bfp_wf_but_def bfp_linked_def)
  then have Q': "queue_inv (bfp_rq p s') p s" using R(4) Q by (auto simp: queue_inv_def split: if_splits)
  have "t = Idle p \<or> eligible p t s" using R(6) Q by (auto simp: queue_inv_def split: if_splits)
  then show "hook_ok bfp_wf p s s' \<and> queue_inv (bfp_rq p s') p s \<and> (t = Idle p \<or> eligible p t s)"
    using R(1-3) Q' by (simp add: hook_ok_def)
next
  fix p s t s'
  assume W: "bfp_wf p s" and m: "managed p t s"
  have c: "pcpu_id (threads s t) = p" using m by (simp add: managed_def)
  note S = bfp_sleep_queue [OF W c] and K = bfp_wake_queue [OF W m]
  show "hook_ok bfp_wf p s s' \<and> distinct (bfp_rq p s') \<and> set (bfp_rq p s') \<subseteq> set (bfp_rq p s) - {t}"
    if "call_hook (hook_sleep sched_bfp) t s = s'"
    using that S by (auto simp: call_hook_def sched_bfp_def hook_ok_def bfp_wf_but_def bfp_linked_def)
  show "hook_ok bfp_wf p s s' \<and> distinct (bfp_rq p s') \<and> set (bfp_rq p s') \<subseteq> insert t (set (bfp_rq p s))"
    if "call_hook (hook_wake sched_bfp) t s = s'"
    using that K by (auto simp: call_hook_def sched_bfp_def hook_ok_def bfp_wf_but_def bfp_linked_def)
qed (simp_all add: bfp_wf_same sched_bfp_def)

section \<open>Periods and budgets\<close>

lemma unat_to_end: "unat (UINT64_MAX - d) = 2 ^ 64 - 1 - unat d"
proof -
  have "unat (UINT64_MAX - d) = unat UINT64_MAX - unat d" by (rule unat_sub) simp
  then show ?thesis by (simp add: unsigned_minus_1_eq_mask mask_eq_exp_minus_1)
qed

text \<open>Whether the next grid point fits in the counter is what the guards of the division check.\<close>

lemma grid_guard:
  fixes d p k :: u64
  assumes "0 < p"
  shows "k > (UINT64_MAX - d) div p \<longleftrightarrow> 2 ^ 64 \<le> unat d + unat k * unat p"
proof -
  have p: "0 < unat p" using assms by (simp add: word_less_nat_alt)
  have lt: "unat d < 2 ^ 64" using unsigned_less [of d] by simp
  have "k > (UINT64_MAX - d) div p \<longleftrightarrow> (2 ^ 64 - 1 - unat d) div unat p < unat k"
    by (simp add: word_less_nat_alt unat_div_distrib unat_to_end)
  also have "\<dots> \<longleftrightarrow> 2 ^ 64 - 1 - unat d < unat k * unat p" using div_less_iff_less_mult [OF p] by simp
  also have "\<dots> \<longleftrightarrow> 2 ^ 64 \<le> unat d + unat k * unat p" using lt by linarith
  finally show ?thesis .
qed

lemma bfp_next_period_boundary_grid:
  assumes "0 < period"
  shows "unat (bfp_next_period_boundary now period) = min (2 ^ 64 - 1) ((unat now div unat period + 1) * unat period)"
proof -
  define k where "k = unat now div unat period"
  have p: "0 < unat period" using assms by (simp add: word_less_nat_alt)
  have u: "unat UINT64_MAX = 2 ^ 64 - 1" using unat_to_end [of 0] by simp
  have d: "unat (now div period) = k" "unat (UINT64_MAX div period) = (2 ^ 64 - 1) div unat period"
    by (simp_all only: unat_div_distrib u k_def)
  have g: "now div period \<ge> UINT64_MAX div period \<longleftrightarrow> 2 ^ 64 - 1 < (k + 1) * unat period"
    unfolding word_le_nat_alt d using div_less_iff_less_mult [OF p, of "2 ^ 64 - 1" "k + 1"] by linarith
  show ?thesis
  proof (cases "now div period \<ge> UINT64_MAX div period")
    case True
    then have "bfp_next_period_boundary now period = UINT64_MAX" by (auto simp: bfp_next_period_boundary_def)
    then show ?thesis using True u unfolding g by (simp add: k_def)
  next
    case False
    then have f: "(k + 1) * unat period \<le> 2 ^ 64 - 1" unfolding g by simp
    moreover have "k + 1 \<le> (k + 1) * unat period" using mult_le_mono2 [of 1 "unat period" "k + 1"] p by simp
    ultimately have "unat (now div period + 1) = k + 1" using d by (subst unat_add_nowrap) auto
    then have "unat ((now div period + 1) * period) = (k + 1) * unat period" using f by (subst unat_mult_nowrap) simp_all
    moreover have "bfp_next_period_boundary now period = (now div period + 1) * period"
      using False assms by (auto simp: bfp_next_period_boundary_def)
    ultimately show ?thesis using f by (simp add: k_def)
  qed
qed

text \<open>
  The period that holds \<open>now\<close>: the first grid point after \<open>now\<close>, or the end of the counter when
  that point is past it.
\<close>

definition bfp_grid_after :: "sched_bfp_data \<Rightarrow> u64 \<Rightarrow> nat" where
  "bfp_grid_after d now =
     unat (bfp_next_replenish_ticks d)
     + ((unat now - unat (bfp_next_replenish_ticks d)) div unat (bfp_period_ticks d) + 1) * unat (bfp_period_ticks d)"

lemma bfp_grid_after_bounds:
  assumes "bfp_next_replenish_ticks d \<le> now" and "0 < bfp_period_ticks d"
  shows "unat now < bfp_grid_after d now" and "bfp_grid_after d now \<le> unat now + unat (bfp_period_ticks d)"
proof -
  define n x p where "n = unat now" and "x = unat (bfp_next_replenish_ticks d)" and "p = unat (bfp_period_ticks d)"
  have p: "0 < p" and le: "x \<le> n" using assms by (simp_all add: p_def x_def n_def word_less_nat_alt word_le_nat_alt)
  have "n - x < ((n - x) div p + 1) * p" using dividend_less_div_times [OF p, of "n - x"] by (simp add: algebra_simps)
  moreover have "x + (n - x) div p * p \<le> n" using div_times_less_eq_dividend [of "n - x" p] le by linarith
  ultimately show "unat now < bfp_grid_after d now" "bfp_grid_after d now \<le> unat now + unat (bfp_period_ticks d)"
    using le by (simp_all add: bfp_grid_after_def n_def [symmetric] x_def [symmetric] p_def [symmetric])
qed

lemma bfp_periods:
  assumes "bfp_next_replenish_ticks d \<le> now" and "0 < bfp_period_ticks d" and "now \<noteq> UINT64_MAX"
  defines "k \<equiv> (now - bfp_next_replenish_ticks d) div bfp_period_ticks d + 1"
  shows "k > (UINT64_MAX - bfp_next_replenish_ticks d) div bfp_period_ticks d \<longleftrightarrow> 2 ^ 64 \<le> bfp_grid_after d now"
    and "bfp_grid_after d now < 2 ^ 64 \<Longrightarrow> unat (bfp_next_replenish_ticks d + k * bfp_period_ticks d) = bfp_grid_after d now"
proof -
  let ?x = "bfp_next_replenish_ticks d" and ?p = "bfp_period_ticks d"
  have "unat now < 2 ^ 64 - 1"
    using assms(3) unat_to_end [of 0] unsigned_less [of now, where ?'a = nat] by (auto simp: word_unat_eq_iff)
  moreover have k0: "unat ((now - ?x) div ?p) = (unat now - unat ?x) div unat ?p"
    using assms(1) by (simp add: unat_div_distrib unat_diff_le)
  moreover have "(unat now - unat ?x) div unat ?p \<le> unat now" by (meson diff_le_self div_le_dividend order_trans)
  ultimately have k: "unat k = (unat now - unat ?x) div unat ?p + 1" unfolding k_def by (subst unat_add_nowrap) auto
  have g: "bfp_grid_after d now = unat ?x + unat k * unat ?p" by (simp add: bfp_grid_after_def k)
  show "k > (UINT64_MAX - ?x) div ?p \<longleftrightarrow> 2 ^ 64 \<le> bfp_grid_after d now" unfolding g by (rule grid_guard [OF assms(2)])
  assume lt: "bfp_grid_after d now < 2 ^ 64"
  then have "unat (k * ?p) = unat k * unat ?p" unfolding g by (intro unat_mult_nowrap) simp
  with lt show "unat (?x + k * ?p) = bfp_grid_after d now" unfolding g by (subst unat_add_nowrap) simp_all
qed

lemma bfp_advance_grid:
  assumes "bfp_due now d" and "0 < bfp_period_ticks d" and "now \<noteq> UINT64_MAX"
  defines "d' \<equiv> snd (bfp_advance_inactive_period now d)"
  shows "unat (bfp_next_replenish_ticks d') = min (2 ^ 64 - 1) (bfp_grid_after d now)"
    and "bfp_remaining_ticks d' = (if bfp_grid_after d now < 2 ^ 64 then bfp_budget_ticks d else 0)"
proof -
  have due: "bfp_next_replenish_ticks d \<noteq> UINT64_MAX" "bfp_next_replenish_ticks d \<le> now" using assms(1) by (simp_all add: bfp_due_def)
  note P = bfp_periods [OF due(2) assms(2,3)]
  have "unat UINT64_MAX = 2 ^ 64 - 1" using unat_to_end [of 0] by simp
  then show "unat (bfp_next_replenish_ticks d') = min (2 ^ 64 - 1) (bfp_grid_after d now)"
    "bfp_remaining_ticks d' = (if bfp_grid_after d now < 2 ^ 64 then bfp_budget_ticks d else 0)"
    using due P by (cases "bfp_grid_after d now < 2 ^ 64"; simp add: d'_def bfp_advance_inactive_period_def Let_def)+
qed

text \<open>A charge within a period takes the time run off the budget; one across a boundary starts afresh.\<close>

lemma bfp_charge_within:
  assumes "bfp_next_replenish_ticks d = UINT64_MAX \<or> now < bfp_next_replenish_ticks d" and "bfp_last_start_ticks d \<le> now"
  shows "unat (bfp_remaining_ticks (bfp_charge now d)) = unat (bfp_remaining_ticks d) - (unat now - unat (bfp_last_start_ticks d))"
    and "bfp_next_replenish_ticks (bfp_charge now d) = bfp_next_replenish_ticks d"
proof -
  have n: "unat (now - bfp_last_start_ticks d) = unat now - unat (bfp_last_start_ticks d)" using assms(2) by (rule unat_diff_le)
  show "unat (bfp_remaining_ticks (bfp_charge now d)) = unat (bfp_remaining_ticks d) - (unat now - unat (bfp_last_start_ticks d))"
    using assms(1) n by (auto simp: bfp_charge_def Let_def bfp_charge_current_period_def word_less_nat_alt unat_diff_le word_le_nat_alt)
  show "bfp_next_replenish_ticks (bfp_charge now d) = bfp_next_replenish_ticks d"
    using assms(1) by (auto simp: bfp_charge_def Let_def bfp_charge_current_period_def)
qed

lemma bfp_charge_across_eq:
  fixes d now
  defines "x \<equiv> bfp_next_replenish_ticks d" and "p \<equiv> bfp_period_ticks d"
  defines "over \<equiv> (now - x) div p + 1 > (UINT64_MAX - x) div p"
  assumes "bfp_due now d"
  shows "bfp_next_replenish_ticks (bfp_charge now d) = (if over then UINT64_MAX else x + ((now - x) div p + 1) * p)"
    and "bfp_remaining_ticks (bfp_charge now d)
      = (if over \<or> (now - x) mod p > bfp_budget_ticks d then 0 else bfp_budget_ticks d - (now - x) mod p)"
proof -
  define q where "q = (now - x) div p"
  have "x \<noteq> UINT64_MAX" "\<not> now < x" using assms(4) by (auto simp: bfp_due_def x_def not_less)
  then show "bfp_next_replenish_ticks (bfp_charge now d) = (if over then UINT64_MAX else x + ((now - x) div p + 1) * p)"
    "bfp_remaining_ticks (bfp_charge now d)
      = (if over \<or> (now - x) mod p > bfp_budget_ticks d then 0 else bfp_budget_ticks d - (now - x) mod p)"
    unfolding over_def q_def [symmetric]
    by (auto simp: bfp_charge_def Let_def bfp_charge_current_period_def x_def [symmetric] p_def [symmetric] q_def [symmetric])
qed

lemma bfp_charge_across:
  assumes "bfp_due now d" and "0 < bfp_period_ticks d" and "now \<noteq> UINT64_MAX"
  shows "unat (bfp_next_replenish_ticks (bfp_charge now d)) = min (2 ^ 64 - 1) (bfp_grid_after d now)"
    and "bfp_grid_after d now < 2 ^ 64 \<Longrightarrow> unat (bfp_remaining_ticks (bfp_charge now d))
      = unat (bfp_budget_ticks d) - (unat now - unat (bfp_next_replenish_ticks d)) mod unat (bfp_period_ticks d)"
    and "2 ^ 64 \<le> bfp_grid_after d now \<Longrightarrow> bfp_remaining_ticks (bfp_charge now d) = 0"
proof -
  let ?x = "bfp_next_replenish_ticks d"
  have due: "?x \<noteq> UINT64_MAX" "?x \<le> now" "\<not> now < ?x" using assms(1) by (auto simp: bfp_due_def not_less)
  note P = bfp_periods [OF due(2) assms(2,3)]
  have u: "unat UINT64_MAX = 2 ^ 64 - 1" using unat_to_end [of 0] by simp
  have ph: "unat ((now - ?x) mod bfp_period_ticks d) = (unat now - unat ?x) mod unat (bfp_period_ticks d)"
    using due(2) by (simp add: unat_mod_distrib unat_diff_le)
  note E = bfp_charge_across_eq [OF assms(1)]
  show "unat (bfp_next_replenish_ticks (bfp_charge now d)) = min (2 ^ 64 - 1) (bfp_grid_after d now)"
    using E(1) P u by (cases "bfp_grid_after d now < 2 ^ 64") simp_all
  show "unat (bfp_remaining_ticks (bfp_charge now d)) = unat (bfp_budget_ticks d) - (unat now - unat ?x) mod unat (bfp_period_ticks d)"
    if "bfp_grid_after d now < 2 ^ 64"
    using P that ph by (simp add: E(2) word_less_nat_alt unat_diff_le word_le_nat_alt)
  show "bfp_remaining_ticks (bfp_charge now d) = 0" if "2 ^ 64 \<le> bfp_grid_after d now"
    using P that by (simp add: E(2))
qed

section \<open>Admission\<close>

text \<open>
  The response-time equation of fixed-priority scheduling: the worst-case demand on the pCPU in a
  window of \<open>R\<close> microseconds that delays task \<open>i\<close> is its own budget and, for each task that is
  not lower, a budget per period begun in the window.
\<close>

definition bfp_interference :: "bfp_admission_task list \<Rightarrow> nat \<Rightarrow> nat \<Rightarrow> nat \<Rightarrow> nat" where
  "bfp_interference tasks i R j =
     (if j = i \<or> adm_priority (tasks ! j) < adm_priority (tasks ! i) then 0
      else (R div unat (adm_period_us (tasks ! j)) + (if R mod unat (adm_period_us (tasks ! j)) \<noteq> 0 then 1 else 0))
           * unat (adm_budget_us (tasks ! j)))"

definition bfp_workload :: "bfp_admission_task list \<Rightarrow> nat \<Rightarrow> nat \<Rightarrow> nat" where
  "bfp_workload tasks i R =
     unat (adm_budget_us (tasks ! i)) + sum_list (map (bfp_interference tasks i R) [0..<length tasks])"

definition bfp_tasks_ok :: "bfp_admission_task list \<Rightarrow> bool" where
  "bfp_tasks_ok tasks \<longleftrightarrow> (\<forall>t \<in> set tasks. 0 < adm_budget_us t \<and> adm_budget_us t \<le> adm_period_us t)"

lemma ceil_mono: "(a::nat) \<le> b \<Longrightarrow> a div p + (if a mod p \<noteq> 0 then 1 else 0) \<le> b div p + (if b mod p \<noteq> 0 then 1 else 0)"
proof (cases "p = 0")
  case False
  assume le: "a \<le> b"
  have c: "x div p + (if x mod p \<noteq> 0 then 1 else 0) = (x + (p - 1)) div p" for x
  proof -
    have "x + (p - 1) = x div p * p + (x mod p + (p - 1))" using div_mult_mod_eq [of x p] by linarith
    then have "(x + (p - 1)) div p = (x div p * p + (x mod p + (p - 1))) div p" by (rule arg_cong)
    also have "\<dots> = x div p + (x mod p + (p - 1)) div p" by (rule div_mult_self3) (use False in simp)
    also have "(x mod p + (p - 1)) div p = (if x mod p \<noteq> 0 then 1 else 0)"
    proof (cases "x mod p = 0")
      case True
      then show ?thesis using False by simp
    next
      case m: False
      have "x mod p < p" using False by simp
      then have "p * 1 \<le> x mod p + (p - 1)" "x mod p + (p - 1) < p * Suc 1" using m by simp_all
      then have "(x mod p + (p - 1)) div p = 1" by (rule div_nat_eqI)
      then show ?thesis using m by simp
    qed
    finally show ?thesis by simp
  qed
  show ?thesis unfolding c using le by (intro div_le_mono) simp
qed simp

lemma bfp_workload_mono: "R \<le> R' \<Longrightarrow> bfp_workload tasks i R \<le> bfp_workload tasks i R'"
  unfolding bfp_workload_def bfp_interference_def using ceil_mono
  by (intro add_left_mono sum_list_mono) (auto intro!: mult_le_mono)

lemma bfp_admission_sticky:
  "fault s \<noteq> None \<Longrightarrow> fault (snd (bfp_demand tasks i R s)) \<noteq> None"
  "fault s \<noteq> None \<Longrightarrow> fault (bfp_response_loop tasks i n R s) \<noteq> None"
proof -
  have "fault (snd a) \<noteq> None \<Longrightarrow> fault (snd (bfp_add_interference tasks i R j a)) \<noteq> None" for a R j
    by (cases a) (auto simp: bfp_add_interference_def Let_def panic_def)
  then have "fault (snd a) \<noteq> None \<Longrightarrow> fault (snd (fold (bfp_add_interference tasks i R) js a)) \<noteq> None" for js a R
    by (induction js arbitrary: a) (simp_all del: not_None_eq)
  then show d: "fault s \<noteq> None \<Longrightarrow> fault (snd (bfp_demand tasks i R s)) \<noteq> None" for s R
    unfolding bfp_demand_def by (metis snd_conv)
  show "fault s \<noteq> None \<Longrightarrow> fault (bfp_response_loop tasks i n R s) \<noteq> None"
  proof (induction n arbitrary: R s)
    case (Suc n)
    then show ?case using d [of s R] by (simp add: Let_def split_def del: not_None_eq)
  qed simp
qed

lemma bfp_add_interference_sound:
  assumes r: "bfp_add_interference tasks i R j (demand, s) = (demand', s')" and ok: "fault s' = None"
    and t: "0 < adm_budget_us (tasks ! j)" "adm_budget_us (tasks ! j) \<le> adm_period_us (tasks ! j)"
  shows "fault s = None" and "unat demand' = unat demand + bfp_interference tasks i (unat R) j"
proof -
  define jobs where "jobs = (if R mod ucast (adm_period_us (tasks ! j)) \<noteq> 0
    then R div ucast (adm_period_us (tasks ! j)) + 1 else R div ucast (adm_period_us (tasks ! j)))"
  define b where "b = (ucast (adm_budget_us (tasks ! j)) :: u64)"
  define P where "P = unat (adm_period_us (tasks ! j))"
  have b: "0 < b" "unat b = unat (adm_budget_us (tasks ! j))" using t(1) by (simp_all add: b_def word_less_nat_alt unat_ucast_u32)
  have up: "unat (ucast (adm_period_us (tasks ! j)) :: u64) = P" by (simp add: P_def unat_ucast_u32)
  have P0: "0 < P" using t by (simp add: P_def word_less_nat_alt word_le_nat_alt)
  have dm: "unat (R div ucast (adm_period_us (tasks ! j))) = unat R div P" "unat (R mod ucast (adm_period_us (tasks ! j))) = unat R mod P"
    by (simp_all add: unat_div_distrib unat_mod_distrib P_def)
  have "unat (R div ucast (adm_period_us (tasks ! j)) + 1) = unat R div P + 1" if "unat R mod P \<noteq> 0"
  proof -
    have "P \<noteq> 1" using that by auto
    then have "unat R div P < unat R \<or> unat R = 0" using P0 by (cases "unat R = 0") (auto intro: div_less_dividend)
    then show ?thesis using that dm unsigned_less [of R, where ?'a = nat] by (subst unat_add_nowrap) auto
  qed
  then have jobs: "unat jobs = unat R div P + (if unat R mod P \<noteq> 0 then 1 else 0)"
    by (auto simp: jobs_def dm unat_eq_zero [symmetric] simp del: unat_eq_zero)
  show "fault s = None"
    using r ok by (auto simp: bfp_add_interference_def Let_def split: if_splits simp del: not_None_eq)
  show "unat demand' = unat demand + bfp_interference tasks i (unat R) j"
  proof (cases "j = i \<or> adm_priority (tasks ! j) < adm_priority (tasks ! i)")
    case True
    then show ?thesis using r by (simp add: bfp_add_interference_def bfp_interference_def)
  next
    case False
    have g: "\<not> jobs > UINT64_MAX div b" "\<not> demand > UINT64_MAX - jobs * b" and d': "demand' = demand + jobs * b"
      using r ok False by (auto simp: bfp_add_interference_def Let_def jobs_def [symmetric] b_def [symmetric] split: if_splits)
    have 1: "unat (jobs * b) = unat jobs * unat b"
      using g(1) grid_guard [OF b(1), of 0 jobs] by (intro unat_mult_nowrap) simp
    have "unat demand \<le> 2 ^ 64 - 1 - unat (jobs * b)" using g(2) by (simp add: not_less word_le_nat_alt unat_to_end)
    then have "unat demand' = unat demand + unat (jobs * b)" unfolding d'
      using unsigned_less [of "jobs * b", where ?'a = nat] by (intro unat_add_nowrap) simp
    then show ?thesis using False by (simp add: 1 jobs b(2) bfp_interference_def P_def)
  qed
qed

lemma bfp_demand_sound:
  assumes "bfp_demand tasks i R s = (demand, s')" and "fault s' = None" and "bfp_tasks_ok tasks"
  shows "fault s = None" and "unat demand = bfp_workload tasks i (unat R)"
proof -
  have f: "fault (snd a) = None \<and> unat (fst r) = unat (fst a) + sum_list (map (bfp_interference tasks i (unat R)) js)"
    if "fold (bfp_add_interference tasks i R) js a = r" "fault (snd r) = None" "\<forall>j \<in> set js. j < length tasks" for js a r
    using that
  proof (induction js arbitrary: a)
    case (Cons j js)
    define b where "b = bfp_add_interference tasks i R j a"
    have "0 < adm_budget_us (tasks ! j)" "adm_budget_us (tasks ! j) \<le> adm_period_us (tasks ! j)"
      using Cons.prems(3) assms(3) by (auto simp: bfp_tasks_ok_def)
    moreover have IH: "fault (snd b) = None"
      "unat (fst r) = unat (fst b) + sum_list (map (bfp_interference tasks i (unat R)) js)"
      using Cons.IH [of b] Cons.prems by (simp_all add: b_def)
    ultimately show ?case
      using bfp_add_interference_sound [of tasks i R j "fst a" "snd a" "fst b" "snd b"] by (simp add: b_def)
  qed simp
  from f [of "[0..<length tasks]"] assms(1,2)
  show "fault s = None" "unat demand = bfp_workload tasks i (unat R)"
    by (fastforce simp: bfp_demand_def bfp_workload_def unat_ucast_u32)+
qed

text \<open>
  A task that the analysis lets pass has a response time within its period: the iteration ended
  on the least solution of the equation.
\<close>

definition bfp_response :: "bfp_admission_task list \<Rightarrow> nat \<Rightarrow> nat \<Rightarrow> bool" where
  "bfp_response tasks i R \<longleftrightarrow> R = bfp_workload tasks i R \<and> (\<forall>F. F = bfp_workload tasks i F \<longrightarrow> R \<le> F)"

lemma bfp_response_loop_sound:
  assumes "fault (bfp_response_loop tasks i n R s) = None" and "bfp_tasks_ok tasks"
    and "\<And>F. F = bfp_workload tasks i F \<Longrightarrow> unat R \<le> F"
  shows "fault s = None \<and> (\<exists>r. bfp_response tasks i r \<and> r \<le> unat (adm_period_us (tasks ! i)))"
  using assms(1,3)
proof (induction n arbitrary: R s)
  case 0
  then show ?case using panic_frame(6) by (metis bfp_response_loop.simps(1))
next
  case (Suc n)
  obtain demand s1 where d: "bfp_demand tasks i R s = (demand, s1)" by fastforce
  define s2 where "s2 = (if demand > ucast (adm_period_us (tasks ! i)) then panic ''BFP admission failed'' s1 else s1)"
  have l: "bfp_response_loop tasks i (Suc n) R s = (if demand = R then s2 else bfp_response_loop tasks i n demand s2)"
    by (simp add: d s2_def)
  have ok2: "fault s2 = None"
    using Suc.prems(1) bfp_admission_sticky(2) [of s2 tasks i n demand] unfolding l by (cases "demand = R") (simp_all del: not_None_eq, blast)
  then have ok1: "fault s1 = None" and le: "demand \<le> ucast (adm_period_us (tasks ! i))"
    by (auto simp: s2_def not_less split: if_splits)
  note D = bfp_demand_sound [OF d ok1 assms(2)]
  have least: "unat demand \<le> F" if "F = bfp_workload tasks i F" for F
    using bfp_workload_mono [OF Suc.prems(2) [OF that], of tasks i] D(2) that by simp
  show ?case
  proof (cases "demand = R")
    case True
    then have "bfp_response tasks i (unat R)" using D(2) Suc.prems(2) by (simp add: bfp_response_def)
    then show ?thesis using D(1) True le by (auto simp: word_le_nat_alt unat_ucast_u32)
  next
    case False
    then show ?thesis using Suc.IH [of demand s2] Suc.prems(1) least D(1) unfolding l by simp
  qed
qed

lemma bfp_normalize_us_sound:
  assumes "bfp_normalize_us p params s = (period, budget, s')" and "fault s' = None"
  shows "fault s = None" and "500 \<le> budget" and "budget \<le> period"
proof -
  define s1 where "s1 = (if period < BFP_MIN_PERIOD_US then panic ''BFP period below minimum'' s else s)"
  define s2 where "s2 = (if budget < BFP_MIN_BUDGET_US then panic ''BFP budget below minimum'' s1 else s1)"
  have s': "s' = (if budget > period then panic ''BFP budget > period'' s2 else s2)"
    using assms(1) by (auto simp: bfp_normalize_us_def Let_def split_def s1_def s2_def)
  have "\<not> budget > period" and 2: "fault s2 = None" using assms(2) by (auto simp: s' split: if_splits)
  then show "budget \<le> period" by simp
  have "\<not> budget < BFP_MIN_BUDGET_US" and 1: "fault s1 = None" using 2 by (auto simp: s2_def split: if_splits)
  then show "500 \<le> budget" by (simp add: BFP_MIN_BUDGET_US_def)
  show "fault s = None" using 1 by (auto simp: s1_def split: if_splits)
qed

lemma bfp_collect_vm_sound:
  assumes "fault (snd (bfp_collect_vm p vm a)) = None"
  shows "fault (snd a) = None" and "bfp_tasks_ok (fst a) \<Longrightarrow> bfp_tasks_ok (fst (bfp_collect_vm p vm a))"
proof -
  obtain ts s where a: "a = (ts, s)" by fastforce
  define params where "params = vm_sched_params (vm_configs s vm)"
  define s0 where "s0 = (if prio params \<le> PRIO_IDLE then panic ''BFP invalid priority'' s else s)"
  obtain pu bu s2 where n: "bfp_normalize_us p params s0 = (pu, bu, s2)" by (metis prod_cases3)
  have "fault s = None \<and> (bfp_tasks_ok ts \<longrightarrow> bfp_tasks_ok (fst (bfp_collect_vm p vm a)))"
  proof (cases "bfp_vm_uses_pcpu (vm_configs s vm) p")
    case True
    then have t: "bfp_collect_vm p vm a =
        (ts @ [\<lparr>adm_vm_id = vm, adm_priority = prio params, adm_period_us = pu, adm_budget_us = bu\<rparr>], s2)"
      using n by (simp add: a bfp_collect_vm_def Let_def params_def [symmetric] s0_def [symmetric])
    then have "fault s2 = None" using assms by simp
    note N = bfp_normalize_us_sound [OF n this]
    have "0 < bu" using N(2) by (auto simp: word_gt_0)
    moreover have "fault s = None" using N(1) by (auto simp: s0_def split: if_splits)
    ultimately show ?thesis using N(3) by (auto simp: t bfp_tasks_ok_def)
  qed (use assms in \<open>simp add: a bfp_collect_vm_def\<close>)
  then show "fault (snd a) = None" "bfp_tasks_ok (fst a) \<Longrightarrow> bfp_tasks_ok (fst (bfp_collect_vm p vm a))" by (simp_all add: a)
qed

lemma bfp_collect_sound:
  assumes "bfp_collect_admission_tasks p s = (tasks, s')" and "fault s' = None"
  shows "bfp_tasks_ok tasks"
proof -
  have "fault (snd a) = None \<longrightarrow> bfp_tasks_ok (fst a) \<Longrightarrow>
      fault (snd (fold (bfp_collect_vm p) vms a)) = None \<longrightarrow> bfp_tasks_ok (fst (fold (bfp_collect_vm p) vms a))" for vms a
  proof (induction vms arbitrary: a)
    case (Cons vm vms)
    show ?case using Cons.IH [of "bfp_collect_vm p vm a"] Cons.prems bfp_collect_vm_sound [of p vm a] by simp
  qed simp
  from this [of "([], s)" "[0..<CONFIG_MAX_VM_NUM]"] show ?thesis
    using assms by (simp add: bfp_collect_admission_tasks_def bfp_tasks_ok_def)
qed

text \<open>A pCPU that comes up under BFP has a task set in which every task meets its period.\<close>

lemma bfp_admission_sound:
  assumes "fault (snd (bfp_validate_pcpu_admission p s)) = None" and i: "i < length (fst (bfp_collect_admission_tasks p s))"
  shows "\<exists>R. bfp_response (fst (bfp_collect_admission_tasks p s)) i R
    \<and> R \<le> unat (adm_period_us (fst (bfp_collect_admission_tasks p s) ! i))"
proof -
  obtain tasks s1 where c: "bfp_collect_admission_tasks p s = (tasks, s1)" by fastforce
  define r where "r = fold (bfp_validate_response_time tasks) [0..<length tasks] s1"
  have ok: "fault r = None" using assms(1) by (simp add: bfp_validate_pcpu_admission_def c r_def)
  have sticky: "fault x \<noteq> None \<Longrightarrow> fault (fold (bfp_validate_response_time tasks) js x) \<noteq> None" for js x
    by (induction js arbitrary: x) (auto simp: bfp_validate_response_time_def bfp_admission_sticky simp del: not_None_eq)
  then have ts: "bfp_tasks_ok tasks" using bfp_collect_sound [OF c] ok by (auto simp: r_def simp del: not_None_eq)
  define x where "x = fold (bfp_validate_response_time tasks) [0..<i] s1"
  have "[0..<length tasks] = [0..<i] @ i # [Suc i..<length tasks]"
    using i c by (metis fst_conv le_add_same_cancel1 upt_add_eq_append upt_conv_Cons zero_le less_imp_le_nat le_add_diff_inverse)
  then have "r = fold (bfp_validate_response_time tasks) [Suc i..<length tasks] (bfp_validate_response_time tasks i x)"
    by (simp add: r_def x_def)
  then have "fault (bfp_validate_response_time tasks i x) = None" using ok sticky by metis
  then have "\<exists>R. bfp_response tasks i R \<and> R \<le> unat (adm_period_us (tasks ! i))"
    using bfp_response_loop_sound [of tasks i BFP_RTA_MAX_ITERATIONS _ x, OF _ ts]
    by (auto simp: bfp_validate_response_time_def bfp_workload_def)
  then show ?thesis by (simp add: c)
qed

lemma bfp_init_data_server:
  assumes "fault (sched_bfp_init_data t params s) = None" and "\<not> is_idle_thread t s"
  shows "bfp_server (bfp t (sched_bfp_init_data t params s))"
    and "PRIO_IDLE < bfp_priority (bfp t (sched_bfp_init_data t params s))"
    and "bfp_remaining_ticks (bfp t (sched_bfp_init_data t params s)) = bfp_budget_ticks (bfp t (sched_bfp_init_data t params s))"
proof -
  define s1 where "s1 = upd_bfp t (\<lambda>_. \<lparr>bfp_period_ticks = 0, bfp_budget_ticks = 0, bfp_remaining_ticks = 0,
    bfp_next_replenish_ticks = UINT64_MAX, bfp_last_start_ticks = 0, bfp_depleted_count = 0,
    bfp_replenish_count = 0, bfp_overrun_count = 0, bfp_priority = PRIO_IDLE, bfp_queue = BFP_QUEUE_NONE\<rparr>) (tick_read s)"
  define s2 where "s2 = (if \<not> is_vcpu (threads s1 t) then panic ''BFP rejects host thread'' s1 else s1)"
  define s3 where "s3 = (if prio params \<le> PRIO_IDLE then panic ''BFP invalid priority'' s2 else s2)"
  obtain pu bu s4 where n: "bfp_normalize_us (pcpu_id (threads s3 t)) params s3 = (pu, bu, s4)" by (metis prod_cases3)
  define period budget where "period = us_to_ticks (khz s4) pu" and "budget = us_to_ticks (khz s4) bu"
  define s5 where "s5 = (if period = 0 \<or> budget = 0 \<or> budget > period then panic ''BFP invalid tick budget'' s4 else s4)"
  have "hook_frame s s1" unfolding s1_def by (intro bfp_steps hook_frame_refl)
  then have "\<not> is_idle_thread t s1" using assms(2) hook_frameD(25) by metis
  then have r: "sched_bfp_init_data t params s = upd_bfp t (\<lambda>d. d\<lparr>bfp_period_ticks := period, bfp_budget_ticks := budget,
      bfp_remaining_ticks := budget, bfp_next_replenish_ticks := bfp_next_period_boundary (cpu_ticks s) period,
      bfp_priority := prio params\<rparr>) s5"
    using n unfolding sched_bfp_init_data_def Let_def s1_def [symmetric] s2_def [symmetric] s3_def [symmetric]
    by (simp add: period_def budget_def s5_def)
  have "fault s5 = None" using assms(1) by (simp add: r)
  then have b: "budget \<noteq> 0" "budget \<le> period" and "fault s4 = None" by (auto simp: s5_def not_less split: if_splits)
  then have "fault s3 = None" using bfp_normalize_us_sound(1) [OF n] by simp
  then have "PRIO_IDLE < prio params" by (auto simp: s3_def not_le split: if_splits)
  then show "bfp_server (bfp t (sched_bfp_init_data t params s))"
    "PRIO_IDLE < bfp_priority (bfp t (sched_bfp_init_data t params s))"
    "bfp_remaining_ticks (bfp t (sched_bfp_init_data t params s)) = bfp_budget_ticks (bfp t (sched_bfp_init_data t params s))"
    using b by (simp_all add: r bfp_server_def word_gt_0)
qed

section \<open>A late boundary\<close>

text \<open>
  The timeout of a running thread is at most its period boundary, so a boundary that has passed
  when the timer is programmed makes the timeout lie in the past.
\<close>

lemma bfp_timeout_late:
  assumes "\<not> is_idle_thread t s" and "bfp_remaining_ticks (bfp t s) \<noteq> 0"
    and "bfp_next_replenish_ticks (bfp t s) \<noteq> 0" and "bfp_next_replenish_ticks (bfp t s) \<le> now"
    and "unat now + unat (bfp_remaining_ticks (bfp t s)) < 2 ^ 64"
  shows "bfp_timeout c (Some t) now s \<noteq> 0" and "bfp_timeout c (Some t) now s \<le> now"
proof -
  let ?d = "bfp t s"
  have "bfp_remaining_ticks ?d \<le> UINT64_MAX - now" using assms(5) by (simp add: word_le_nat_alt unat_to_end)
  moreover have "now < now + bfp_remaining_ticks ?d"
  proof -
    have "0 < unat (bfp_remaining_ticks ?d)" using assms(2) by (simp add: unat_gt_0)
    then show ?thesis using assms(5) by (simp add: word_less_nat_alt unat_add_nowrap)
  qed
  ultimately have t: "bfp_timeout c (Some t) now s = (if bfp_next_depleted_replenishment c s \<noteq> 0
      \<and> bfp_next_depleted_replenishment c s < bfp_next_replenish_ticks ?d
      then bfp_next_depleted_replenishment c s else bfp_next_replenish_ticks ?d)"
    using assms by (auto simp: bfp_timeout_def Let_def)
  show "bfp_timeout c (Some t) now s \<noteq> 0" "bfp_timeout c (Some t) now s \<le> now"
    using assms(3,4) by (auto simp: t)
qed

lemma bfp_program_local_timer_late:
  fixes c t s
  defines "tmo \<equiv> bfp_timeout c (Some t) (cpu_ticks s) s"
  assumes ok: "fault s = None" "ctl_pcpu_id (sched_ctls s c) = cur_pcpu s"
    and changed: "tmo \<noteq> bfp_timer_deadline_ticks (bfp_ctl s c) \<or> \<not> timer_is_started (BfpTick c) s"
    and late: "tmo \<noteq> 0" "tmo \<le> cpu_ticks s"
  shows "fault (bfp_program_local_timer c (Some t) s) = Some (AssertFailed ''BFP timer deadline is not in the future!'')"
proof -
  have tr: "bfp_timeout c (Some t) now (tick_read s) = bfp_timeout c (Some t) now s" for now
    by (cases "bfp_depleted c s")
      (simp_all add: bfp_timeout_def bfp_next_depleted_replenishment_def hook_frameD(25) [of s "tick_read s"])
  have a: "assertion (ctl_pcpu_id (sched_ctls (tick_read s) c) = cur_pcpu (tick_read s)) m (tick_read s) = tick_read s" for m
    using ok(2) by (simp add: assertion_def)
  have b: "bfp_ctl (tick_read s) = bfp_ctl s" and c: "timer_is_started (BfpTick c) (tick_read s) = timer_is_started (BfpTick c) s"
    by (simp_all add: timer_is_started_def)
  have cond: "(tmo = bfp_timer_deadline_ticks (bfp_ctl s c) \<and> timer_is_started (BfpTick c) s) = False" using changed by blast
  define s1 where "s1 = set_bfp_timer_deadline c 0
    (if timer_is_started (BfpTick c) (tick_read s) then del_timer (Some (BfpTick c)) (tick_read s) else tick_read s)"
  define s2 where "s2 = assertion (tmo > cpu_ticks s) ''BFP timer deadline is not in the future!'' s1"
  define s3 where "s3 = snd (add_timer (Some (BfpTick c)) (update_timer (Some (BfpTick c)) tmo 0 s2))"
  define r where "r = fst (add_timer (Some (BfpTick c)) (update_timer (Some (BfpTick c)) tmo 0 s2))"
  have "fault s1 = None" using ok(1) by (simp add: s1_def set_bfp_timer_deadline_def)
  then have f2: "fault s2 = Some (AssertFailed ''BFP timer deadline is not in the future!'')"
    using late(2) by (simp add: s2_def assertion_def)
  have F: "hook_frame s2 (set_bfp_timer_deadline c tmo (if r \<noteq> 0 then panic ''BFP failed to arm timer'' s3 else s3))"
    unfolding s3_def by (intro bfp_steps hook_frame_refl hook_frame_if)
  have "bfp_program_local_timer c (Some t) s = set_bfp_timer_deadline c tmo (if r \<noteq> 0 then panic ''BFP failed to arm timer'' s3 else s3)"
    unfolding bfp_program_local_timer_def Let_def split_def a tr tmo_def [symmetric] b
    by (simp only: c cond late(1) if_True if_False simp_thms s1_def s2_def s3_def r_def)
  then show ?thesis using hook_frameD(29) [OF F] f2 by simp
qed

section \<open>Properties\<close>

text \<open>
  Claim C25. Where the admission of a pCPU passes, each of its tasks has a least fixed point of the
  response time equation (its budget and the interference of all tasks of higher or equal priority), and
  this worst response is within its period.
\<close>

theorem bfp_admission_response_bound:
  assumes "fault (snd (bfp_validate_pcpu_admission p s)) = None" and "bfp_collect_admission_tasks p s = (tasks, s')"
    and "i < length tasks"
  shows "\<exists>R. R = bfp_workload tasks i R \<and> (\<forall>F. F = bfp_workload tasks i F \<longrightarrow> R \<le> F)
    \<and> R \<le> unat (adm_period_us (tasks ! i))"
  using bfp_admission_sound [OF assms(1), of i] assms(2,3) by (auto simp: bfp_response_def)

text \<open>
  Claim C27. The charge of a running thread is exact: within its period the time run is taken off the
  budget, down to zero; across boundaries the next replenishment is the first point of the grid after
  the present time, and the budget that is left is a fresh one less the time since the last boundary.
\<close>

theorem bfp_charge_exact:
  assumes "bfp_last_start_ticks d \<le> now" and "0 < bfp_period_ticks d"
    and "unat now + unat (bfp_period_ticks d) < 2 ^ 64" and "bfp_next_replenish_ticks d \<noteq> UINT64_MAX"
  defines "d' \<equiv> bfp_charge now d"
  shows "if now < bfp_next_replenish_ticks d
     then unat (bfp_remaining_ticks d') = unat (bfp_remaining_ticks d) - (unat now - unat (bfp_last_start_ticks d))
       \<and> bfp_next_replenish_ticks d' = bfp_next_replenish_ticks d
     else unat (bfp_remaining_ticks d')
         = unat (bfp_budget_ticks d) - (unat now - unat (bfp_next_replenish_ticks d)) mod unat (bfp_period_ticks d)
       \<and> now < bfp_next_replenish_ticks d'
       \<and> unat (bfp_next_replenish_ticks d') = bfp_grid_after d now"
proof (cases "now < bfp_next_replenish_ticks d")
  case True
  then show ?thesis using bfp_charge_within [OF _ assms(1)] by (simp add: d'_def)
next
  case False
  then have due: "bfp_due now d" "bfp_next_replenish_ticks d \<le> now" using assms(4) by (simp_all add: bfp_due_def)
  have "now \<noteq> UINT64_MAX"
  proof
    assume "now = UINT64_MAX"
    then have "unat now = 2 ^ 64 - 1" using unat_max_word [where 'l = 64] by simp
    then show False using assms(2,3) by (simp add: word_less_nat_alt)
  qed
  note C = bfp_charge_across [OF due(1) assms(2) this]
  note B = bfp_grid_after_bounds [OF due(2) assms(2)]
  have "bfp_grid_after d now < 2 ^ 64" using B(2) assms(3) by simp
  then show ?thesis using False B C by (simp add: d'_def word_less_nat_alt)
qed

definition bfp_example :: sched_bfp_data where
  "bfp_example = \<lparr>bfp_period_ticks = 40, bfp_budget_ticks = 10, bfp_remaining_ticks = 8, bfp_next_replenish_ticks = 100,
     bfp_last_start_ticks = 95, bfp_depleted_count = 0, bfp_replenish_count = 0, bfp_overrun_count = 0,
     bfp_priority = 1, bfp_queue = BFP_QUEUE_NONE\<rparr>"

theorem bfp_charge_exact_witness:
  "unat (bfp_remaining_ticks (bfp_charge 146 bfp_example)) = 4 \<and> unat (bfp_next_replenish_ticks (bfp_charge 146 bfp_example)) = 180"
  using bfp_charge_exact [of bfp_example 146] by (simp add: bfp_example_def bfp_grid_after_def)

text \<open>
  The timer of a pCPU is programmed from a second reading of the clock: where the running
  thread's period ends between the two readings, the assertion that the deadline lies ahead fails.
\<close>

theorem bfp_late_boundary_asserts:
  assumes "fault s = None" and "ctl_pcpu_id (sched_ctls s c) = cur_pcpu s" and "\<not> timer_is_started (BfpTick c) s"
    and "\<not> is_idle_thread t s" and "bfp_remaining_ticks (bfp t s) \<noteq> 0"
    and "bfp_next_replenish_ticks (bfp t s) \<noteq> 0" and "bfp_next_replenish_ticks (bfp t s) \<le> cpu_ticks s"
    and "unat (cpu_ticks s) + unat (bfp_remaining_ticks (bfp t s)) < 2 ^ 64"
  shows "fault (bfp_program_local_timer c (Some t) s) = Some (AssertFailed ''BFP timer deadline is not in the future!'')"
  using bfp_program_local_timer_late [OF assms(1,2)] bfp_timeout_late [OF assms(4-8)] assms(3) by blast

end
