(* ===== verification/Sched_Arinc653.thy ===== *)
theory Sched_Arinc653
  imports Sched_Contract
begin

text \<open>
  \<open>core/sched/arinc653.c\<close>: a fixed table of windows that repeats every major frame. A window is run
  by the vCPU the table names, or by nobody. The policy has no run queue; its list of the pCPU's
  threads only serves to find the owners of the windows, and stays a heap of nodes. The model
  covers the whole file, with the functions in the order of the source; the array of a control
  block or of a configuration is a list of \<open>SCHED_ARINC653_MAX_ENTRIES\<close> entries.
\<close>

definition SCHED_ARINC653_MAX_ENTRIES :: nat where "SCHED_ARINC653_MAX_ENTRIES = 64"

record sched_arinc653_entry_config =
  cfg_vm_id :: nat
  cfg_vcpu_id :: nat
  cfg_runtime_us :: u32

record sched_arinc653_config =
  cfg_major_frame_us :: u32
  cfg_entry_count :: nat
  cfg_reserved :: nat
  cfg_entries :: "sched_arinc653_entry_config list"

definition upd_arinc :: "nat \<Rightarrow> (sched_arinc653_control \<Rightarrow> sched_arinc653_control) \<Rightarrow> sched_sys \<Rightarrow> sched_sys" where
  "upd_arinc c f s = s\<lparr>arinc_ctl := (arinc_ctl s)(c := f (arinc_ctl s c))\<rparr>"

definition set_entry ::
  "nat \<Rightarrow> (sched_arinc653_entry \<Rightarrow> sched_arinc653_entry) \<Rightarrow> sched_arinc653_control \<Rightarrow> sched_arinc653_control" where
  "set_entry i f a = a\<lparr>entries := (entries a)[i := f (entries a ! i)]\<rparr>"

section \<open>Owners of the windows\<close>

text \<open>
  The walk of \<open>arinc653_find_thread\<close> leaves the list at the first match. On a list that does not lead
  back to its head it need not return.
\<close>

partial_function (option) arinc653_find_walk ::
  "sched_sys \<Rightarrow> arinc_node \<Rightarrow> nat \<Rightarrow> nat \<Rightarrow> arinc_node \<Rightarrow> thread_ref option option" where
  "arinc653_find_walk s head vm vcpu pos =
     (if pos = head then Some None
      else case pos of
             ThreadList _ \<Rightarrow> None
           | ThreadNode t \<Rightarrow>
               if vm_id (threads s t) = vm \<and> vcpu_id (threads s t) = vcpu then Some (Some t)
               else arinc653_find_walk s head vm vcpu (nxt (arinc_lists s) pos))"

definition arinc653_find_thread :: "nat \<Rightarrow> nat \<Rightarrow> nat \<Rightarrow> sched_sys \<Rightarrow> thread_ref option option" where
  "arinc653_find_thread c vm vcpu s =
     arinc653_find_walk s (ThreadList c) vm vcpu (nxt (arinc_lists s) (ThreadList c))"

definition arinc653_resolve_entry :: "nat \<Rightarrow> nat \<Rightarrow> sched_sys \<Rightarrow> sched_sys" where
  "arinc653_resolve_entry c i s =
     (let e = entries (arinc_ctl s c) ! i
      in or_diverges s (map_option (\<lambda>obj. upd_arinc c (set_entry i (\<lambda>e. e\<lparr>ent_obj := obj\<rparr>)) s)
           (arinc653_find_thread c (ent_vm_id e) (ent_vcpu_id e) s)))"

definition arinc653_resolve_entries :: "nat \<Rightarrow> sched_sys \<Rightarrow> sched_sys" where
  "arinc653_resolve_entries c s = fold (arinc653_resolve_entry c) [0..<entry_count (arinc_ctl s c)] s"

section \<open>Frames and windows\<close>

definition arinc653_start_frame :: "u64 \<Rightarrow> sched_arinc653_control \<Rightarrow> bool \<times> sched_arinc653_control" where
  "arinc653_start_frame now a =
     (if entry_count a \<noteq> 0 \<and> major_frame_ticks a \<noteq> 0 \<and> major_frame_ticks a \<le> UINT64_MAX - now then
        (True, a\<lparr>frame_start_ticks := now, next_major_frame_ticks := now + major_frame_ticks a,
                 sched_index := 0, next_switch_ticks := now + ent_runtime_ticks (entries a ! 0)\<rparr>)
      else (False, a))"

text \<open>The loop of \<open>arinc653_advance\<close>, with the number of steps it may still take.\<close>

fun arinc653_advance_loop :: "nat \<Rightarrow> u64 \<Rightarrow> sched_arinc653_control \<Rightarrow> sched_arinc653_control" where
  "arinc653_advance_loop 0 now a = a"
| "arinc653_advance_loop (Suc steps) now a =
     (if sched_index a < entry_count a \<and> now \<ge> next_switch_ticks a then
        let a = a\<lparr>sched_index := sched_index a + 1\<rparr>;
            a = (if sched_index a < entry_count a
                 then a\<lparr>next_switch_ticks := next_switch_ticks a + ent_runtime_ticks (entries a ! sched_index a)\<rparr>
                 else a)
        in arinc653_advance_loop steps now a
      else a)"

definition arinc653_reframe :: "u64 \<Rightarrow> sched_arinc653_control \<Rightarrow> bool \<times> sched_arinc653_control" where
  "arinc653_reframe now a =
     (if next_major_frame_ticks a = 0 \<or> now < frame_start_ticks a then arinc653_start_frame now a
      else if now \<ge> next_major_frame_ticks a then
        let remainder = (now - next_major_frame_ticks a) mod major_frame_ticks a;
            a = a\<lparr>frame_start_ticks := now - remainder\<rparr>
        in if major_frame_ticks a \<le> UINT64_MAX - frame_start_ticks a then
             (True, a\<lparr>next_major_frame_ticks := frame_start_ticks a + major_frame_ticks a, sched_index := 0,
                      next_switch_ticks := frame_start_ticks a + ent_runtime_ticks (entries a ! 0)\<rparr>)
           else (False, a)
      else (True, a))"

text \<open>The result is the return value, \<open>*deadline\<close> (0, as the caller sets it, where it is not written) and the control block.\<close>

definition arinc653_advance ::
  "u64 \<Rightarrow> sched_arinc653_control \<Rightarrow> bool \<times> u64 \<times> sched_arinc653_control" where
  "arinc653_advance now a =
     (if entry_count a = 0 \<or> major_frame_ticks a = 0 then (False, 0, a)
      else
        let (valid, a) = arinc653_reframe now a
        in if valid then
             let a = arinc653_advance_loop SCHED_ARINC653_MAX_ENTRIES now a;
                 deadline = (if sched_index a < entry_count a then next_switch_ticks a else next_major_frame_ticks a)
             in (deadline > now, deadline, a)
           else (False, 0, a))"

section \<open>Timer\<close>

definition arinc653_timer_handler :: "nat \<Rightarrow> sched_sys \<Rightarrow> sched_sys" where
  "arinc653_timer_handler c s =
     (let p = cur_pcpu s;
          s = assertion (ctl_pcpu_id (sched_ctls s c) = p) ''ARINC653 timer on wrong cpu!'' s;
          s = upd_arinc c (\<lambda>a. a\<lparr>arinc_timer_deadline_ticks := 0\<rparr>) s;
          s = sched_account_tick c s
      in make_reschedule_request p s)"

definition arinc653_program_local_timer :: "nat \<Rightarrow> u64 \<Rightarrow> sched_sys \<Rightarrow> bool \<times> sched_sys" where
  "arinc653_program_local_timer c deadline s =
     (let s = assertion (ctl_pcpu_id (sched_ctls s c) = cur_pcpu s) ''program ARINC653 timer on wrong cpu!'' s
      in if deadline = arinc_timer_deadline_ticks (arinc_ctl s c) \<and> timer_is_started (ArincWindow c) s then (True, s)
         else
           let s = (if timer_is_started (ArincWindow c) s then del_timer (Some (ArincWindow c)) s else s);
               s = upd_arinc c (\<lambda>a. a\<lparr>arinc_timer_deadline_ticks := 0\<rparr>) s
           in if deadline \<noteq> 0 then
                let s = update_timer (Some (ArincWindow c)) deadline 0 s;
                    (ret, s) = add_timer (Some (ArincWindow c)) s;
                    s = assertion (ret = 0) ''failed to arm ARINC653 window timer!'' s;
                    s = (if ret = 0 then upd_arinc c (\<lambda>a. a\<lparr>arinc_timer_deadline_ticks := deadline\<rparr>) s else s)
                in (ret = 0, s)
              else (True, s))"

section \<open>The table\<close>

fun arinc653_validate_entries :: "u32 \<Rightarrow> u32 \<Rightarrow> u64 \<Rightarrow> sched_arinc653_entry_config list \<Rightarrow> bool" where
  "arinc653_validate_entries rate frame_us total_us [] = True"
| "arinc653_validate_entries rate frame_us total_us (entry # es) =
     (if cfg_runtime_us entry = 0 \<or> us_to_ticks rate (cfg_runtime_us entry) = 0
         \<or> cfg_vm_id entry \<ge> CONFIG_MAX_VM_NUM \<or> cfg_vcpu_id entry \<ge> MAX_VCPUS_PER_VM then False
      else
        let total_us = total_us + ucast (cfg_runtime_us entry)
        in total_us \<le> ucast frame_us \<and> arinc653_validate_entries rate frame_us total_us es)"

text \<open>\<open>Some\<close> of \<open>*major_frame_ticks\<close> where the configuration is valid.\<close>

definition arinc653_validate_config :: "u32 \<Rightarrow> sched_arinc653_config option \<Rightarrow> u64 option" where
  "arinc653_validate_config rate config =
     (case config of
        None \<Rightarrow> None
      | Some cfg \<Rightarrow>
          if cfg_major_frame_us cfg = 0 \<or> cfg_entry_count cfg = 0
             \<or> cfg_entry_count cfg > SCHED_ARINC653_MAX_ENTRIES then None
          else
            let ticks = us_to_ticks rate (cfg_major_frame_us cfg)
            in if ticks = 0 then None
               else if arinc653_validate_entries rate (cfg_major_frame_us cfg) 0
                         (take (cfg_entry_count cfg) (cfg_entries cfg))
               then Some ticks else None)"

definition arinc653_entry_of :: "u32 \<Rightarrow> sched_arinc653_config \<Rightarrow> nat \<Rightarrow> sched_arinc653_entry" where
  "arinc653_entry_of rate cfg i =
     (if i < cfg_entry_count cfg then
        \<lparr>ent_vm_id = cfg_vm_id (cfg_entries cfg ! i), ent_vcpu_id = cfg_vcpu_id (cfg_entries cfg ! i),
         ent_runtime_us = cfg_runtime_us (cfg_entries cfg ! i),
         ent_runtime_ticks = us_to_ticks rate (cfg_runtime_us (cfg_entries cfg ! i)), ent_obj = None\<rparr>
      else \<lparr>ent_vm_id = 0, ent_vcpu_id = 0, ent_runtime_us = 0, ent_runtime_ticks = 0, ent_obj = None\<rparr>)"

definition sched_arinc653_set_schedule ::
  "nat \<Rightarrow> sched_arinc653_config option \<Rightarrow> sched_sys \<Rightarrow> int \<times> sched_sys" where
  "sched_arinc653_set_schedule p config s =
     (if p \<ge> pcpu_nums s then (- EINVAL, s)
      else
        case (config, arinc653_validate_config (khz s) config) of
          (Some cfg, Some ticks) \<Rightarrow>
            let now = cpu_ticks s;
                s = tick_read s
            in if ticks > UINT64_MAX - now then (- EIO, s)
               else if scheduler (sched_ctls s p) \<noteq> Some Sched_arinc653 \<or> \<not> priv (sched_ctls s p) then (- ENODEV, s)
               else
                 let s = upd_arinc p (\<lambda>a. a\<lparr>major_frame_us := cfg_major_frame_us cfg, major_frame_ticks := ticks,
                           entry_count := cfg_entry_count cfg,
                           entries := map (arinc653_entry_of (khz s) cfg) [0..<SCHED_ARINC653_MAX_ENTRIES]\<rparr>) s;
                     s = arinc653_resolve_entries p s;
                     (started, a) = arinc653_start_frame now (arinc_ctl s p);
                     s = upd_arinc p (\<lambda>_. a) s
                 in if started then (0, make_reschedule_request p s) else (- EIO, s)
        | _ \<Rightarrow> (- EINVAL, s))"

definition arinc653_config_of :: "sched_arinc653_control \<Rightarrow> sched_arinc653_config" where
  "arinc653_config_of a =
     \<lparr>cfg_major_frame_us = major_frame_us a, cfg_entry_count = entry_count a, cfg_reserved = 0,
      cfg_entries = map (\<lambda>i. if i < entry_count a
          then \<lparr>cfg_vm_id = ent_vm_id (entries a ! i), cfg_vcpu_id = ent_vcpu_id (entries a ! i),
                cfg_runtime_us = ent_runtime_us (entries a ! i)\<rparr>
          else \<lparr>cfg_vm_id = 0, cfg_vcpu_id = 0, cfg_runtime_us = 0\<rparr>) [0..<SCHED_ARINC653_MAX_ENTRIES]\<rparr>"

text \<open>\<open>out\<close> tells whether the caller's pointer is set; the second result is what is written there.\<close>

definition sched_arinc653_get_schedule ::
  "nat \<Rightarrow> bool \<Rightarrow> sched_sys \<Rightarrow> int \<times> sched_arinc653_config option" where
  "sched_arinc653_get_schedule p out s =
     (if p \<ge> pcpu_nums s \<or> \<not> out then (- EINVAL, None)
      else if scheduler (sched_ctls s p) \<noteq> Some Sched_arinc653 \<or> \<not> priv (sched_ctls s p) then (- ENODEV, None)
      else (0, Some (arinc653_config_of (arinc_ctl s p))))"

section \<open>Hooks\<close>

definition zero_entry :: sched_arinc653_entry where
  "zero_entry = \<lparr>ent_vm_id = 0, ent_vcpu_id = 0, ent_runtime_us = 0, ent_runtime_ticks = 0, ent_obj = None\<rparr>"

definition sched_arinc653_init :: "nat \<Rightarrow> sched_sys \<Rightarrow> sched_sys" where
  "sched_arinc653_init c s =
     (let s = assertion (ctl_pcpu_id (sched_ctls s c) = cur_pcpu s) ''init ARINC653 on wrong cpu!'' s;
          s = upd_ctl c (\<lambda>ct. ct\<lparr>priv := True\<rparr>) s;
          s = s\<lparr>arinc_lists := INIT_LIST_HEAD (ThreadList c) (arinc_lists s)\<rparr>;
          s = initialize_timer (Some (ArincWindow c)) (Some Arinc653_timer_handler) c 0 0 s
      in upd_arinc c (\<lambda>_. \<lparr>entries = replicate SCHED_ARINC653_MAX_ENTRIES zero_entry, major_frame_ticks = 0,
           frame_start_ticks = 0, next_major_frame_ticks = 0, next_switch_ticks = 0,
           arinc_timer_deadline_ticks = 0, major_frame_us = 0, entry_count = 0, sched_index = 0,
           suspended = False\<rparr>) s)"

definition sched_arinc653_deinit :: "nat \<Rightarrow> sched_sys \<Rightarrow> sched_sys" where
  "sched_arinc653_deinit c s =
     (let s = assertion (ctl_pcpu_id (sched_ctls s c) = cur_pcpu s) ''deinit ARINC653 on wrong cpu!'' s;
          s = del_timer (Some (ArincWindow c)) s;
          s = upd_arinc c (\<lambda>a. a\<lparr>arinc_timer_deadline_ticks := 0, entry_count := 0\<rparr>) s
      in upd_ctl c (\<lambda>ct. ct\<lparr>priv := False\<rparr>) s)"

definition sched_arinc653_init_data :: "thread_ref \<Rightarrow> sched_params \<Rightarrow> sched_sys \<Rightarrow> sched_sys" where
  "sched_arinc653_init_data t params s =
     (let c = pcpu_id (threads s t);
          s = s\<lparr>arinc_lists := INIT_LIST_HEAD (ThreadNode t) (arinc_lists s)\<rparr>
      in if is_vcpu (threads s t) then
           arinc653_resolve_entries c
             (s\<lparr>arinc_lists := list_add_tail (ThreadNode t) (ThreadList c) (arinc_lists s)\<rparr>)
         else s)"

definition sched_arinc653_deinit_data :: "thread_ref \<Rightarrow> sched_sys \<Rightarrow> sched_sys" where
  "sched_arinc653_deinit_data t s =
     (let c = pcpu_id (threads s t);
          s = (if \<not> list_empty (ThreadNode t) (arinc_lists s)
               then s\<lparr>arinc_lists := list_del_init (ThreadNode t) (arinc_lists s)\<rparr> else s)
      in fold (\<lambda>i s. if ent_obj (entries (arinc_ctl s c) ! i) = Some t
                     then upd_arinc c (set_entry i (\<lambda>e. e\<lparr>ent_obj := None\<rparr>)) s else s)
           [0..<entry_count (arinc_ctl s c)] s)"

text \<open>The test of the owner of a window in \<open>sched_arinc653_pick_next\<close>.\<close>

definition arinc653_may_run :: "nat \<Rightarrow> thread_ref \<Rightarrow> sched_sys \<Rightarrow> bool" where
  "arinc653_may_run p t s \<longleftrightarrow>
     is_vcpu (threads s t) \<and> pcpu_id (threads s t) = p \<and> \<not> be_blocking (threads s t)
     \<and> (status (threads s t) = THREAD_STS_RUNNABLE \<or> status (threads s t) = THREAD_STS_RUNNING)"

definition sched_arinc653_pick_next :: "nat \<Rightarrow> sched_sys \<Rightarrow> thread_ref \<times> sched_sys" where
  "sched_arinc653_pick_next c s =
     (let idle = idle_var s;
          now = cpu_ticks s;
          s = tick_read s;
          (valid, deadline, a) =
            (if \<not> suspended (arinc_ctl s c) then arinc653_advance now (arinc_ctl s c) else (False, 0, arinc_ctl s c));
          s = upd_arinc c (\<lambda>_. a) s;
          next = (if valid \<and> sched_index a < entry_count a then
                    case ent_obj (entries a ! sched_index a) of
                      Some candidate \<Rightarrow>
                        if arinc653_may_run (ctl_pcpu_id (sched_ctls s c)) candidate s then candidate else idle
                    | None \<Rightarrow> idle
                  else idle);
          (armed, s) = arinc653_program_local_timer c deadline s
      in (if armed then next else idle, s))"

definition sched_arinc653_suspend :: "nat \<Rightarrow> sched_sys \<Rightarrow> sched_sys" where
  "sched_arinc653_suspend c s =
     (let s = assertion (ctl_pcpu_id (sched_ctls s c) = cur_pcpu s) ''suspend ARINC653 on wrong cpu!'' s;
          s = del_timer (Some (ArincWindow c)) s
      in upd_arinc c (\<lambda>a. a\<lparr>arinc_timer_deadline_ticks := 0, suspended := True\<rparr>) s)"

definition sched_arinc653_resume :: "nat \<Rightarrow> sched_sys \<Rightarrow> sched_sys" where
  "sched_arinc653_resume c s =
     (let s = assertion (ctl_pcpu_id (sched_ctls s c) = cur_pcpu s) ''resume ARINC653 on wrong cpu!'' s;
          s = upd_arinc c (\<lambda>a. a\<lparr>suspended := False\<rparr>) s
      in if entry_count (arinc_ctl s c) \<noteq> 0 then
           let now = cpu_ticks s;
               s = tick_read s;
               s = upd_arinc c (\<lambda>a. snd (arinc653_start_frame now a)) s
           in make_reschedule_request (ctl_pcpu_id (sched_ctls s c)) s
         else s)"

definition sched_arinc653 :: acrn_scheduler where
  "sched_arinc653 = \<lparr>sched_name = ''arinc653'', stat_desc = ''fixed major/minor frame'',
     hook_init = Some sched_arinc653_init, hook_init_data = Some sched_arinc653_init_data,
     hook_pick_next = Some sched_arinc653_pick_next, hook_sleep = None, hook_wake = None,
     hook_yield = None, hook_prioritize = None,
     hook_deinit_data = Some sched_arinc653_deinit_data, hook_deinit = Some sched_arinc653_deinit,
     hook_suspend = Some sched_arinc653_suspend, hook_resume = Some sched_arinc653_resume\<rparr>"

section \<open>Frames of the operations\<close>

lemma upd_arinc_simps [simp]:
  "arinc_ctl (upd_arinc c f s) = (arinc_ctl s)(c := f (arinc_ctl s c))" "threads (upd_arinc c f s) = threads s"
  "sched_ctls (upd_arinc c f s) = sched_ctls s" "arinc_lists (upd_arinc c f s) = arinc_lists s"
  "timer_ok (upd_arinc c f s) = timer_ok s" "cur_pcpu (upd_arinc c f s) = cur_pcpu s" "fault (upd_arinc c f s) = fault s"
  "timers (upd_arinc c f s) = timers s" "timer_list (upd_arinc c f s) = timer_list s" "tsc (upd_arinc c f s) = tsc s"
  "khz (upd_arinc c f s) = khz s"
  by (simp_all add: upd_arinc_def)

lemma upd_arinc_frame [simp, intro]: "hook_frame s (upd_arinc c f s)"
  by (simp add: upd_arinc_def)

lemmas arinc_steps = hook_frame_steps upd_arinc_frame [THEN hook_frame_trans [rotated]]

lemma arinc_ctl_timer_ops [simp]:
  "arinc_ctl (snd (add_timer tr s)) = arinc_ctl s" "arinc_ctl (update_timer tr d k s) = arinc_ctl s"
  "arinc_ctl (del_timer tr s) = arinc_ctl s" "arinc_ctl (assertion b m s) = arinc_ctl s" "arinc_ctl (tick_read s) = arinc_ctl s"
  by simp_all

lemma arinc653_program_frames [simp, intro]:
  "hook_frame s (snd (arinc653_program_local_timer c d s))"
  "timer_ok s \<Longrightarrow> timer_ok (snd (arinc653_program_local_timer c d s))"
  "(arinc_ctl (snd (arinc653_program_local_timer c d s)) q)\<lparr>arinc_timer_deadline_ticks := x\<rparr>
     = (arinc_ctl s q)\<lparr>arinc_timer_deadline_ticks := x\<rparr>"
proof -
  show "hook_frame s (snd (arinc653_program_local_timer c d s))"
    unfolding arinc653_program_local_timer_def Let_def split_def by (auto intro!: arinc_steps hook_frame_refl)
  show "timer_ok s \<Longrightarrow> timer_ok (snd (arinc653_program_local_timer c d s))"
    by (auto simp: arinc653_program_local_timer_def Let_def split_def timer_ok_rearm timer_ok_del timer_ok_assertion)
  show "(arinc_ctl (snd (arinc653_program_local_timer c d s)) q)\<lparr>arinc_timer_deadline_ticks := x\<rparr>
     = (arinc_ctl s q)\<lparr>arinc_timer_deadline_ticks := x\<rparr>"
    by (auto simp: arinc653_program_local_timer_def Let_def split_def)
qed

lemma arinc653_timer_handler_frames:
  "timer_ok s \<Longrightarrow> timer_ok (arinc653_timer_handler c s)" "cur_pcpu (arinc653_timer_handler c s) = cur_pcpu s"
  "func (timers (arinc653_timer_handler c s) t) = func (timers s t)"
  "fault s \<noteq> None \<Longrightarrow> fault (arinc653_timer_handler c s) \<noteq> None"
proof -
  define s1 where "s1 = upd_arinc c (\<lambda>a. a\<lparr>arinc_timer_deadline_ticks := 0\<rparr>)
    (assertion (ctl_pcpu_id (sched_ctls s c) = cur_pcpu s) ''ARINC653 timer on wrong cpu!'' s)"
  have F: "hook_frame s s1" "timer_ok s \<Longrightarrow> timer_ok s1"
    unfolding s1_def by (auto intro!: arinc_steps hook_frame_refl simp: timer_ok_assertion)
  have h: "arinc653_timer_handler c s = make_reschedule_request (cur_pcpu s) (sched_account_tick c s1)"
    by (simp add: arinc653_timer_handler_def s1_def Let_def)
  have P: "policy_same s1 (arinc653_timer_handler c s)"
    unfolding h by (rule policy_same_trans [of _ "sched_account_tick c s1"]) (simp_all add: sched_account_tick_def)
  show "timer_ok s \<Longrightarrow> timer_ok (arinc653_timer_handler c s)" using F policy_same_timer_ok [OF P] by simp
  show "cur_pcpu (arinc653_timer_handler c s) = cur_pcpu s" "func (timers (arinc653_timer_handler c s) t) = func (timers s t)"
    "fault s \<noteq> None \<Longrightarrow> fault (arinc653_timer_handler c s) \<noteq> None"
    using P hook_frameD(14,24,29) [OF F(1)] by (simp_all add: policy_same_def)
qed

section \<open>The invariant\<close>

text \<open>Where window \<open>i\<close> begins, in ticks from the start of its frame.\<close>

definition arinc_offset :: "sched_arinc653_control \<Rightarrow> nat \<Rightarrow> nat" where
  "arinc_offset a i = sum_list (map (\<lambda>j. unat (ent_runtime_ticks (entries a ! j))) [0..<i])"

definition arinc_table :: "sched_arinc653_control \<Rightarrow> bool" where
  "arinc_table a \<longleftrightarrow>
     length (entries a) = SCHED_ARINC653_MAX_ENTRIES \<and> entry_count a \<le> SCHED_ARINC653_MAX_ENTRIES
     \<and> (\<forall>i < entry_count a. ent_runtime_ticks (entries a ! i) \<noteq> 0)
     \<and> arinc_offset a (entry_count a) \<le> unat (major_frame_ticks a)"

text \<open>A frame runs from \<open>frame_start_ticks\<close> to \<open>next_major_frame_ticks\<close>, and the next switch is the end of the window.\<close>

definition arinc_frame :: "sched_arinc653_control \<Rightarrow> bool" where
  "arinc_frame a \<longleftrightarrow>
     unat (next_major_frame_ticks a) = unat (frame_start_ticks a) + unat (major_frame_ticks a)
     \<and> unat (next_switch_ticks a) = unat (frame_start_ticks a) + arinc_offset a (min (sched_index a + 1) (entry_count a))
     \<and> sched_index a \<le> entry_count a"

text \<open>A frame that would reach past the end of the counter is not begun.\<close>

definition arinc_stalled :: "sched_arinc653_control \<Rightarrow> bool" where
  "arinc_stalled a \<longleftrightarrow>
     next_major_frame_ticks a \<le> frame_start_ticks a
     \<and> 2 ^ 64 \<le> unat (frame_start_ticks a) + unat (major_frame_ticks a)"

definition arinc_ok :: "sched_arinc653_control \<Rightarrow> bool" where
  "arinc_ok a \<longleftrightarrow> arinc_table a \<and> (next_major_frame_ticks a = 0 \<or> arinc_frame a \<or> arinc_stalled a)"

lemma arinc_offset_0 [simp]: "arinc_offset a 0 = 0"
  and arinc_offset_Suc [simp]: "arinc_offset a (Suc i) = arinc_offset a i + unat (ent_runtime_ticks (entries a ! i))"
  by (simp_all add: arinc_offset_def)

lemma arinc_offset_mono: "i \<le> j \<Longrightarrow> arinc_offset a i \<le> arinc_offset a j"
  by (rule lift_Suc_mono_le [where f = "arinc_offset a"]) simp_all

lemma arinc_offset_cong: "entries a' = entries a \<Longrightarrow> arinc_offset a' = arinc_offset a"
  by (simp add: arinc_offset_def fun_eq_iff)

text \<open>What the frame computation may change.\<close>

definition arinc_moved :: "sched_arinc653_control \<Rightarrow> sched_arinc653_control \<Rightarrow> bool" where
  "arinc_moved a a' \<longleftrightarrow>
     entries a' = entries a \<and> entry_count a' = entry_count a \<and> major_frame_ticks a' = major_frame_ticks a
     \<and> major_frame_us a' = major_frame_us a \<and> suspended a' = suspended a
     \<and> arinc_timer_deadline_ticks a' = arinc_timer_deadline_ticks a"

lemma arinc_moved_refl [simp]: "arinc_moved a a"
  by (simp add: arinc_moved_def)

lemma arinc_moved_trans: "arinc_moved a b \<Longrightarrow> arinc_moved b c \<Longrightarrow> arinc_moved a c"
  by (simp add: arinc_moved_def)

lemma arinc_moved_table: "arinc_moved a a' \<Longrightarrow> arinc_table a' = arinc_table a"
  using arinc_offset_cong [of a' a] by (simp add: arinc_moved_def arinc_table_def)

lemma fits_before_end: "m \<le> UINT64_MAX - x \<longleftrightarrow> unat x + unat m < 2 ^ 64" for m x :: u64
proof -
  have "unat (UINT64_MAX - x) = 2 ^ 64 - 1 - unat x"
    using unat_sub [of x UINT64_MAX] by (simp add: unsigned_minus_1_eq_mask mask_eq_exp_minus_1)
  then show ?thesis using unsigned_less [of x, where ?'a = nat] by (simp add: word_le_nat_alt) linarith
qed

lemma arinc_new_frame:
  assumes T: "arinc_table a" and "entry_count a \<noteq> 0" and fit: "unat x + unat (major_frame_ticks a) < 2 ^ 64"
  defines "a' \<equiv> a\<lparr>frame_start_ticks := x, next_major_frame_ticks := x + major_frame_ticks a, sched_index := 0,
      next_switch_ticks := x + ent_runtime_ticks (entries a ! 0)\<rparr>"
  shows "arinc_frame a'" and "arinc_moved a a'"
proof -
  have "arinc_offset a 1 \<le> arinc_offset a (entry_count a)" using assms(2) by (intro arinc_offset_mono) simp
  then have w: "unat (ent_runtime_ticks (entries a ! 0)) \<le> unat (major_frame_ticks a)" using T by (simp add: arinc_table_def)
  have o: "arinc_offset a' = arinc_offset a" by (rule arinc_offset_cong) (simp add: a'_def)
  have m: "min (Suc 0) (entry_count a) = 1" using assms(2) by simp
  have "unat (x + major_frame_ticks a) = unat x + unat (major_frame_ticks a)" using fit by (intro unat_add_nowrap) simp
  moreover have "unat (x + ent_runtime_ticks (entries a ! 0)) = unat x + unat (ent_runtime_ticks (entries a ! 0))"
    using fit w by (intro unat_add_nowrap) simp
  ultimately show "arinc_frame a'" unfolding arinc_frame_def o by (simp add: a'_def m)
  show "arinc_moved a a'" by (simp add: arinc_moved_def a'_def)
qed

lemma arinc653_start_frame_ok:
  assumes "arinc_table a" and "arinc653_start_frame now a = (v, a')"
  shows "arinc_moved a a'"
    and "v \<Longrightarrow> arinc_frame a' \<and> frame_start_ticks a' = now \<and> sched_index a' = 0 \<and> now < next_major_frame_ticks a'"
    and "\<not> v \<Longrightarrow> a' = a"
    and "v \<longleftrightarrow> entry_count a \<noteq> 0 \<and> major_frame_ticks a \<noteq> 0 \<and> unat now + unat (major_frame_ticks a) < 2 ^ 64"
proof -
  show vd: "v \<longleftrightarrow> entry_count a \<noteq> 0 \<and> major_frame_ticks a \<noteq> 0 \<and> unat now + unat (major_frame_ticks a) < 2 ^ 64"
    using assms(2) by (auto simp: arinc653_start_frame_def fits_before_end split: if_splits)
  show na: "\<not> v \<Longrightarrow> a' = a" using assms(2) by (auto simp: arinc653_start_frame_def split: if_splits)
  have a': "a' = a\<lparr>frame_start_ticks := now, next_major_frame_ticks := now + major_frame_ticks a, sched_index := 0,
      next_switch_ticks := now + ent_runtime_ticks (entries a ! 0)\<rparr>" if v
    using assms(2) that by (auto simp: arinc653_start_frame_def split: if_splits)
  have N: "arinc_frame a'" "arinc_moved a a'" if v
    using arinc_new_frame [OF assms(1), of now] vd a' that by simp_all
  then show "arinc_moved a a'" using na by (cases v) auto
  show "arinc_frame a' \<and> frame_start_ticks a' = now \<and> sched_index a' = 0 \<and> now < next_major_frame_ticks a'" if v
  proof -
    have "0 < unat (major_frame_ticks a)" using vd that by (simp add: unat_gt_0)
    then have "now < now + major_frame_ticks a" using vd that by (simp add: word_less_nat_alt unat_add_nowrap)
    then show ?thesis using N [OF that] a' [OF that] by simp
  qed
qed

lemma arinc653_reframe_ok:
  assumes ok: "arinc_ok a" and nz: "entry_count a \<noteq> 0" "major_frame_ticks a \<noteq> 0" and r: "arinc653_reframe now a = (v, a')"
  shows "arinc_moved a a'" and "arinc_ok a'"
    and "v \<Longrightarrow> arinc_frame a' \<and> frame_start_ticks a' \<le> now \<and> now < next_major_frame_ticks a'"
    and "unat now + unat (major_frame_ticks a) < 2 ^ 64 \<Longrightarrow> v"
    and "v \<Longrightarrow> sched_index a' = 0 \<or> a' = a"
    and "v \<Longrightarrow> next_major_frame_ticks a \<noteq> 0 \<Longrightarrow> frame_start_ticks a \<le> now \<Longrightarrow> arinc_frame a \<Longrightarrow>
      \<exists>k. unat (frame_start_ticks a') = unat (frame_start_ticks a) + k * unat (major_frame_ticks a)"
proof -
  have T: "arinc_table a" using ok by (simp add: arinc_ok_def)
  have mp: "0 < unat (major_frame_ticks a)" using nz(2) by (simp add: unat_gt_0)
  define x where "x = now - (now - next_major_frame_ticks a) mod major_frame_ticks a"
  have "arinc_moved a a' \<and> arinc_ok a' \<and> (v \<longrightarrow> arinc_frame a' \<and> frame_start_ticks a' \<le> now \<and> now < next_major_frame_ticks a')
    \<and> (unat now + unat (major_frame_ticks a) < 2 ^ 64 \<longrightarrow> v) \<and> (v \<longrightarrow> sched_index a' = 0 \<or> a' = a)
    \<and> (v \<and> next_major_frame_ticks a \<noteq> 0 \<and> frame_start_ticks a \<le> now \<and> arinc_frame a \<longrightarrow>
      (\<exists>k. unat (frame_start_ticks a') = unat (frame_start_ticks a) + k * unat (major_frame_ticks a)))"
  proof -
    consider (start) "next_major_frame_ticks a = 0 \<or> now < frame_start_ticks a"
      | (late) "next_major_frame_ticks a \<noteq> 0" "\<not> now < frame_start_ticks a" "next_major_frame_ticks a \<le> now"
      | (within) "next_major_frame_ticks a \<noteq> 0" "\<not> now < frame_start_ticks a" "\<not> next_major_frame_ticks a \<le> now" by blast
    then show ?thesis
    proof cases
      case start
      then have e: "arinc653_start_frame now a = (v, a')" using r by (simp add: arinc653_reframe_def)
      note S = arinc653_start_frame_ok [OF T e]
      have "arinc_ok a'" using S ok arinc_moved_table [OF S(1)] by (cases v) (auto simp: arinc_ok_def)
      then show ?thesis using S start nz by (auto dest: leD)
    next
      case late
      let ?rem = "(now - next_major_frame_ticks a) mod major_frame_ticks a"
      have ur: "unat ?rem = (unat now - unat (next_major_frame_ticks a)) mod unat (major_frame_ticks a)"
        using late(3) by (simp add: unat_mod_distrib unat_diff_le)
      have le: "unat ?rem \<le> unat now - unat (next_major_frame_ticks a)" "unat ?rem < unat (major_frame_ticks a)"
        unfolding ur using mp by (simp_all add: mod_less_eq_dividend)
      then have ux: "unat x = unat now - unat ?rem" unfolding x_def by (intro unat_diff_le) (simp add: word_le_nat_alt)
      have xn: "x \<le> now" "unat now < unat x + unat (major_frame_ticks a)" "next_major_frame_ticks a \<le> x"
        using ux le late(3) by (simp_all add: word_le_nat_alt)
      have grid: "\<exists>k. unat x = unat (frame_start_ticks a) + k * unat (major_frame_ticks a)" if "arinc_frame a"
      proof -
        define q where "q = (unat now - unat (next_major_frame_ticks a)) div unat (major_frame_ticks a)"
        have "unat now - unat (next_major_frame_ticks a) = q * unat (major_frame_ticks a) + unat ?rem"
          unfolding q_def ur by simp
        then have "unat x = unat (next_major_frame_ticks a) + q * unat (major_frame_ticks a)"
          using ux le(1) late(3) by (simp add: word_le_nat_alt)
        then have "unat x = unat (frame_start_ticks a) + (q + 1) * unat (major_frame_ticks a)"
          using that by (simp add: arinc_frame_def)
        then show ?thesis by blast
      qed
      show ?thesis
      proof (cases "unat x + unat (major_frame_ticks a) < 2 ^ 64")
        case True
        define b where "b = a\<lparr>frame_start_ticks := x, next_major_frame_ticks := x + major_frame_ticks a, sched_index := 0,
          next_switch_ticks := x + ent_runtime_ticks (entries a ! 0)\<rparr>"
        have e: "v = True" "a' = b" using r late True
          by (auto simp: arinc653_reframe_def Let_def x_def [symmetric] fits_before_end b_def)
        note N = arinc_new_frame [OF T nz(1) True, folded b_def]
        have "now < x + major_frame_ticks a" using True xn(2) by (simp add: word_less_nat_alt unat_add_nowrap)
        then show ?thesis using N e xn(1) grid arinc_moved_table [OF N(2)] T by (auto simp: b_def arinc_ok_def)
      next
        case False
        have e: "v = False" "a' = a\<lparr>frame_start_ticks := x\<rparr>" using r late False
          by (auto simp: arinc653_reframe_def Let_def x_def [symmetric] fits_before_end)
        have m: "arinc_moved a a'" by (simp add: e arinc_moved_def)
        moreover have "arinc_stalled a'" using False xn(3) by (simp add: e arinc_stalled_def)
        moreover have "unat x \<le> unat now" using xn(1) by (simp add: word_le_nat_alt)
        ultimately show ?thesis using False T arinc_moved_table [OF m] e by (auto simp: arinc_ok_def)
      qed
    next
      case within
      then have e: "v = True" "a' = a" using r by (simp_all add: arinc653_reframe_def)
      have "\<not> arinc_stalled a" using within by (auto simp: arinc_stalled_def)
      then have "arinc_frame a" using ok within by (simp add: arinc_ok_def)
      moreover have "\<exists>k. unat (frame_start_ticks a) = unat (frame_start_ticks a) + k * unat (major_frame_ticks a)" by (intro exI [of _ 0]) simp
      ultimately show ?thesis using e within ok by auto
    qed
  qed
  then show "arinc_moved a a'" "arinc_ok a'" "v \<Longrightarrow> arinc_frame a' \<and> frame_start_ticks a' \<le> now \<and> now < next_major_frame_ticks a'"
    "unat now + unat (major_frame_ticks a) < 2 ^ 64 \<Longrightarrow> v" "v \<Longrightarrow> sched_index a' = 0 \<or> a' = a"
    "v \<Longrightarrow> next_major_frame_ticks a \<noteq> 0 \<Longrightarrow> frame_start_ticks a \<le> now \<Longrightarrow> arinc_frame a \<Longrightarrow>
      \<exists>k. unat (frame_start_ticks a') = unat (frame_start_ticks a) + k * unat (major_frame_ticks a)" by blast+
qed

text \<open>The loop stops in the window that holds \<open>now\<close>; the bound on its steps does not matter.\<close>

lemma arinc653_advance_loop_ok:
  fixes n now a
  defines "a' \<equiv> arinc653_advance_loop n now a"
  assumes "arinc_table a" and "arinc_frame a" and "frame_start_ticks a \<le> now"
    and "entry_count a - sched_index a \<le> n"
  shows "arinc_moved a a'" and "arinc_frame a'" and "frame_start_ticks a' = frame_start_ticks a"
    and "next_major_frame_ticks a' = next_major_frame_ticks a"
    and "sched_index a' < entry_count a' \<Longrightarrow> now < next_switch_ticks a'"
    and "unat (frame_start_ticks a) + arinc_offset a (sched_index a) \<le> unat now \<Longrightarrow>
      unat (frame_start_ticks a) + arinc_offset a (sched_index a') \<le> unat now"
proof -
  have "arinc_moved a a' \<and> arinc_frame a' \<and> frame_start_ticks a' = frame_start_ticks a
    \<and> next_major_frame_ticks a' = next_major_frame_ticks a
    \<and> (sched_index a' < entry_count a' \<longrightarrow> now < next_switch_ticks a')
    \<and> (unat (frame_start_ticks a) + arinc_offset a (sched_index a) \<le> unat now \<longrightarrow>
      unat (frame_start_ticks a) + arinc_offset a (sched_index a') \<le> unat now)"
    using assms(2-) unfolding a'_def
  proof (induction n arbitrary: a)
    case 0
    then show ?case by (simp add: arinc_frame_def)
  next
    case (Suc n)
    let ?i = "sched_index a"
    show ?case
    proof (cases "?i < entry_count a \<and> now \<ge> next_switch_ticks a")
      case True
      define b where "b = (if ?i + 1 < entry_count a
        then a\<lparr>sched_index := ?i + 1, next_switch_ticks := next_switch_ticks a + ent_runtime_ticks (entries a ! (?i + 1))\<rparr>
        else a\<lparr>sched_index := ?i + 1\<rparr>)"
      have l: "arinc653_advance_loop (Suc n) now a = arinc653_advance_loop n now b"
        using True by (simp add: Let_def b_def)
      have m: "arinc_moved a b" and fs: "frame_start_ticks b = frame_start_ticks a"
        "next_major_frame_ticks b = next_major_frame_ticks a" "sched_index b = ?i + 1"
        by (auto simp: b_def arinc_moved_def)
      have o: "arinc_offset b = arinc_offset a" using m by (intro arinc_offset_cong) (simp add: arinc_moved_def)
      have cnt: "entry_count b = entry_count a" "major_frame_ticks b = major_frame_ticks a" using m by (simp_all add: arinc_moved_def)
      have sw: "unat (next_switch_ticks a) = unat (frame_start_ticks a) + arinc_offset a (?i + 1)"
        using Suc.prems(2) True by (simp add: arinc_frame_def min_def)
      have "unat (next_switch_ticks b) = unat (frame_start_ticks a) + arinc_offset a (min (?i + 2) (entry_count a))"
      proof (cases "?i + 1 < entry_count a")
        case t: True
        have "arinc_offset a (?i + 2) \<le> arinc_offset a (entry_count a)" using t by (intro arinc_offset_mono) simp
        then have "unat (frame_start_ticks a) + arinc_offset a (?i + 2) \<le> unat (next_major_frame_ticks a)"
          using Suc.prems(1,2) by (simp add: arinc_table_def arinc_frame_def)
        moreover have "unat (next_major_frame_ticks a) < 2 ^ 64" using unsigned_less [of "next_major_frame_ticks a", where ?'a = nat] by simp
        moreover have o2: "arinc_offset a (?i + 2) = arinc_offset a (?i + 1) + unat (ent_runtime_ticks (entries a ! (?i + 1)))"
          using arinc_offset_Suc [of a "?i + 1"] by simp
        ultimately have "unat (next_switch_ticks a) + unat (ent_runtime_ticks (entries a ! (?i + 1))) < 2 ^ 64"
          unfolding sw by linarith
        then have "unat (next_switch_ticks a + ent_runtime_ticks (entries a ! (?i + 1)))
            = unat (next_switch_ticks a) + unat (ent_runtime_ticks (entries a ! (?i + 1)))" by (intro unat_add_nowrap) simp
        then have "unat (next_switch_ticks a + ent_runtime_ticks (entries a ! (?i + 1)))
            = unat (frame_start_ticks a) + arinc_offset a (?i + 2)" using sw o2 by linarith
        then show ?thesis using t by (simp add: b_def min_def)
      next
        case False
        then have "entry_count a = ?i + 1" using True by simp
        then show ?thesis using sw by (simp add: b_def)
      qed
      then have fr: "arinc_frame b" using Suc.prems(2) True fs by (simp add: arinc_frame_def cnt o)
      have tb: "arinc_table b" using Suc.prems(1) arinc_moved_table [OF m] by simp
      have st: "unat (frame_start_ticks b) + arinc_offset b (sched_index b) \<le> unat now"
        using sw True by (simp add: fs o word_le_nat_alt)
      have "frame_start_ticks b \<le> now" "entry_count b - sched_index b \<le> n" using Suc.prems(3,4) True by (simp_all add: fs cnt)
      from Suc.IH [OF tb fr this] show ?thesis
        unfolding l using m st by (auto simp: fs o intro: arinc_moved_trans)
    next
      case False
      then have "arinc653_advance_loop (Suc n) now a = a" by auto
      then show ?thesis using False Suc.prems(2) by auto
    qed
  qed
  then show "arinc_moved a a'" "arinc_frame a'" "frame_start_ticks a' = frame_start_ticks a"
    "next_major_frame_ticks a' = next_major_frame_ticks a" "sched_index a' < entry_count a' \<Longrightarrow> now < next_switch_ticks a'"
    "unat (frame_start_ticks a) + arinc_offset a (sched_index a) \<le> unat now \<Longrightarrow>
      unat (frame_start_ticks a) + arinc_offset a (sched_index a') \<le> unat now" by blast+
qed

text \<open>
  \<open>now\<close> lies in the part of the frame that the index names: its window, or the idle tail. The clock
  has not gone back within the frame when \<open>arinc_not_ahead\<close> holds before the call.
\<close>

definition arinc_not_ahead :: "u64 \<Rightarrow> sched_arinc653_control \<Rightarrow> bool" where
  "arinc_not_ahead now a \<longleftrightarrow>
     (frame_start_ticks a \<le> now \<and> now < next_major_frame_ticks a \<longrightarrow>
        unat (frame_start_ticks a) + arinc_offset a (sched_index a) \<le> unat now)"

definition arinc_at :: "u64 \<Rightarrow> sched_arinc653_control \<Rightarrow> bool" where
  "arinc_at now a \<longleftrightarrow>
     arinc_frame a \<and> frame_start_ticks a \<le> now \<and> now < next_major_frame_ticks a
     \<and> arinc_offset a (sched_index a) \<le> unat now - unat (frame_start_ticks a)
     \<and> (sched_index a < entry_count a \<longrightarrow> unat now - unat (frame_start_ticks a) < arinc_offset a (sched_index a + 1))"

definition arinc_end :: "sched_arinc653_control \<Rightarrow> nat" where
  "arinc_end a =
     (if sched_index a < entry_count a then unat (frame_start_ticks a) + arinc_offset a (sched_index a + 1)
      else unat (frame_start_ticks a) + unat (major_frame_ticks a))"

lemma arinc653_advance_ok:
  assumes ok: "arinc_ok a" and r: "arinc653_advance now a = (v, d, a')"
  shows "arinc_moved a a'" and "arinc_ok a'"
    and "v \<Longrightarrow> arinc_not_ahead now a \<Longrightarrow> arinc_at now a'"
    and "v \<Longrightarrow> now < d \<and> unat d = arinc_end a'"
    and "\<not> v \<Longrightarrow> d = 0"
    and "v \<longleftrightarrow> entry_count a \<noteq> 0 \<and> major_frame_ticks a \<noteq> 0 \<and> fst (arinc653_reframe now a)"
proof -
  show "arinc_moved a a'" "arinc_ok a'" "v \<Longrightarrow> arinc_not_ahead now a \<Longrightarrow> arinc_at now a'"
    "v \<Longrightarrow> now < d \<and> unat d = arinc_end a'" "\<not> v \<Longrightarrow> d = 0"
    "v \<longleftrightarrow> entry_count a \<noteq> 0 \<and> major_frame_ticks a \<noteq> 0 \<and> fst (arinc653_reframe now a)"
  proof (atomize(full), goal_cases)
    case 1
    show ?case
    proof (cases "entry_count a = 0 \<or> major_frame_ticks a = 0")
      case True
      then show ?thesis using r ok by (auto simp: arinc653_advance_def)
    next
      case False
      then have nz: "entry_count a \<noteq> 0" "major_frame_ticks a \<noteq> 0" by simp_all
      obtain w b where f: "arinc653_reframe now a = (w, b)" by fastforce
      note R = arinc653_reframe_ok [OF ok nz f]
      show ?thesis
      proof (cases w)
        case False
        then have "v = False" "d = 0" "a' = b" using r f nz by (simp_all add: arinc653_advance_def)
        then show ?thesis using R f False by simp
      next
        case True
        define l where "l = arinc653_advance_loop SCHED_ARINC653_MAX_ENTRIES now b"
        have T: "arinc_table b" using R(2) by (simp add: arinc_ok_def)
        have F: "arinc_frame b" "frame_start_ticks b \<le> now" "now < next_major_frame_ticks b" using R(3) True by simp_all
        have "entry_count b \<le> SCHED_ARINC653_MAX_ENTRIES" using T by (simp add: arinc_table_def)
        then have "entry_count b - sched_index b \<le> SCHED_ARINC653_MAX_ENTRIES" by (rule order_trans [OF diff_le_self])
        note L = arinc653_advance_loop_ok [OF T F(1,2) this, folded l_def]
        define dl where "dl = (if sched_index l < entry_count l then next_switch_ticks l else next_major_frame_ticks l)"
        have "arinc653_advance now a = (dl > now, dl, l)"
          using nz True by (simp add: arinc653_advance_def Let_def l_def dl_def f)
        then have e: "v = (dl > now)" "d = dl" "a' = l" using r by simp_all
        have dn: "now < dl" using L(4,5) F(3) by (simp add: dl_def)
        have o: "arinc_offset l = arinc_offset b" using L(1) by (intro arinc_offset_cong) (simp add: arinc_moved_def)
        have de: "unat dl = arinc_end l" using L(2) by (simp add: dl_def arinc_end_def arinc_frame_def min_def)
        have m: "arinc_moved a l" using R(1) L(1) by (rule arinc_moved_trans)
        have at: "arinc_at now l" if "arinc_not_ahead now a"
        proof -
          have "unat (frame_start_ticks b) + arinc_offset b (sched_index b) \<le> unat now"
            using R(5) True F that by (auto simp: arinc_not_ahead_def word_le_nat_alt)
          then have 1: "unat (frame_start_ticks l) + arinc_offset l (sched_index l) \<le> unat now" using L(6) by (simp add: o L(3))
          have "unat now < unat (frame_start_ticks l) + arinc_offset l (sched_index l + 1)" if "sched_index l < entry_count l"
            using that dn de by (simp add: arinc_end_def word_less_nat_alt)
          then show ?thesis using 1 L(2,3,4) F by (auto simp: arinc_at_def)
        qed
        have "arinc_ok l" using L(2) T arinc_moved_table [OF L(1)] by (simp add: arinc_ok_def)
        then show ?thesis using e dn de at m f True nz by simp
      qed
    qed
  qed
qed

section \<open>Pick\<close>

definition arinc_wf :: "nat \<Rightarrow> sched_sys \<Rightarrow> bool" where
  "arinc_wf p s \<longleftrightarrow> arinc_ok (arinc_ctl s p)"

definition arinc_rq :: "nat \<Rightarrow> sched_sys \<Rightarrow> thread_ref list" where
  "arinc_rq p s = []"

lemma arinc_ok_cong:
  "a'\<lparr>arinc_timer_deadline_ticks := x\<rparr> = a\<lparr>arinc_timer_deadline_ticks := x\<rparr> \<Longrightarrow> arinc_ok a' = arinc_ok a"
  by (cases a; cases a') (simp add: arinc_ok_def arinc_table_def arinc_frame_def arinc_stalled_def arinc_offset_def)

text \<open>
  The state after the frame was advanced to the time of the call, and the owner of the window that
  the time lies in.
\<close>

definition arinc_now :: "nat \<Rightarrow> sched_sys \<Rightarrow> sched_arinc653_control" where
  "arinc_now p s = snd (snd (arinc653_advance (cpu_ticks s) (arinc_ctl s p)))"

definition arinc_owner :: "sched_arinc653_control \<Rightarrow> thread_ref option" where
  "arinc_owner a = (if sched_index a < entry_count a then ent_obj (entries a ! sched_index a) else None)"

lemma arinc_pick_eq:
  assumes "sched_arinc653_pick_next p s = (r, s')"
  defines "adv \<equiv> arinc653_advance (cpu_ticks s) (arinc_ctl s p)"
  defines "a \<equiv> if suspended (arinc_ctl s p) then arinc_ctl s p else snd (snd adv)"
    and "d \<equiv> if suspended (arinc_ctl s p) then 0 else fst (snd adv)"
    and "valid \<equiv> \<not> suspended (arinc_ctl s p) \<and> fst adv"
  defines "s1 \<equiv> upd_arinc p (\<lambda>_. a) (tick_read s)"
  shows "s' = snd (arinc653_program_local_timer p d s1)"
    and "r = (if fst (arinc653_program_local_timer p d s1) \<and> valid then
      case arinc_owner a of Some t \<Rightarrow> if arinc653_may_run (ctl_pcpu_id (sched_ctls s p)) t s then t else idle_var s | None \<Rightarrow> idle_var s
      else idle_var s)"
  using assms(1) unfolding sched_arinc653_pick_next_def Let_def
  by (auto simp: split_def s1_def a_def d_def valid_def adv_def arinc_owner_def arinc653_may_run_def split: option.splits if_splits)

lemma arinc_pick_next:
  assumes B: "base_inv p s" and W: "arinc_wf p s" and cp: "cur_pcpu s = p" and pk: "sched_arinc653_pick_next p s = (r, s')"
  shows "hook_frame s s'" and "arinc_wf p s'" and "timer_ok s \<Longrightarrow> timer_ok s'"
    and "r = Idle p \<or> eligible p r s"
    and "r \<noteq> Idle p \<Longrightarrow> arinc_owner (arinc_now p s) = Some r \<and> \<not> suspended (arinc_ctl s p)
      \<and> (arinc_not_ahead (cpu_ticks s) (arinc_ctl s p) \<longrightarrow> arinc_at (cpu_ticks s) (arinc_now p s))"
proof -
  let ?c = "arinc_ctl s p"
  define adv a d valid s1 where "adv = arinc653_advance (cpu_ticks s) ?c"
    and "a = (if suspended ?c then ?c else snd (snd adv))" and "d = (if suspended ?c then 0 else fst (snd adv))"
    and "valid \<longleftrightarrow> \<not> suspended ?c \<and> fst adv" and "s1 = upd_arinc p (\<lambda>_. a) (tick_read s)"
  note E = arinc_pick_eq [OF pk, folded adv_def, folded a_def d_def valid_def, folded s1_def]
  have ok: "arinc_ok ?c" using W by (simp add: arinc_wf_def)
  obtain v dl b where adv: "adv = (v, dl, b)" by (metis prod_cases3)
  note A = arinc653_advance_ok [OF ok, of "cpu_ticks s" v dl b, folded adv_def, OF adv]
  have F1: "hook_frame s s1" unfolding s1_def by (intro arinc_steps hook_frame_refl)
  show "hook_frame s s'" unfolding E(1) by (rule hook_frame_trans [OF F1]) simp
  show "timer_ok s \<Longrightarrow> timer_ok s'" by (simp add: E(1) s1_def)
  have "arinc_ok a" using A(2) ok by (simp add: a_def adv)
  moreover have "arinc_ctl s1 p = a" by (simp add: s1_def)
  ultimately show "arinc_wf p s'"
    using arinc_ok_cong [OF arinc653_program_frames(3)] by (simp add: E(1) arinc_wf_def)
  have id: "idle_var s = Idle p" using cp by (simp add: idle_var_def)
  have own: "arinc_owner a = Some r \<and> arinc653_may_run (ctl_pcpu_id (sched_ctls s p)) r s \<and> valid" if "r \<noteq> Idle p"
    using that E(2) id by (auto split: if_splits option.splits)
  show "r = Idle p \<or> eligible p r s"
  proof (rule disjCI)
    assume "\<not> eligible p r s"
    moreover have "eligible p r s" if "arinc653_may_run p r s"
      using that B by (auto simp: arinc653_may_run_def eligible_def base_inv_def is_blocked_def)
    moreover have "ctl_pcpu_id (sched_ctls s p) = p" using B by (simp add: base_inv_def)
    ultimately show "r = Idle p" using own by auto
  qed
  show "arinc_owner (arinc_now p s) = Some r \<and> \<not> suspended ?c
      \<and> (arinc_not_ahead (cpu_ticks s) ?c \<longrightarrow> arinc_at (cpu_ticks s) (arinc_now p s))" if "r \<noteq> Idle p"
    using own [OF that] A(3) by (auto simp: valid_def a_def arinc_now_def adv_def [symmetric] adv)
qed

interpretation arinc: sched_policy sched_arinc653 arinc_rq arinc_wf
proof unfold_locales
  fix p s pick t s'
  assume "base_inv p s" "arinc_wf p s" "cur_pcpu s = p" "hook_pick_next sched_arinc653 = Some pick" "pick p s = (t, s')"
  then show "hook_ok arinc_wf p s s' \<and> queue_inv (arinc_rq p s') p s \<and> (t = Idle p \<or> eligible p t s)"
    using arinc_pick_next [of p s t s'] by (simp add: sched_arinc653_def hook_ok_def arinc_rq_def queue_inv_def)
qed (simp_all add: arinc_rq_def arinc_wf_def policy_same_def sched_arinc653_def call_hook_def hook_ok_def)

section \<open>Owners\<close>

lemma arinc_find_walk:
  assumes "linked (arinc_lists s) (map ThreadNode ts @ [ThreadList c])"
  shows "arinc653_find_walk s (ThreadList c) vm vcpu (hd (map ThreadNode ts @ [ThreadList c]))
    = Some (List.find (\<lambda>t. vm_id (threads s t) = vm \<and> vcpu_id (threads s t) = vcpu) ts)"
  using assms
proof (induction ts)
  case Nil
  then show ?case by (simp add: arinc653_find_walk.simps)
next
  case (Cons t ts)
  then have "nxt (arinc_lists s) (ThreadNode t) = hd (map ThreadNode ts @ [ThreadList c])"
    "linked (arinc_lists s) (map ThreadNode ts @ [ThreadList c])" by (cases ts; simp)+
  then show ?case using Cons.IH by (subst arinc653_find_walk.simps) simp
qed

lemma arinc_find_thread:
  assumes "dll (arinc_lists s) (ThreadList c) (map ThreadNode ts)"
  shows "arinc653_find_thread c vm vcpu s = Some (List.find (\<lambda>t. vm_id (threads s t) = vm \<and> vcpu_id (threads s t) = vcpu) ts)"
proof -
  have "linked (arinc_lists s) (ThreadList c # map ThreadNode ts @ [ThreadList c])" using assms by (simp add: dll_def)
  then have "nxt (arinc_lists s) (ThreadList c) = hd (map ThreadNode ts @ [ThreadList c])"
    "linked (arinc_lists s) (map ThreadNode ts @ [ThreadList c])" by (cases ts; simp)+
  then show ?thesis using arinc_find_walk by (simp add: arinc653_find_thread_def)
qed

text \<open>The windows of a table without their owners; resolving the owners leaves them alone.\<close>

definition arinc_plan :: "sched_arinc653_control \<Rightarrow> sched_arinc653_control" where
  "arinc_plan a = a\<lparr>entries := map (\<lambda>e. e\<lparr>ent_obj := None\<rparr>) (entries a)\<rparr>"

lemma arinc_plan_set_entry: "arinc_plan (set_entry i (\<lambda>e. e\<lparr>ent_obj := x\<rparr>) a) = arinc_plan a"
  by (cases "i < length (entries a)") (simp_all add: arinc_plan_def set_entry_def map_update list_update_beyond
      list_update_same_conv)

lemma arinc_resolve_entry_frame:
  fixes c i s
  defines "s' \<equiv> arinc653_resolve_entry c i s"
  shows "arinc_plan (arinc_ctl s' q) = arinc_plan (arinc_ctl s q)" and "hook_frame s s'" and "timer_ok s \<Longrightarrow> timer_ok s'"
    and "arinc_lists s' = arinc_lists s" "threads s' = threads s" "tsc s' = tsc s"
proof -
  obtain r where r: "s' = or_diverges s (map_option (\<lambda>obj. upd_arinc c (set_entry i (\<lambda>e. e\<lparr>ent_obj := obj\<rparr>)) s) r)"
    by (simp add: s'_def arinc653_resolve_entry_def Let_def)
  show "arinc_plan (arinc_ctl s' q) = arinc_plan (arinc_ctl s q)" by (cases r) (simp_all add: r arinc_plan_set_entry)
  show "hook_frame s s'" by (cases r) (simp_all add: r)
  show "timer_ok s \<Longrightarrow> timer_ok s'" unfolding r by (rule timer_ok_or_diverges) auto
  show "arinc_lists s' = arinc_lists s" "threads s' = threads s" "tsc s' = tsc s" by (cases r; simp add: r)+
qed

lemma arinc_resolve_fold:
  fixes c idx s
  defines "s' \<equiv> fold (arinc653_resolve_entry c) idx s"
  shows "arinc_plan (arinc_ctl s' q) = arinc_plan (arinc_ctl s q)" and "hook_frame s s'" and "timer_ok s \<Longrightarrow> timer_ok s'"
    and "arinc_lists s' = arinc_lists s" "threads s' = threads s" "tsc s' = tsc s"
proof -
  have "arinc_plan (arinc_ctl s' q) = arinc_plan (arinc_ctl s q) \<and> hook_frame s s' \<and> (timer_ok s \<longrightarrow> timer_ok s')
    \<and> arinc_lists s' = arinc_lists s \<and> threads s' = threads s \<and> tsc s' = tsc s"
    unfolding s'_def
    by (induction idx arbitrary: s) (auto simp: arinc_resolve_entry_frame intro: hook_frame_trans [OF arinc_resolve_entry_frame(2)])
  then show "arinc_plan (arinc_ctl s' q) = arinc_plan (arinc_ctl s q)" "hook_frame s s'" "timer_ok s \<Longrightarrow> timer_ok s'"
    "arinc_lists s' = arinc_lists s" "threads s' = threads s" "tsc s' = tsc s" by blast+
qed

text \<open>On a well-formed list every window gets the first thread that carries its VM and vCPU numbers.\<close>

lemma arinc_resolve_list:
  assumes D: "dll (arinc_lists s) (ThreadList c) (map ThreadNode ts)" and "n \<le> length (entries (arinc_ctl s c))"
  shows "fold (arinc653_resolve_entry c) [0..<n] s = upd_arinc c (\<lambda>a. a\<lparr>entries :=
      map (\<lambda>i. (entries a ! i)\<lparr>ent_obj := List.find (\<lambda>t. vm_id (threads s t) = ent_vm_id (entries a ! i)
        \<and> vcpu_id (threads s t) = ent_vcpu_id (entries a ! i)) ts\<rparr>) [0..<n] @ drop n (entries a)\<rparr>) s"
  using assms(2)
proof (induction n)
  case 0
  then show ?case by (simp add: upd_arinc_def)
next
  case (Suc n)
  let ?f = "\<lambda>a i. (entries a ! i)\<lparr>ent_obj := List.find (\<lambda>t. vm_id (threads s t) = ent_vm_id (entries a ! i)
        \<and> vcpu_id (threads s t) = ent_vcpu_id (entries a ! i)) ts\<rparr>"
  let ?r = "fold (arinc653_resolve_entry c) [0..<n] s" and ?a = "arinc_ctl s c"
  have n: "n < length (entries ?a)" and IH: "?r = upd_arinc c (\<lambda>a. a\<lparr>entries := map (?f a) [0..<n] @ drop n (entries a)\<rparr>) s"
    using Suc by simp_all
  have e: "entries (arinc_ctl ?r c) = map (?f ?a) [0..<n] @ drop n (entries ?a)" by (simp add: IH)
  then have en: "entries (arinc_ctl ?r c) ! n = entries ?a ! n" using n by (simp add: nth_append)
  have "dll (arinc_lists ?r) (ThreadList c) (map ThreadNode ts)" using D by (simp add: IH)
  note f = arinc_find_thread [OF this, of "ent_vm_id (entries ?a ! n)" "ent_vcpu_id (entries ?a ! n)"]
  have t: "threads ?r = threads s" by (simp add: IH)
  have "arinc653_resolve_entry c n ?r = upd_arinc c (set_entry n (\<lambda>e. e\<lparr>ent_obj := ent_obj (?f ?a n)\<rparr>)) ?r"
    by (simp add: arinc653_resolve_entry_def Let_def en f t)
  moreover have "(map (?f ?a) [0..<n] @ drop n (entries ?a))[n := ?f ?a n] = map (?f ?a) [0..<Suc n] @ drop (Suc n) (entries ?a)"
    using n by (simp add: list_update_append Cons_nth_drop_Suc [symmetric])
  ultimately show ?case using en by (simp add: IH upd_arinc_def set_entry_def nth_append n)
qed

section \<open>Setting and reading the table\<close>

lemma floor_sum:
  fixes k m :: nat
  assumes "0 < m"
  shows "sum_list (map (\<lambda>x. x * k div m) xs) \<le> sum_list xs * k div m"
proof (induction xs)
  case (Cons x xs)
  have "x * k div m + sum_list xs * k div m \<le> (x * k + sum_list xs * k) div m"
    using div_add1_eq [of "x * k" "sum_list xs * k" m] by linarith
  with Cons show ?case by (simp add: distrib_right)
qed simp

lemma arinc653_validate_entries_sound:
  assumes "arinc653_validate_entries rate frame total_us es" and "total_us \<le> ucast frame"
  shows "unat total_us + sum_list (map (\<lambda>e. unat (cfg_runtime_us e)) es) \<le> unat frame
    \<and> (\<forall>e \<in> set es. us_to_ticks rate (cfg_runtime_us e) \<noteq> 0 \<and> cfg_vm_id e < CONFIG_MAX_VM_NUM \<and> cfg_vcpu_id e < MAX_VCPUS_PER_VM)"
  using assms
proof (induction rate frame total_us es rule: arinc653_validate_entries.induct)
  case (1 rate frame total_us)
  then show ?case by (simp add: word_le_nat_alt)
next
  case (2 rate frame total_us e es)
  let ?t = "total_us + ucast (cfg_runtime_us e)"
  have g: "us_to_ticks rate (cfg_runtime_us e) \<noteq> 0" "cfg_vm_id e < CONFIG_MAX_VM_NUM" "cfg_vcpu_id e < MAX_VCPUS_PER_VM"
    and t: "?t \<le> ucast frame" and r: "arinc653_validate_entries rate frame ?t es"
    using 2(2) by (auto simp: Let_def split: if_splits)
  have b: "unat total_us < 2 ^ 32" "unat (cfg_runtime_us e) < 2 ^ 32"
    using 2(3) unsigned_less [of frame, where ?'a = nat] unsigned_less [of "cfg_runtime_us e", where ?'a = nat]
    by (simp_all add: word_le_nat_alt)
  then have "unat ?t = unat total_us + unat (cfg_runtime_us e)" by (subst unat_add_nowrap) simp_all
  moreover have "unat ?t + sum_list (map (\<lambda>e. unat (cfg_runtime_us e)) es) \<le> unat frame
    \<and> (\<forall>e \<in> set es. us_to_ticks rate (cfg_runtime_us e) \<noteq> 0 \<and> cfg_vm_id e < CONFIG_MAX_VM_NUM \<and> cfg_vcpu_id e < MAX_VCPUS_PER_VM)"
    using 2(1) [OF _ refl r t] 2(2) by (auto split: if_splits)
  ultimately show ?case using g by simp
qed

lemma arinc653_validate_config_sound:
  assumes "arinc653_validate_config rate (Some cfg) = Some ticks" and "length (cfg_entries cfg) = SCHED_ARINC653_MAX_ENTRIES"
  shows "ticks = us_to_ticks rate (cfg_major_frame_us cfg)" "ticks \<noteq> 0" "cfg_entry_count cfg \<noteq> 0"
    "cfg_entry_count cfg \<le> SCHED_ARINC653_MAX_ENTRIES"
    "\<And>i. i < cfg_entry_count cfg \<Longrightarrow> us_to_ticks rate (cfg_runtime_us (cfg_entries cfg ! i)) \<noteq> 0"
    "sum_list (map (\<lambda>i. unat (us_to_ticks rate (cfg_runtime_us (cfg_entries cfg ! i)))) [0..<cfg_entry_count cfg]) \<le> unat ticks"
proof -
  let ?es = "take (cfg_entry_count cfg) (cfg_entries cfg)"
  have v: "arinc653_validate_entries rate (cfg_major_frame_us cfg) 0 ?es"
    and t: "ticks = us_to_ticks rate (cfg_major_frame_us cfg)" "ticks \<noteq> 0" "cfg_entry_count cfg \<noteq> 0"
      "cfg_entry_count cfg \<le> SCHED_ARINC653_MAX_ENTRIES"
    using assms(1) by (auto simp: arinc653_validate_config_def Let_def split: if_splits)
  then show "ticks = us_to_ticks rate (cfg_major_frame_us cfg)" "ticks \<noteq> 0" "cfg_entry_count cfg \<noteq> 0"
    "cfg_entry_count cfg \<le> SCHED_ARINC653_MAX_ENTRIES" by simp_all
  have es: "?es = map (\<lambda>i. cfg_entries cfg ! i) [0..<cfg_entry_count cfg]"
    using t(4) assms(2) by (intro nth_equalityI) simp_all
  note S = arinc653_validate_entries_sound [OF v, simplified]
  show "us_to_ticks rate (cfg_runtime_us (cfg_entries cfg ! i)) \<noteq> 0" if "i < cfg_entry_count cfg" for i
    using S that unfolding es by auto
  define us where "us = map (\<lambda>i. unat (cfg_runtime_us (cfg_entries cfg ! i))) [0..<cfg_entry_count cfg]"
  have "sum_list us \<le> unat (cfg_major_frame_us cfg)" using S unfolding es by (simp add: us_def comp_def)
  then have "sum_list us * unat rate div 1000 \<le> unat (cfg_major_frame_us cfg) * unat rate div 1000"
    by (intro div_le_mono mult_le_mono) simp_all
  then have "sum_list (map (\<lambda>x. x * unat rate div 1000) us) \<le> unat ticks"
    using floor_sum [of 1000 "unat rate" us] by (simp add: t(1) unat_us_to_ticks)
  then show "sum_list (map (\<lambda>i. unat (us_to_ticks rate (cfg_runtime_us (cfg_entries cfg ! i)))) [0..<cfg_entry_count cfg]) \<le> unat ticks"
    by (simp add: us_def unat_us_to_ticks comp_def)
qed

lemma arinc_plan_ok:
  assumes "arinc_plan a' = arinc_plan a"
  shows "arinc_table a' = arinc_table a" "entry_count a' = entry_count a" "major_frame_ticks a' = major_frame_ticks a"
    "length (entries a) = SCHED_ARINC653_MAX_ENTRIES \<Longrightarrow> arinc653_config_of a' = arinc653_config_of a"
    "length (entries a') = length (entries a)"
proof -
  have m: "map (\<lambda>e. e\<lparr>ent_obj := None\<rparr>) (entries a') = map (\<lambda>e. e\<lparr>ent_obj := None\<rparr>) (entries a)"
    and f: "entry_count a' = entry_count a" "major_frame_ticks a' = major_frame_ticks a" "major_frame_us a' = major_frame_us a"
    using assms by (cases a; cases a'; simp add: arinc_plan_def)+
  show l: "length (entries a') = length (entries a)" using arg_cong [OF m, of length] by simp
  have e: "(entries a' ! i)\<lparr>ent_obj := None\<rparr> = (entries a ! i)\<lparr>ent_obj := None\<rparr>" if "i < length (entries a)" for i
    using arg_cong [OF m, of "\<lambda>xs. xs ! i"] that l by simp
  have p: "ent_vm_id (entries a' ! i) = ent_vm_id (entries a ! i)" "ent_vcpu_id (entries a' ! i) = ent_vcpu_id (entries a ! i)"
    "ent_runtime_us (entries a' ! i) = ent_runtime_us (entries a ! i)"
    "ent_runtime_ticks (entries a' ! i) = ent_runtime_ticks (entries a ! i)" if "i < length (entries a)" for i
    using e [OF that] by (cases "entries a' ! i"; cases "entries a ! i"; simp)+
  show "entry_count a' = entry_count a" "major_frame_ticks a' = major_frame_ticks a" by (rule f)+
  have o: "arinc_offset a' n = arinc_offset a n" if "n \<le> length (entries a)" for n
    using that p(4) unfolding arinc_offset_def by (intro arg_cong [where f = sum_list]) auto
  show "arinc_table a' = arinc_table a" using o p(4) l f by (auto simp: arinc_table_def)
  show "arinc653_config_of a' = arinc653_config_of a" if "length (entries a) = SCHED_ARINC653_MAX_ENTRIES"
    using that p f by (auto simp: arinc653_config_of_def)
qed

text \<open>
  A table that is accepted starts its first frame at the time of the call and reads back as it was
  given, the unused entries as zeros; one that is refused changes no table.
\<close>

definition arinc_canonical :: "sched_arinc653_config \<Rightarrow> bool" where
  "arinc_canonical cfg \<longleftrightarrow>
     cfg_reserved cfg = 0 \<and> length (cfg_entries cfg) = SCHED_ARINC653_MAX_ENTRIES
     \<and> (\<forall>i < SCHED_ARINC653_MAX_ENTRIES. cfg_entry_count cfg \<le> i \<longrightarrow>
          cfg_entries cfg ! i = \<lparr>cfg_vm_id = 0, cfg_vcpu_id = 0, cfg_runtime_us = 0\<rparr>)"

lemma arinc_set_schedule:
  assumes r: "sched_arinc653_set_schedule p (Some cfg) s = (0, s')" and len: "length (cfg_entries cfg) = SCHED_ARINC653_MAX_ENTRIES"
  shows "arinc_ok (arinc_ctl s' p)" and "arinc_frame (arinc_ctl s' p)"
    and "frame_start_ticks (arinc_ctl s' p) = cpu_ticks s" and "sched_index (arinc_ctl s' p) = 0"
    and "arinc653_config_of (arinc_ctl s' p) = cfg\<lparr>cfg_reserved := 0, cfg_entries :=
      map (\<lambda>i. if i < cfg_entry_count cfg then cfg_entries cfg ! i else \<lparr>cfg_vm_id = 0, cfg_vcpu_id = 0, cfg_runtime_us = 0\<rparr>)
        [0..<SCHED_ARINC653_MAX_ENTRIES]\<rparr>"
    and "p < pcpu_nums s" "sched_ctls s' p = (sched_ctls s p)\<lparr>flags := flags (sched_ctls s' p), reschedule_requests := reschedule_requests (sched_ctls s' p)\<rparr>"
    and "scheduler (sched_ctls s p) = Some Sched_arinc653" "priv (sched_ctls s p)" "pcpu_nums s' = pcpu_nums s"
proof -
  obtain ticks where v: "arinc653_validate_config (khz s) (Some cfg) = Some ticks" and p: "p < pcpu_nums s"
    using r by (auto simp: sched_arinc653_set_schedule_def errno_defs split: option.splits if_splits)
  note V = arinc653_validate_config_sound [OF v len]
  define s1 where "s1 = upd_arinc p (\<lambda>a. a\<lparr>major_frame_us := cfg_major_frame_us cfg, major_frame_ticks := ticks,
    entry_count := cfg_entry_count cfg, entries := map (arinc653_entry_of (khz s) cfg) [0..<SCHED_ARINC653_MAX_ENTRIES]\<rparr>) (tick_read s)"
  define s2 where "s2 = arinc653_resolve_entries p s1"
  obtain st a where f: "arinc653_start_frame (cpu_ticks s) (arinc_ctl s2 p) = (st, a)" by fastforce
  have g: "scheduler (sched_ctls s p) = Some Sched_arinc653" "priv (sched_ctls s p)" and st: st
    and s': "s' = make_reschedule_request p (upd_arinc p (\<lambda>_. a) s2)"
    using r p v f by (auto simp: sched_arinc653_set_schedule_def Let_def s1_def [symmetric] s2_def [symmetric] errno_defs split: if_splits)
  note R = arinc_resolve_fold [where c = p and idx = "[0..<entry_count (arinc_ctl s1 p)]" and s = s1, folded arinc653_resolve_entries_def, folded s2_def]
  let ?a1 = "arinc_ctl s1 p"
  have e1: "entries ?a1 = map (arinc653_entry_of (khz s) cfg) [0..<SCHED_ARINC653_MAX_ENTRIES]" "entry_count ?a1 = cfg_entry_count cfg"
    "major_frame_ticks ?a1 = ticks" "major_frame_us ?a1 = cfg_major_frame_us cfg"
    by (simp_all add: s1_def)
  have "arinc_offset ?a1 (cfg_entry_count cfg) \<le> unat ticks"
  proof -
    have "arinc_offset ?a1 (cfg_entry_count cfg)
      = sum_list (map (\<lambda>i. unat (us_to_ticks (khz s) (cfg_runtime_us (cfg_entries cfg ! i)))) [0..<cfg_entry_count cfg])"
      unfolding arinc_offset_def using V(4) by (intro arg_cong [where f = sum_list]) (auto simp: e1 arinc653_entry_of_def)
    then show ?thesis using V(6) by simp
  qed
  then have T1: "arinc_table ?a1" using V(4,5) by (auto simp: arinc_table_def e1 arinc653_entry_of_def)
  note P = arinc_plan_ok [OF R(1) [of p]]
  have T2: "arinc_table (arinc_ctl s2 p)" using T1 P(1) by simp
  note S = arinc653_start_frame_ok [OF T2 f]
  have c: "arinc_ctl s' p = a" by (simp add: s' make_reschedule_request_def Let_def log_event_def)
  show "arinc_ok (arinc_ctl s' p)" using S(1,2) st arinc_moved_table [OF S(1)] T2 by (simp add: c arinc_ok_def)
  show "arinc_frame (arinc_ctl s' p)" "frame_start_ticks (arinc_ctl s' p) = cpu_ticks s" "sched_index (arinc_ctl s' p) = 0"
    using S(2) st by (simp_all add: c)
  have "arinc653_config_of a = arinc653_config_of (arinc_ctl s2 p)" using S(1) by (simp add: arinc_moved_def arinc653_config_of_def)
  also have "\<dots> = arinc653_config_of ?a1" using P(4) by (simp add: e1)
  also have "\<dots> = cfg\<lparr>cfg_reserved := 0, cfg_entries :=
      map (\<lambda>i. if i < cfg_entry_count cfg then cfg_entries cfg ! i else \<lparr>cfg_vm_id = 0, cfg_vcpu_id = 0, cfg_runtime_us = 0\<rparr>)
        [0..<SCHED_ARINC653_MAX_ENTRIES]\<rparr>"
    by (cases cfg) (auto simp: arinc653_config_of_def e1 arinc653_entry_of_def)
  finally show "arinc653_config_of (arinc_ctl s' p) = cfg\<lparr>cfg_reserved := 0, cfg_entries :=
      map (\<lambda>i. if i < cfg_entry_count cfg then cfg_entries cfg ! i else \<lparr>cfg_vm_id = 0, cfg_vcpu_id = 0, cfg_runtime_us = 0\<rparr>)
        [0..<SCHED_ARINC653_MAX_ENTRIES]\<rparr>" by (simp add: c)
  have k: "sched_ctls s2 = sched_ctls s" "pcpu_nums s2 = pcpu_nums s" using hook_frameD(13,21) [OF R(2)] by (simp_all add: s1_def upd_arinc_def)
  show "p < pcpu_nums s" "scheduler (sched_ctls s p) = Some Sched_arinc653" "priv (sched_ctls s p)" by (rule p g)+
  show "sched_ctls s' p = (sched_ctls s p)\<lparr>flags := flags (sched_ctls s' p), reschedule_requests := reschedule_requests (sched_ctls s' p)\<rparr>"
    "pcpu_nums s' = pcpu_nums s"
    by (simp_all add: s' make_reschedule_request_def Let_def log_event_def k upd_arinc_def)
qed

lemma arinc_set_schedule_refused:
  assumes "sched_arinc653_set_schedule p config s = (e, s')" and "e \<noteq> 0"
  shows "(e = - EINVAL \<or> e = - EIO \<or> e = - ENODEV) \<and> (s' = s \<or> s' = tick_read s)"
proof -
  have "fst (arinc653_start_frame (cpu_ticks s) (arinc_ctl s2 p))"
    if "ticks \<le> UINT64_MAX - cpu_ticks s" "arinc653_validate_config (khz s) (Some cfg) = Some ticks"
      "s2 = arinc653_resolve_entries p s1" "entry_count (arinc_ctl s1 p) = cfg_entry_count cfg" "major_frame_ticks (arinc_ctl s1 p) = ticks"
    for cfg ticks s1 s2
  proof -
    note P = arinc_plan_ok(2,3) [OF arinc_resolve_fold(1) [where c = p and q = p and idx = "[0..<entry_count (arinc_ctl s1 p)]" and s = s1], folded arinc653_resolve_entries_def]
    have "ticks \<noteq> 0" "cfg_entry_count cfg \<noteq> 0" using that(2) by (auto simp: arinc653_validate_config_def Let_def split: if_splits)
    then show ?thesis using that P by (simp add: arinc653_start_frame_def)
  qed
  note F = this
  show ?thesis
    using assms by (auto simp: sched_arinc653_set_schedule_def Let_def split_def F not_less split: option.splits if_splits)
qed

section \<open>A node linked twice\<close>

text \<open>
  \<open>reset_thread_data\<close> calls \<open>init_data\<close> again for a thread that is on the list. Its node is then
  initialized and added while the list still leads to it: for the last node of the list this closes
  a cycle that leaves out the head, and the search for an owner that is not there does not end.
\<close>

lemma arinc_find_self_loop:
  assumes "nxt (arinc_lists s) (ThreadNode t) = ThreadNode t" and "\<not> (vm_id (threads s t) = vm \<and> vcpu_id (threads s t) = vcpu)"
  shows "arinc653_find_walk s (ThreadList c) vm vcpu (ThreadNode t) = None"
proof -
  have "arinc653_find_walk s' head vm' vcpu' pos = Some res \<Longrightarrow>
      \<not> (s' = s \<and> head = ThreadList c \<and> vm' = vm \<and> vcpu' = vcpu \<and> pos = ThreadNode t)" for s' head vm' vcpu' pos res
    by (erule arinc653_find_walk.raw_induct [rotated]) (use assms in \<open>auto split: if_splits arinc_node.splits\<close>)
  then show ?thesis by fastforce
qed

lemma arinc_find_prefix:
  assumes "linked h (map ThreadNode us @ [ThreadNode t])" and "nxt (arinc_lists s) = (nxt h)(ThreadNode t := n)" and "t \<notin> set us"
    and "\<forall>u \<in> set us. \<not> (vm_id (threads s u) = vm \<and> vcpu_id (threads s u) = vcpu)"
  shows "arinc653_find_walk s (ThreadList c) vm vcpu (hd (map ThreadNode us @ [ThreadNode t]))
    = arinc653_find_walk s (ThreadList c) vm vcpu (ThreadNode t)"
  using assms(1,3,4)
proof (induction us)
  case (Cons u us)
  then have nx: "nxt (arinc_lists s) (ThreadNode u) = hd (map ThreadNode us @ [ThreadNode t])"
    and "linked h (map ThreadNode us @ [ThreadNode t])" using assms(2) by (cases us; auto)+
  then have IH: "arinc653_find_walk s (ThreadList c) vm vcpu (hd (map ThreadNode us @ [ThreadNode t]))
    = arinc653_find_walk s (ThreadList c) vm vcpu (ThreadNode t)" using Cons.IH Cons.prems by simp
  have "(vm_id (threads s u) = vm \<and> vcpu_id (threads s u) = vcpu) = False" using Cons.prems by simp
  then have "arinc653_find_walk s (ThreadList c) vm vcpu (ThreadNode u)
    = arinc653_find_walk s (ThreadList c) vm vcpu (nxt (arinc_lists s) (ThreadNode u))"
    by (subst (1) arinc653_find_walk.simps) (simp only: arinc_node.simps if_False)
  then show ?case by (simp only: nx IH list.map append_Cons list.sel)
qed simp

lemma arinc_find_relinked:
  assumes D: "dll h (ThreadList c) (map ThreadNode us @ [ThreadNode t])"
    and l: "arinc_lists s = relink_tail (ThreadNode t) (ThreadList c) h"
    and n: "\<forall>u \<in> set (us @ [t]). \<not> (vm_id (threads s u) = vm \<and> vcpu_id (threads s u) = vcpu)"
  shows "arinc653_find_thread c vm vcpu s = None"
proof -
  have d: "distinct (map ThreadNode us @ [ThreadNode t])" and k: "linked h (ThreadList c # map ThreadNode us @ [ThreadNode t])"
    using D linked_append [of h "ThreadList c # map ThreadNode us" "ThreadNode t" "[ThreadList c]"] by (auto simp: dll_def)
  have "prv h (ThreadList c) = ThreadNode t" using dll_prv_head [OF D] by simp
  then have nx: "nxt (arinc_lists s) = (nxt h)(ThreadNode t := ThreadNode t)"
    using D by (auto simp: l relink_tail_def list_add_tail_def list_add_node_def INIT_LIST_HEAD_def Let_def fun_eq_iff)
  have hd: "nxt (arinc_lists s) (ThreadList c) = hd (map ThreadNode us @ [ThreadNode t])"
    using k nx by (cases us) auto
  have "linked h (map ThreadNode us @ [ThreadNode t])" using k by (cases us) simp_all
  then have "arinc653_find_thread c vm vcpu s = arinc653_find_walk s (ThreadList c) vm vcpu (ThreadNode t)"
    unfolding arinc653_find_thread_def hd by (rule arinc_find_prefix [OF _ nx]) (use n d in auto)
  also have "\<dots> = None" using n nx by (intro arinc_find_self_loop) auto
  finally show ?thesis .
qed

lemma arinc_resolve_entry_fault:
  "fault (arinc653_resolve_entry c i s) = (if fault s = None \<and>
     arinc653_find_thread c (ent_vm_id (entries (arinc_ctl s c) ! i)) (ent_vcpu_id (entries (arinc_ctl s c) ! i)) s = None
     then Some Diverges else fault s)"
  by (cases "arinc653_find_thread c (ent_vm_id (entries (arinc_ctl s c) ! i)) (ent_vcpu_id (entries (arinc_ctl s c) ! i)) s")
    (simp_all add: arinc653_resolve_entry_def Let_def)

lemma arinc_find_cong:
  assumes "arinc_lists s' = arinc_lists s" "threads s' = threads s"
  shows "arinc653_find_thread c vm vcpu s' = arinc653_find_thread c vm vcpu s"
proof -
  have 1: "arinc653_find_walk x head vm' vcpu' pos = Some res \<Longrightarrow>
      \<forall>y. arinc_lists y = arinc_lists x \<and> threads y = threads x \<longrightarrow> arinc653_find_walk y head vm' vcpu' pos = Some res"
    for x head vm' vcpu' pos res
    by (erule arinc653_find_walk.raw_induct [rotated], intro allI impI, subst arinc653_find_walk.simps)
      (auto split: if_splits arinc_node.splits)
  show ?thesis unfolding arinc653_find_thread_def assms(1)
    using 1 [of s' "ThreadList c" vm vcpu] 1 [of s "ThreadList c" vm vcpu] assms by (metis option.exhaust)
qed

lemma arinc_resolve_diverges:
  assumes "fault s = None \<or> fault s = Some Diverges" and "i < length (entries (arinc_ctl s c))"
    and "arinc653_find_thread c (ent_vm_id (entries (arinc_ctl s c) ! i)) (ent_vcpu_id (entries (arinc_ctl s c) ! i)) s = None"
    and "i \<in> set idx"
  shows "fault (fold (arinc653_resolve_entry c) idx s) = Some Diverges"
  using assms
proof (induction idx arbitrary: s)
  case (Cons j idx)
  let ?s = "arinc653_resolve_entry c j s" and ?e = "entries (arinc_ctl s c) ! i"
  note R = arinc_resolve_entry_frame [where c = c and i = j and s = s]
  have ok: "fault ?s = None \<or> fault ?s = Some Diverges" using Cons.prems(1) by (auto simp: arinc_resolve_entry_fault)
  have l: "length (entries (arinc_ctl ?s c)) = length (entries (arinc_ctl s c))" by (rule arinc_plan_ok(5) [OF R(1)])
  have "entries (arinc_plan (arinc_ctl ?s c)) ! i = entries (arinc_plan (arinc_ctl s c)) ! i" by (simp add: R(1))
  then have "(entries (arinc_ctl ?s c) ! i)\<lparr>ent_obj := None\<rparr> = ?e\<lparr>ent_obj := None\<rparr>"
    using Cons.prems(2) l by (simp add: arinc_plan_def)
  then have v: "ent_vm_id (entries (arinc_ctl ?s c) ! i) = ent_vm_id ?e" "ent_vcpu_id (entries (arinc_ctl ?s c) ! i) = ent_vcpu_id ?e"
    by (cases "entries (arinc_ctl ?s c) ! i"; cases ?e; simp)+
  have f: "arinc653_find_thread c (ent_vm_id ?e) (ent_vcpu_id ?e) ?s = None" using Cons.prems(3) arinc_find_cong [OF R(4,5)] by simp
  have stay: "fault (fold (arinc653_resolve_entry c) js x) = Some Diverges" if "fault x = Some Diverges" for js x
    using that by (induction js arbitrary: x) (simp_all add: arinc_resolve_entry_fault)
  show ?case
  proof (cases "j = i")
    case True
    then have "fault ?s = Some Diverges" using Cons.prems(1,3) by (auto simp: arinc_resolve_entry_fault)
    then show ?thesis using stay by simp
  next
    case False
    then show ?thesis using Cons.IH [of ?s] ok l f v Cons.prems(2,4) by simp
  qed
qed simp

lemma arinc_reinit_diverges:
  assumes D: "dll (arinc_lists s) (ThreadList c) (map ThreadNode us @ [ThreadNode t])"
    and t: "is_vcpu (threads s t)" "pcpu_id (threads s t) = c" and ok: "fault s = None"
    and i: "i < entry_count (arinc_ctl s c)" "i < length (entries (arinc_ctl s c))"
    and n: "\<forall>u \<in> set (us @ [t]). \<not> (vm_id (threads s u) = ent_vm_id (entries (arinc_ctl s c) ! i)
      \<and> vcpu_id (threads s u) = ent_vcpu_id (entries (arinc_ctl s c) ! i))"
  shows "fault (sched_arinc653_init_data t params s) = Some Diverges"
proof -
  define s1 where "s1 = s\<lparr>arinc_lists := relink_tail (ThreadNode t) (ThreadList c) (arinc_lists s)\<rparr>"
  have r: "sched_arinc653_init_data t params s = arinc653_resolve_entries c s1"
    using t by (simp add: sched_arinc653_init_data_def Let_def s1_def relink_tail_def)
  have "arinc653_find_thread c (ent_vm_id (entries (arinc_ctl s c) ! i)) (ent_vcpu_id (entries (arinc_ctl s c) ! i)) s1 = None"
    by (rule arinc_find_relinked [OF D]) (use n in \<open>simp_all add: s1_def\<close>)
  then show ?thesis unfolding r arinc653_resolve_entries_def
    using ok i by (intro arinc_resolve_diverges [of _ i]) (simp_all add: s1_def)
qed

section \<open>Properties\<close>

text \<open>
  Claim C29. A schedule that is accepted is read back as it was written, and the frame starts with its
  first window at the time of the call.
\<close>

theorem arinc653_set_get_round_trip:
  assumes "sched_arinc653_set_schedule p (Some cfg) s = (0, s')" and "arinc_canonical cfg"
  shows "sched_arinc653_get_schedule p True s' = (0, Some cfg)
    \<and> frame_start_ticks (arinc_ctl s' p) = cpu_ticks s \<and> sched_index (arinc_ctl s' p) = 0 \<and> arinc_ok (arinc_ctl s' p)"
proof -
  have len: "length (cfg_entries cfg) = SCHED_ARINC653_MAX_ENTRIES" using assms(2) by (simp add: arinc_canonical_def)
  note S = arinc_set_schedule [OF assms(1) len]
  have es: "map (\<lambda>i. if i < cfg_entry_count cfg then cfg_entries cfg ! i else \<lparr>cfg_vm_id = 0, cfg_vcpu_id = 0, cfg_runtime_us = 0\<rparr>)
      [0..<SCHED_ARINC653_MAX_ENTRIES] = cfg_entries cfg"
    using assms(2) len by (intro nth_equalityI) (auto simp: arinc_canonical_def)
  have "cfg\<lparr>cfg_reserved := 0, cfg_entries := cfg_entries cfg\<rparr> = cfg" using assms(2) by (cases cfg) (simp add: arinc_canonical_def)
  then have "arinc653_config_of (arinc_ctl s' p) = cfg" using S(5) by (simp only: es)
  moreover have "scheduler (sched_ctls s' p) = Some Sched_arinc653" "priv (sched_ctls s' p)"
    using S(8,9) by (subst S(7), simp)+
  ultimately show ?thesis using S(1,3,4,6,10) by (simp add: sched_arinc653_get_schedule_def)
qed

text \<open>
  A schedule that is refused leaves the table alone, and the reason is one of three: an
  invalid configuration or pCPU, a pCPU under another policy, or a frame beyond the end of the
  counter.
\<close>

theorem arinc653_refused_unchanged:
  assumes "sched_arinc653_set_schedule p config s = (e, s')" and "e \<noteq> 0"
  shows "(e = - EINVAL \<or> e = - EIO \<or> e = - ENODEV) \<and> arinc_ctl s' = arinc_ctl s \<and> threads s' = threads s"
  using arinc_set_schedule_refused [OF assms] by auto

lemma arinc653_loop_frame_start: "frame_start_ticks (arinc653_advance_loop n now a) = frame_start_ticks a"
  by (induction n now a rule: arinc653_advance_loop.induct) (simp add: Let_def)+

text \<open>
  Claim C28. Advancing a running table never drifts: the frame starts a whole number of major frames
  after the old one, the present time lies in the window that is reported, and the deadline is the end
  of that window, or of the frame in its idle tail.
\<close>

theorem arinc653_advance_no_drift:
  assumes "arinc_ok a" and "arinc_frame a" and "next_major_frame_ticks a \<noteq> 0" and "frame_start_ticks a \<le> now"
    and "arinc_not_ahead now a" and "arinc653_advance now a = (True, deadline, a')"
  shows "(\<exists>k. unat (frame_start_ticks a') = unat (frame_start_ticks a) + k * unat (major_frame_ticks a))
    \<and> arinc_at now a' \<and> now < deadline \<and> unat deadline = arinc_end a'"
proof -
  note A = arinc653_advance_ok [OF assms(1,6)]
  have nz: "entry_count a \<noteq> 0" "major_frame_ticks a \<noteq> 0" using A(6) by simp_all
  obtain v b where f: "arinc653_reframe now a = (v, b)" by fastforce
  then have v: v using A(6) by simp
  have "frame_start_ticks a' = frame_start_ticks b"
    using assms(6) nz f v by (auto simp: arinc653_advance_def Let_def arinc653_loop_frame_start split: if_splits)
  then show ?thesis using arinc653_reframe_ok(6) [OF assms(1) nz f v assms(3,4,2)] A assms(5) by simp
qed

text \<open>
  Claim C40. \<open>init_data\<close> for a vCPU whose node is already the last of the thread list links the node to
  itself; where some window has no owner on the list, the search for it does not end.
\<close>

theorem arinc653_reinit_diverges:
  assumes "dll (arinc_lists s) (ThreadList c) (map ThreadNode us @ [ThreadNode t])"
    and "is_vcpu (threads s t)" and "pcpu_id (threads s t) = c" and "fault s = None"
    and "i < entry_count (arinc_ctl s c)" and "i < length (entries (arinc_ctl s c))"
    and "\<forall>u \<in> set (us @ [t]). \<not> (vm_id (threads s u) = ent_vm_id (entries (arinc_ctl s c) ! i)
      \<and> vcpu_id (threads s u) = ent_vcpu_id (entries (arinc_ctl s c) ! i))"
  shows "fault (sched_arinc653_init_data t params s) = Some Diverges"
  by (rule arinc_reinit_diverges) (use assms in simp_all)

end
