(* ===== verification/Sched_Dispatch.thy ===== *)
theory Sched_Dispatch
  imports Sched_Noop Sched_Prio Sched_Iorr Sched_Bvt Sched_Rtds Sched_Cbs Sched_Bfp Sched_Arinc653
begin

text \<open>
  The part of \<open>core/schedule.c\<close> that ties the policies to the pCPUs: the choice of a policy from the
  device tree's pools, the start and stop of a pCPU's scheduler, the calls through
  \<open>ctl->scheduler\<close>, and the callbacks of the policies' timers. The lemmas collect the contracts of
  the eight policies into one that holds for whatever policy a pCPU runs.
\<close>

section \<open>Policies\<close>

definition sched_ops :: "sched_id \<Rightarrow> acrn_scheduler" where
  "sched_ops i =
     (case i of
        Sched_noop \<Rightarrow> sched_noop | Sched_iorr \<Rightarrow> sched_iorr | Sched_bvt \<Rightarrow> sched_bvt
      | Sched_rtds \<Rightarrow> sched_rtds | Sched_cbs \<Rightarrow> sched_cbs | Sched_prio \<Rightarrow> sched_prio
      | Sched_arinc653 \<Rightarrow> sched_arinc653 | Sched_bfp \<Rightarrow> sched_bfp)"

definition zero_pool :: sched_cpupool_config where
  "zero_pool = \<lparr>pool_configured = False, has_pcpu_mask = False, pcpu_mask = 0, policy = SCHED_POLICY_NONE,
     pool_period_us = 0, pool_budget_us = 0, ai_assist = False, ai_min_budget_us = 0, ai_max_budget_us = 0,
     ai_max_step_us = 0, ai_min_update_ms = 0\<rparr>"

definition sched_set_platform_config :: "sched_platform_config option \<Rightarrow> sched_sys \<Rightarrow> sched_sys" where
  "sched_set_platform_config config s =
     s\<lparr>platform_config := (case config of
        None \<Rightarrow> \<lparr>plat_configured = False, strict_placement = False, exclusive = zero_pool, shared = zero_pool\<rparr>
      | Some cfg \<Rightarrow> cfg)\<rparr>"

definition scheduler_from_policy :: "sched_policy_id \<Rightarrow> sched_id option" where
  "scheduler_from_policy pol =
     (case pol of
        SCHED_POLICY_NOOP \<Rightarrow> Some Sched_noop
      | SCHED_POLICY_IORR \<Rightarrow> Some Sched_iorr
      | SCHED_POLICY_BVT \<Rightarrow> Some Sched_bvt
      | SCHED_POLICY_RTDS \<Rightarrow> Some Sched_rtds
      | SCHED_POLICY_CBS \<Rightarrow> Some Sched_cbs
      | SCHED_POLICY_PRIO \<Rightarrow> Some Sched_prio
      | SCHED_POLICY_ARINC653 \<Rightarrow> Some Sched_arinc653
      | SCHED_POLICY_BFP \<Rightarrow> Some Sched_bfp
      | SCHED_POLICY_NONE \<Rightarrow> None)"

definition select_dts_pcpu_scheduler :: "nat \<Rightarrow> sched_sys \<Rightarrow> sched_id option \<times> sched_sys" where
  "select_dts_pcpu_scheduler p s =
     (case sched_get_pcpu_pool_config p s of
        None \<Rightarrow> (None, panic ''missing DTS scheduler cpupool'' s)
      | Some pool \<Rightarrow>
          if \<not> plat_configured (platform_config s) then (None, panic ''missing DTS scheduler cpupool'' s)
          else
            case scheduler_from_policy (policy pool) of
              None \<Rightarrow> (None, panic ''invalid DTS scheduler policy'' s)
            | Some i \<Rightarrow> (Some i, s))"

section \<open>Calls through the control block\<close>

text \<open>\<open>ctl->scheduler->...\<close>: without a scheduler the null pointer is followed.\<close>

definition on_sched :: "nat \<Rightarrow> (acrn_scheduler \<Rightarrow> sched_sys \<Rightarrow> sched_sys) \<Rightarrow> sched_sys \<Rightarrow> sched_sys" where
  "on_sched p k s =
     (case scheduler (sched_ctls s p) of
        Some i \<Rightarrow> k (sched_ops i) s
      | None \<Rightarrow> (if fault s = None then s\<lparr>fault := Some NullDeref\<rparr> else s))"

definition call_ctl :: "(nat \<Rightarrow> sched_sys \<Rightarrow> sched_sys) option \<Rightarrow> nat \<Rightarrow> sched_sys \<Rightarrow> sched_sys" where
  "call_ctl h p s = (case h of None \<Rightarrow> s | Some f \<Rightarrow> f p s)"

definition init_sched :: "nat \<Rightarrow> sched_sys \<Rightarrow> sched_sys" where
  "init_sched p s =
     (let s = upd_ctl p (\<lambda>c. c\<lparr>flags := 0, curr_obj := None, ctl_pcpu_id := p, scheduler_ticks := 0,
                 context_switches := 0, reschedule_requests := 0, quiesce_request_vm_mask := 0,
                 ctl_priority_pending := False\<rparr>) s;
          (i, s) = select_dts_pcpu_scheduler p s;
          s = upd_ctl p (\<lambda>c. c\<lparr>scheduler := i\<rparr>) s;
          s = assertion (i \<noteq> None) ''no scheduler configured!'' s
      in on_sched p (\<lambda>sch. call_ctl (hook_init sch) p) s)"

definition deinit_sched :: "nat \<Rightarrow> sched_sys \<Rightarrow> sched_sys" where
  "deinit_sched p s = on_sched p (\<lambda>sch. call_ctl (hook_deinit sch) p) s"

definition suspend_sched :: "sched_sys \<Rightarrow> sched_sys" where
  "suspend_sched s = on_sched BSP_CPU_ID (\<lambda>sch. call_ctl (hook_suspend sch) BSP_CPU_ID) s"

definition resume_sched :: "sched_sys \<Rightarrow> sched_sys" where
  "resume_sched s = on_sched BSP_CPU_ID (\<lambda>sch. call_ctl (hook_resume sch) BSP_CPU_ID) s"

definition schedule :: "sched_sys \<Rightarrow> sched_sys" where
  "schedule s = on_sched (cur_pcpu s) schedule_with s"

definition sched_get_scheduler_name :: "nat \<Rightarrow> sched_sys \<Rightarrow> string" where
  "sched_get_scheduler_name p s =
     (case scheduler (sched_ctls s p) of Some i \<Rightarrow> sched_name (sched_ops i) | None \<Rightarrow> ''none'')"

definition sched_get_scheduler_stat_desc :: "nat \<Rightarrow> sched_sys \<Rightarrow> string" where
  "sched_get_scheduler_stat_desc p s =
     (case scheduler (sched_ctls s p) of Some i \<Rightarrow> stat_desc (sched_ops i) | None \<Rightarrow> '''')"

definition sched_get_ticks :: "nat \<Rightarrow> sched_sys \<Rightarrow> u64" where
  "sched_get_ticks p s = scheduler_ticks (sched_ctls s p)"

definition sched_get_context_switches :: "nat \<Rightarrow> sched_sys \<Rightarrow> u64" where
  "sched_get_context_switches p s = context_switches (sched_ctls s p)"

definition sched_get_reschedule_requests :: "nat \<Rightarrow> sched_sys \<Rightarrow> u64" where
  "sched_get_reschedule_requests p s = reschedule_requests (sched_ctls s p)"

section \<open>The idle thread\<close>

fun decimal :: "nat \<Rightarrow> string" where
  "decimal n = (if n < 10 then [char_of (48 + n)] else decimal (n div 10) @ [char_of (48 + n mod 10)])"

text \<open>\<open>"idle-%02hu"\<close>\<close>

definition idle_name :: "nat \<Rightarrow> string" where
  "idle_name p = ''idle-'' @ (if p < 10 then ''0'' else '''') @ decimal p"

definition zero_params :: sched_params where
  "zero_params = \<lparr>prio = 0, bvt_weight = 0, bvt_warp_value = 0, bvt_warp_limit = 0, bvt_unwarp_period = 0,
     cbs_period_us = 0, cbs_budget_us = 0, bfp_period_us = 0, bfp_budget_us = 0\<rparr>"

text \<open>The key of the pCPU that the thread also gets is not modelled.\<close>

definition arm64_ptrauth_bind_idle_thread :: "thread_ref \<Rightarrow> sched_sys \<Rightarrow> sched_sys" where
  "arm64_ptrauth_bind_idle_thread t s =
     (if \<not> ptrauth_policy_enabled s \<or> cur_pcpu s \<ge> MAX_PCPU_NUM \<or> \<not> ptrauth_ready s (cur_pcpu s) then s
      else upd_thread t (\<lambda>th. th\<lparr>ptrauth_return_authenticated := True\<rparr>) s)"

text \<open>Up to the entry of \<open>default_idle\<close>, which never returns; one turn of its loop is \<open>default_idle_turn\<close>.\<close>

definition run_idle_thread :: "sched_sys \<Rightarrow> sched_sys" where
  "run_idle_thread s =
     (let p = cur_pcpu s;
          s = upd_thread (Idle p) (\<lambda>th. th\<lparr>name := idle_name p, pcpu_id := p, switch_out := False,
                switch_in := False\<rparr>) s;
          s = arm64_ptrauth_bind_idle_thread (Idle p) s;
          s = on_sched p (\<lambda>sch. init_thread_data sch (Idle p) (zero_params\<lparr>prio := PRIO_IDLE\<rparr>)) s
      in run_thread (Idle p) s)"

definition default_idle :: "sched_sys \<Rightarrow> sched_sys" where
  "default_idle s = on_sched (cur_pcpu s) (\<lambda>sch. default_idle_turn sch (cur_pcpu s)) s"

section \<open>Timer callbacks\<close>

text \<open>
  The callbacks of the policies' timers get their control block; \<open>other\<close> stands for the callbacks of
  the timers that other parts of the hypervisor start.
\<close>

definition sched_timer_callback ::
  "(nat \<Rightarrow> nat \<Rightarrow> sched_sys \<Rightarrow> sched_sys) \<Rightarrow> timer_fn \<Rightarrow> nat \<Rightarrow> sched_sys \<Rightarrow> sched_sys" where
  "sched_timer_callback other f c s =
     (case f of
        Iorr_sched_tick_handler \<Rightarrow> iorr_sched_tick_handler c s
      | Bvt_sched_tick_handler \<Rightarrow> bvt_sched_tick_handler c s
      | Rtds_timer_handler \<Rightarrow> rtds_timer_handler c s
      | Cbs_timer_handler \<Rightarrow> cbs_timer_handler c s
      | Bfp_timer_handler \<Rightarrow> bfp_timer_handler c s
      | Arinc653_timer_handler \<Rightarrow> arinc653_timer_handler c s
      | Other_handler n \<Rightarrow> other n c s)"

definition callback_frame :: "sched_sys \<Rightarrow> sched_sys \<Rightarrow> bool" where
  "callback_frame s s' \<longleftrightarrow>
     (timer_ok s \<longrightarrow> timer_ok s') \<and> cur_pcpu s' = cur_pcpu s
     \<and> (\<forall>t. func (timers s' t) = func (timers s t)) \<and> (fault s \<noteq> None \<longrightarrow> fault s' \<noteq> None)"

lemma callback_frame_refl [simp]: "callback_frame s s"
  by (simp add: callback_frame_def)

lemma callback_frame_trans: "callback_frame s s' \<Longrightarrow> callback_frame s' s'' \<Longrightarrow> callback_frame s s''"
  by (simp add: callback_frame_def del: not_None_eq)

lemma callback_frame_hook: "hook_frame s s' \<Longrightarrow> (timer_ok s \<Longrightarrow> timer_ok s') \<Longrightarrow> callback_frame s s'"
  using hook_frameD(14,24,29) [of s s'] by (auto simp: callback_frame_def)

lemma callback_frame_same: "policy_same s s' \<Longrightarrow> callback_frame s s'"
  using policy_same_timer_ok [of s s'] by (simp add: callback_frame_def policy_same_def)

lemma callback_frame_account [simp]: "callback_frame s (sched_account_tick c s)"
  by (rule callback_frame_same) (simp add: sched_account_tick_def)

lemma callback_frame_request [simp]: "callback_frame s (make_reschedule_request p s)"
  by (rule callback_frame_same) simp

lemma iorr_tick_frame: "callback_frame s (iorr_sched_tick_handler c s)"
proof -
  have 1: "callback_frame s (sched_account_tick c (tick_read s))"
    by (rule callback_frame_trans [OF callback_frame_hook callback_frame_account]) auto
  have "callback_frame x (upd_iorr t f x)" for x t f
    by (rule callback_frame_hook) (auto simp: upd_iorr_def)
  note 2 = callback_frame_trans [OF 1 this]
  show ?thesis
    unfolding iorr_sched_tick_handler_def Let_def
    by (auto split: option.split intro: 1 2 callback_frame_trans [OF 1 callback_frame_request] callback_frame_trans [OF 2 callback_frame_request])
qed

lemma bvt_tick_frame: "callback_frame s (bvt_sched_tick_handler c s)"
  unfolding bvt_sched_tick_handler_def Let_def
  by (auto split: option.split intro: callback_frame_trans [OF callback_frame_account callback_frame_request])

lemma rtds_tick_frame: "callback_frame s (rtds_timer_handler c s)"
proof -
  have 1: "callback_frame s (sched_account_tick c (tick_read s))"
    by (rule callback_frame_trans [OF callback_frame_hook callback_frame_account]) auto
  have 2: "callback_frame x (rtds_refresh_queues c now (rtds_settle_current c now x))" for x now
    by (rule callback_frame_hook [OF hook_frame_trans [OF rtds_settle_frames(1) rtds_refresh_queues_frames(1)]])
      (simp add: rtds_settle_frames rtds_refresh_queues_frames)
  show ?thesis unfolding rtds_timer_handler_def Let_def
    by (rule callback_frame_trans [OF callback_frame_trans [OF 1 2] callback_frame_request])
qed

lemma sched_timer_callback_frame:
  assumes "\<And>n c s. callback_frame s (other n c s)"
  shows "callback_frame s (sched_timer_callback other f c s)"
proof (cases f)
  case Cbs_timer_handler
  then show ?thesis using cbs_timer_handler_frames by (simp add: sched_timer_callback_def callback_frame_def del: not_None_eq)
next
  case Bfp_timer_handler
  then show ?thesis using bfp_timer_handler_frames by (simp add: sched_timer_callback_def callback_frame_def del: not_None_eq)
next
  case Arinc653_timer_handler
  then show ?thesis using arinc653_timer_handler_frames by (simp add: sched_timer_callback_def callback_frame_def del: not_None_eq)
qed (simp_all add: sched_timer_callback_def iorr_tick_frame bvt_tick_frame rtds_tick_frame assms)

lemma sched_timer_client:
  assumes "\<And>n c s. callback_frame s (other n c s)"
  shows "timer_client (sched_timer_callback other)"
  using sched_timer_callback_frame [of other, OF assms]
  by unfold_locales (auto simp: callback_frame_def)

interpretation sched_client: timer_client "sched_timer_callback (\<lambda>n c s. s)"
  by (rule sched_timer_client) simp

section \<open>One contract for the eight policies\<close>

definition policy_rq :: "sched_id \<Rightarrow> nat \<Rightarrow> sched_sys \<Rightarrow> thread_ref list" where
  "policy_rq i =
     (case i of
        Sched_noop \<Rightarrow> noop_rq | Sched_iorr \<Rightarrow> iorr_rq | Sched_bvt \<Rightarrow> bvt_rq | Sched_rtds \<Rightarrow> rtds_rq
      | Sched_cbs \<Rightarrow> cbs_rq | Sched_prio \<Rightarrow> prio_rq | Sched_arinc653 \<Rightarrow> arinc_rq | Sched_bfp \<Rightarrow> bfp_rq)"

definition policy_wf :: "sched_id \<Rightarrow> nat \<Rightarrow> sched_sys \<Rightarrow> bool" where
  "policy_wf i =
     (case i of
        Sched_rtds \<Rightarrow> rtds_wf | Sched_cbs \<Rightarrow> cbs_wf | Sched_bfp \<Rightarrow> bfp_wf | Sched_arinc653 \<Rightarrow> arinc_wf
      | _ \<Rightarrow> (\<lambda>p s. True))"

lemma policy_contract: "sched_policy (sched_ops i) (policy_rq i) (policy_wf i)"
  by (cases i) (simp_all add: sched_ops_def policy_rq_def policy_wf_def noop.sched_policy_axioms iorr.sched_policy_axioms
      bvt.sched_policy_axioms rtds.sched_policy_axioms cbs.sched_policy_axioms prio.sched_policy_axioms
      arinc.sched_policy_axioms bfp.sched_policy_axioms)

interpretation policies: sched_policy "sched_ops i" "policy_rq i" "policy_wf i" for i
  by (rule policy_contract)

text \<open>The policies that lose no runnable thread, and whether the running thread stays on their queue.\<close>

definition policy_live :: "sched_id \<Rightarrow> bool option" where
  "policy_live i =
     (case i of
        Sched_iorr \<Rightarrow> Some True | Sched_bvt \<Rightarrow> Some True | Sched_prio \<Rightarrow> Some True
      | Sched_rtds \<Rightarrow> Some False | Sched_cbs \<Rightarrow> Some False | _ \<Rightarrow> None)"

lemma policy_live_contract:
  "policy_live i = Some res \<Longrightarrow> sched_policy_live (sched_ops i) (policy_rq i) (policy_wf i) res"
  by (cases i) (auto simp: policy_live_def sched_ops_def policy_rq_def policy_wf_def iorr.sched_policy_live_axioms
      bvt.sched_policy_live_axioms rtds.sched_policy_live_axioms cbs.sched_policy_live_axioms prio.sched_policy_live_axioms)

end
