(* ===== verification/Sched_Steps.thy ===== *)
theory Sched_Steps
  imports Sched_Dispatch
begin

text \<open>
  The operations of the scheduler as steps of a transition system. The steps of a pCPU's scheduler
  interleave in any order: a step of another pCPU first makes that pCPU the current one, and the
  clock may move between any two steps. The invariant of every policy holds in each state that the
  steps reach.
\<close>

section \<open>Registry\<close>

lemma registry_quiet:
  assumes "registry_inv p s" and "thread_list s' = thread_list s"
    and "\<And>t. pcpu_id (threads s' t) = pcpu_id (threads s t)" and "\<And>t. sched_ctl (threads s' t) = sched_ctl (threads s t)"
    and "\<And>t. priority_pending (threads s' t) \<Longrightarrow> priority_pending (threads s t)"
  shows "registry_inv p s'"
  using assms by (auto simp: registry_inv_def managed_def)

context sched_policy
begin

lemma registry_hook:
  "hook_frame s s' \<Longrightarrow> registry_inv p s \<Longrightarrow> registry_inv p s'"
  by (erule registry_quiet) (simp_all add: hook_frameD)

lemma registry_sleep:
  assumes I: "pcpu_inv rq wfq p s" and R: "registry_inv p s" and m: "managed p t s"
  shows "registry_inv p (snd (sleep_thread_locked sch t s))"
proof -
  let ?h = "call_hook (hook_sleep sch) t s"
  have "hook_frame s ?h" using I m sleep_ok [of p s t] by (auto simp: pcpu_inv_def hook_ok_def)
  then have "registry_inv p ?h" using R by (rule registry_hook)
  then show ?thesis
    by (rule registry_quiet) (auto simp: sleep_thread_locked_def Let_def make_reschedule_request_def log_event_def
        upd_latency_def set_thread_status_def split: if_splits)
qed

lemma registry_wake:
  assumes I: "pcpu_inv rq wfq p s" and R: "registry_inv p s" and m: "managed p t s"
  shows "registry_inv p (wake_thread_locked sch t s)"
proof (cases "is_blocked t s \<or> be_blocking (threads s t)")
  case True
  let ?h = "call_hook (hook_wake sch) t s"
  have "t \<notin> set (rq p s)" using pcpu_inv_blocked_not_queued [OF I True] .
  then have "hook_frame s ?h" using I m wake_ok [of p s t] by (auto simp: pcpu_inv_def hook_ok_def)
  then have "registry_inv p ?h" using R by (rule registry_hook)
  then show ?thesis
    by (rule registry_quiet) (use True in \<open>auto simp: wake_thread_locked_def Let_def make_reschedule_request_def log_event_def
        upd_latency_def set_thread_status_def split: if_splits\<close>)
qed (use R in \<open>simp add: wake_thread_locked_def\<close>)

lemma priority_request_inv:
  assumes I: "pcpu_inv rq wfq p s" and R: "registry_inv p s" and m: "pcpu_id (threads s t) = p \<Longrightarrow> managed p t s"
  shows "pcpu_inv rq wfq p (request_thread_priority sch t s)" "registry_inv p (request_thread_priority sch t s)"
proof -
  let ?s = "request_thread_priority_no_resched sch t s"
  have ps: "policy_same s ?s"
    by (auto simp: request_thread_priority_no_resched_def split: option.split intro: policy_same_trans)
  have "pcpu_inv rq wfq p ?s" by (rule pcpu_inv_quiet [OF I ps])
      (auto simp: request_thread_priority_no_resched_def curr_def split: option.split)
  then show "pcpu_inv rq wfq p (request_thread_priority sch t s)" unfolding request_thread_priority_def by (rule make_reschedule_inv)
  have "registry_inv p ?s" using R m
    by (auto simp: request_thread_priority_no_resched_def registry_inv_def managed_def split: option.split)
  then show "registry_inv p (request_thread_priority sch t s)" unfolding request_thread_priority_def
    by (rule registry_quiet) (auto simp: make_reschedule_request_def Let_def log_event_def split: if_splits)
qed

end

section \<open>Steps\<close>

inductive sched_step :: "sched_id \<Rightarrow> nat \<Rightarrow> sched_sys \<Rightarrow> sched_sys \<Rightarrow> bool" for i p where
  Schedule: "cur_pcpu s = p \<Longrightarrow> sched_step i p s (schedule_with (sched_ops i) s)"
| Sleep: "managed p t s \<Longrightarrow> sched_step i p s (sleep_thread (sched_ops i) t s)"
| Wake: "managed p t s \<Longrightarrow> sched_step i p s (wake_thread (sched_ops i) t s)"
| Freeze: "managed p t s \<Longrightarrow> sched_step i p s (snd (snd (freeze_thread (sched_ops i) (Some t) e s)))"
| Thaw: "managed p t s \<Longrightarrow> sched_step i p s (snd (thaw_thread (sched_ops i) (Some t) e w s))"
| Priority: "managed p t s \<Longrightarrow> sched_step i p s (request_thread_priority (sched_ops i) t s)"
| Yield: "sched_step i p s (yield_current s)"
| Quiesce: "sched_step i p s (snd (request_thread_quiesce obj g s))"
| Release: "sched_ctl (threads s t) \<noteq> None \<Longrightarrow> sched_step i p s (release_thread_quiesce (Some t) s)"
| Ack: "sched_step i p s (snd (sched_ack_quiesce_from_idle q s))"
| Other_pcpu: "sched_step i p s (s\<lparr>cur_pcpu := q\<rparr>)"
| Clock: "sched_step i p s (s\<lparr>tsc := ts\<rparr>)"

inductive_cases sched_stepE: "sched_step i p s s'"

definition step_inv :: "sched_id \<Rightarrow> nat \<Rightarrow> sched_sys \<Rightarrow> bool" where
  "step_inv i p s \<longleftrightarrow> pcpu_inv (policy_rq i) (policy_wf i) p s \<and> registry_inv p s"

lemma policy_migrate:
  "policy_rq i p (s\<lparr>cur_pcpu := q\<rparr>) = policy_rq i p s" "policy_wf i p (s\<lparr>cur_pcpu := q\<rparr>) = policy_wf i p s"
proof -
  show "policy_rq i p (s\<lparr>cur_pcpu := q\<rparr>) = policy_rq i p s"
    by (cases i) (simp_all add: policy_rq_def noop_rq_def iorr_rq_def bvt_rq_def rtds_rq_def rtds_ready_def rtds_depleted_def
        cbs_rq_def prio_rq_def arinc_rq_def bfp_rq_def bfp_ready_def bfp_depleted_def)
  show "policy_wf i p (s\<lparr>cur_pcpu := q\<rparr>) = policy_wf i p s"
    by (cases i) (simp_all add: policy_wf_def rtds_wf_def rtds_linked_def rtds_rq_def rtds_ready_def rtds_depleted_def managed_def
        cbs_wf_def arinc_wf_def bfp_wf_but_def bfp_linked_def bfp_rq_def bfp_ready_def bfp_depleted_def bfp_higher_def
        bfp_replenish_less_def in_order_def cbs_rq_def)
qed

lemma step_inv_migrate: "step_inv i p s \<Longrightarrow> step_inv i p (s\<lparr>cur_pcpu := q\<rparr>)"
proof -
  let ?s = "s\<lparr>cur_pcpu := q\<rparr>"
  have m: "managed p t ?s = managed p t s" for t by (simp add: managed_def)
  have b: "base_inv p ?s = base_inv p s" by (simp add: base_inv_def m is_running_def curr_def)
  have e: "eligible p t ?s = eligible p t s" for t by (simp add: eligible_def m is_blocked_def)
  have t: "timer_ok ?s = timer_ok s" by (rule timer_ok_cong) simp_all
  show "step_inv i p s \<Longrightarrow> step_inv i p ?s"
    by (simp add: step_inv_def pcpu_inv_def queue_inv_def registry_inv_def policy_migrate b e t m)
qed

lemma step_inv_quiet:
  assumes "step_inv i p s" and "policy_same s s'" and "thread_list s' = thread_list s"
    and "\<And>t. status (threads s' t) = status (threads s t)"
    and "\<And>t. be_blocking (threads s' t) = be_blocking (threads s t)"
    and "\<And>t. priority_pending (threads s' t) = priority_pending (threads s t)"
    and "curr p s' = curr p s" and "ctl_pcpu_id (sched_ctls s' p) = ctl_pcpu_id (sched_ctls s p)"
  shows "step_inv i p s'"
proof -
  have "pcpu_id (threads s' t) = pcpu_id (threads s t)" "sched_ctl (threads s' t) = sched_ctl (threads s t)" for t
    using assms(2) by (simp_all add: policy_same_def)
  then show ?thesis
    using assms policies.pcpu_inv_quiet [of i p s s'] registry_quiet [of p s s'] by (simp add: step_inv_def)
qed

lemma ack_one_quiet:
  fixes q vm s
  defines "s' \<equiv> snd (ack_one q vm s)"
  shows "policy_same s s' \<and> thread_list s' = thread_list s \<and> threads s' = threads s
    \<and> curr p s' = curr p s \<and> ctl_pcpu_id (sched_ctls s' p) = ctl_pcpu_id (sched_ctls s p)"
  by (auto simp: s'_def ack_one_def Let_def policy_same_def upd_slot_def curr_def split: option.split)

lemma ack_loop_quiet:
  fixes p
  shows "policy_same s (snd (ack_loop q m a s)) \<and> thread_list (snd (ack_loop q m a s)) = thread_list s
    \<and> threads (snd (ack_loop q m a s)) = threads s \<and> curr p (snd (ack_loop q m a s)) = curr p s
    \<and> ctl_pcpu_id (sched_ctls (snd (ack_loop q m a s)) p) = ctl_pcpu_id (sched_ctls s p)"
proof (induction q m a s rule: ack_loop.induct)
  case (1 q m a s)
  obtain b s' where ab: "ack_one q (ffs64 m) s = (b, s')" by fastforce
  show ?case using 1 [OF refl _ ab [symmetric] refl] ack_one_quiet [of s q "ffs64 m" p] ab
    by (subst (1 2 3 4 5) ack_loop.simps) (auto simp: Let_def intro: policy_same_trans)
qed

theorem sched_step_inv:
  assumes "sched_step i p s s'" and "step_inv i p s"
  shows "step_inv i p s'"
  using assms
proof cases
  case Schedule
  then show ?thesis using assms(2) policies.schedule_inv(1) policies.schedule_registry by (simp add: step_inv_def)
next
  case (Sleep t)
  then show ?thesis using assms(2) policies.sleep_locked_inv(1) policies.registry_sleep
    by (simp add: step_inv_def sleep_thread_def)
next
  case (Wake t)
  have "registry_inv p (upd_thread t (\<lambda>th. th\<lparr>deferred_wake := True\<rparr>) s)"
    by (rule registry_quiet [of p s]) (use assms(2) in \<open>auto simp: step_inv_def split: if_splits\<close>)
  then show ?thesis using Wake assms(2) policies.wake_thread_inv policies.registry_wake
    by (simp add: step_inv_def wake_thread_def)
next
  case (Freeze t e)
  let ?s = "upd_thread t (\<lambda>th. th\<lparr>freeze_epoch := e, deferred_wake := False\<rparr>) s"
  have I: "pcpu_inv (policy_rq i) (policy_wf i) p s" "registry_inv p s" using assms(2) by (simp_all add: step_inv_def)
  have R: "registry_inv p ?s" by (rule registry_quiet [OF I(2)]) (auto split: if_splits)
  have m: "managed p t ?s" using Freeze by (simp add: managed_def)
  show ?thesis using Freeze I R policies.freeze_thread_inv [OF I(1) Freeze(2)]
      policies.registry_sleep [OF policies.gate_inv(1) [OF I(1)] R m] policies.registry_sleep [OF I Freeze(2)]
    by (simp add: step_inv_def freeze_thread_def Let_def split_def)
next
  case (Thaw t e w)
  let ?s = "upd_thread t (\<lambda>th. th\<lparr>freeze_epoch := 0, deferred_wake := False\<rparr>) s"
  have I: "pcpu_inv (policy_rq i) (policy_wf i) p s" "registry_inv p s" using assms(2) by (simp_all add: step_inv_def)
  have R: "registry_inv p ?s" by (rule registry_quiet [OF I(2)]) (auto split: if_splits)
  have m: "managed p t ?s" using Thaw by (simp add: managed_def)
  show ?thesis using Thaw I R policies.thaw_thread_inv [OF I(1) Thaw(2)]
      policies.registry_wake [OF policies.gate_inv(1) [OF I(1)] R m]
    by (simp add: step_inv_def thaw_thread_def Let_def)
next
  case (Priority t)
  then show ?thesis using assms(2) policies.priority_request_inv [of i p s t] by (simp add: step_inv_def)
next
  case Yield
  show ?thesis unfolding Yield yield_current_def
    by (rule step_inv_quiet [OF assms(2)]) (auto simp: make_reschedule_request_def Let_def log_event_def policy_same_def curr_def)
next
  case (Quiesce obj g)
  show ?thesis unfolding Quiesce
    by (rule step_inv_quiet [OF assms(2)])
      (auto simp: request_thread_quiesce_def Let_def policy_same_def make_reschedule_request_def log_event_def upd_slot_def curr_def
        split: option.split)
next
  case (Release t)
  then obtain c where "sched_ctl (threads s t) = Some c" by blast
  then show ?thesis unfolding Release(1)
    by (intro step_inv_quiet [OF assms(2)])
      (auto simp: release_thread_quiesce_def Let_def policy_same_def upd_slot_def curr_def)
next
  case (Ack q)
  then show ?thesis using ack_loop_quiet assms(2)
    by (intro step_inv_quiet [OF assms(2)]) (simp_all add: sched_ack_quiesce_from_idle_def)
next
  case (Other_pcpu q)
  then show ?thesis using assms(2) step_inv_migrate by simp
next
  case (Clock ts)
  show ?thesis unfolding Clock by (rule step_inv_quiet [OF assms(2)]) (simp_all add: policy_same_def curr_def)
qed

end
