(* ===== verification/Sched_Gates.thy ===== *)
theory Sched_Gates
  imports Sched_Steps
begin

text \<open>
  The two gates that keep a thread from running: the freeze of the power manager and the quiesce
  slot of VM recovery (\<open>core/schedule.c\<close>). The lemmas follow one thread through the gate.
\<close>

section \<open>Freeze\<close>

context sched_policy
begin

text \<open>A hook keeps the gate of each thread.\<close>

lemma sleep_gate:
  assumes I: "pcpu_inv rq wfq p s" and m: "managed p t s"
  shows "freeze_epoch (threads (snd (sleep_thread_locked sch t s)) u) = freeze_epoch (threads s u)"
    and "managed p u (snd (sleep_thread_locked sch t s)) = managed p u s"
proof -
  let ?h = "call_hook (hook_sleep sch) t s"
  have h: "hook_frame s ?h" using I m sleep_ok [of p s t] by (auto simp: pcpu_inv_def hook_ok_def)
  have "freeze_epoch (threads ?h u) = freeze_epoch (threads s u)" "managed p u ?h = managed p u s"
    using h by (simp_all add: hook_frameD managed_frame)
  then show "freeze_epoch (threads (snd (sleep_thread_locked sch t s)) u) = freeze_epoch (threads s u)"
    "managed p u (snd (sleep_thread_locked sch t s)) = managed p u s"
    by (auto simp: sleep_thread_locked_def Let_def upd_latency_def set_thread_status_def managed_def)
qed

lemma wake_not_running:
  assumes I: "pcpu_inv rq wfq p s" and m: "managed p t s" and b: "is_blocked t s"
  shows "\<not> is_running t (wake_thread_locked sch t s)"
proof -
  have "t \<notin> set (rq p s)" using pcpu_inv_blocked_not_queued [OF I] b by blast
  then have "hook_frame s (call_hook (hook_wake sch) t s)" using I m wake_ok [of p s t] by (auto simp: pcpu_inv_def hook_ok_def)
  then have "is_blocked t (call_hook (hook_wake sch) t s)" using b by (simp add: hook_frameD)
  then show ?thesis using b by (simp add: wake_thread_locked_def Let_def is_running_def)
qed

lemma freeze_thaw:
  assumes I: "pcpu_inv rq wfq p s" and e: "eligible p t s" and z: "freeze_epoch (threads s t) = 0" "epoch \<noteq> 0"
    and F: "freeze_thread sch (Some t) epoch s = (frozen, wake_owned, s')"
  shows "frozen" and "wake_owned" and "\<not> eligible p t s'" and "t \<notin> set (rq p s')"
    and "fst (thaw_thread sch (Some t) epoch wake_owned s')"
    and "eligible p t (snd (thaw_thread sch (Some t) epoch wake_owned s'))"
    and "pcpu_inv rq wfq p s'"
proof -
  let ?s = "upd_thread t (\<lambda>th. th\<lparr>freeze_epoch := epoch, deferred_wake := False\<rparr>) s"
  let ?t = "upd_thread t (\<lambda>th. th\<lparr>freeze_epoch := 0, deferred_wake := False\<rparr>) s'"
  have m: "managed p t ?s" using e by (simp add: eligible_def managed_def)
  have I': "pcpu_inv rq wfq p ?s" by (rule gate_inv(1) [OF I])
  have s': "sleep_thread_locked sch t ?s = (wake_owned, s')" "frozen"
    using F z by (auto simp: freeze_thread_def Let_def split_def)
  then have own: "wake_owned" using e by (auto simp: sleep_thread_locked_def Let_def eligible_def is_blocked_def split: if_splits)
  note S = sleep_locked_inv [OF I' m, unfolded s' snd_conv] and G = sleep_gate [OF I' m, unfolded s' snd_conv]
  have blk: "is_blocked t s' \<or> be_blocking (threads s' t)" using S(3,4) by blast
  have ep: "freeze_epoch (threads s' t) = epoch" using G(1) by simp
  have m': "managed p t ?t" using G(2) [of t] m by (simp add: managed_def)
  show "frozen" "wake_owned" "t \<notin> set (rq p s')" "pcpu_inv rq wfq p s'" using s' own S by simp_all
  show "\<not> eligible p t s'" using blk by (auto simp: eligible_def)
  show "fst (thaw_thread sch (Some t) epoch wake_owned s')"
    "eligible p t (snd (thaw_thread sch (Some t) epoch wake_owned s'))"
    using wake_locked_inv(2) [OF gate_inv(1) [OF S(1)] m'] ep own z by (simp_all add: thaw_thread_def Let_def)
qed

end

section \<open>Quiesce\<close>

lemma ack_one_slot:
  "sched_quiesce_slots (snd (ack_one p vm s)) q v =
     (let sl = sched_quiesce_slots s q v
      in if q = p \<and> v = vm \<and> (\<exists>t. slot_obj sl = Some t \<and> curr p s = Some (Idle p) \<and> is_vcpu (threads s t)
             \<and> pcpu_id (threads s t) = p \<and> vm_id (threads s t) = vm \<and> request_generation sl \<noteq> 0
             \<and> is_blocked t s \<and> \<not> be_blocking (threads s t) \<and> t \<noteq> Idle p)
         then sl\<lparr>ack_generation := request_generation sl\<rparr> else sl)"
  by (auto simp: ack_one_def Let_def upd_slot_def split: option.splits)

text \<open>The bits the loop visits.\<close>

lemma ack_loop_slot:
  "sched_quiesce_slots (snd (ack_loop p m a s)) q v =
     (if bit m v \<and> v < CONFIG_MAX_VM_NUM then sched_quiesce_slots (snd (ack_one p v s)) q v
      else sched_quiesce_slots s q v)"
proof (induction p m a s rule: ack_loop.induct)
  case (1 p m a s)
  let ?vm = "ffs64 m"
  obtain b s' where ab: "ack_one p ?vm s = (b, s')" by fastforce
  have fr: "threads s' = threads s" "curr p s' = curr p s" using ack_one_quiet [of s p ?vm p] ab by simp_all
  have other: "sched_quiesce_slots s' q v = sched_quiesce_slots s q v" if "v \<noteq> ?vm"
    using ack_one_slot [of p ?vm s q v] that ab by (simp add: Let_def)
  show ?case
  proof (cases "?vm < CONFIG_MAX_VM_NUM")
    case True
    then have nz: "m \<noteq> 0" and lt: "?vm < 64" using ffs64_none [of m] by (auto simp: CONFIG_MAX_VM_NUM_def)
    have step: "snd (ack_loop p m a s) = snd (ack_loop p (bitmap_clear ?vm m) (a \<or> b) s')"
      using True ab by (subst ack_loop.simps) (simp add: Let_def)
    have bits: "bit (bitmap_clear ?vm m) v \<longleftrightarrow> bit m v \<and> v \<noteq> ?vm" using lt by (auto simp: bit_bitmap_clear)
    have one: "sched_quiesce_slots (snd (ack_one p v s')) q v = sched_quiesce_slots (snd (ack_one p v s)) q v" if "v \<noteq> ?vm"
      using other [OF that] fr by (simp add: ack_one_slot Let_def is_blocked_def)
    show ?thesis
      using 1 [OF refl True ab [symmetric] refl] step bits one other True ab ffs64_least(1) [OF nz]
      by (cases "v = ?vm") auto
  next
    case False
    have "\<not> (bit m v \<and> v < CONFIG_MAX_VM_NUM)"
    proof
      assume "bit m v \<and> v < CONFIG_MAX_VM_NUM"
      moreover from this have "m \<noteq> 0" by auto
      ultimately show False using ffs64_least(3) [of m v] False by linarith
    qed
    then show ?thesis using False by (subst ack_loop.simps) auto
  qed
qed

lemma ack_slot:
  "sched_quiesce_slots (snd (sched_ack_quiesce_from_idle p s)) q v =
     (if bit (quiesce_request_vm_mask (sched_ctls s p)) v \<and> v < CONFIG_MAX_VM_NUM
      then sched_quiesce_slots (snd (ack_one p v s)) q v else sched_quiesce_slots s q v)"
  by (simp add: sched_ack_quiesce_from_idle_def ack_loop_slot)

lemma ack_threads [simp]: "threads (snd (sched_ack_quiesce_from_idle p s)) = threads s"
  using ack_loop_quiet [of s p] by (simp add: sched_ack_quiesce_from_idle_def)

text \<open>Completion is published only by a pCPU that runs idle, for a thread that is off the processor.\<close>

lemma quiesced_by_ack:
  assumes "is_thread_quiesced (Some t) g (snd (sched_ack_quiesce_from_idle p s))" and "\<not> is_thread_quiesced (Some t) g s"
  shows "pcpu_id (threads s t) = p" and "curr p s = Some (Idle p)" and "is_blocked t s" and "\<not> be_blocking (threads s t)"
  using assms
  by (auto simp: is_thread_quiesced_def quiesce_target_def quiesce_slot_def ack_slot ack_one_slot Let_def split: if_splits)

text \<open>A blocked thread is acknowledged by the first turn of the idle loop after the request.\<close>

lemma quiesce_acked:
  assumes R: "request_thread_quiesce (Some t) g s = (True, s')" and c: "sched_ctl (threads s t) = Some p"
    and p: "pcpu_id (threads s t) = p" "curr p s = Some (Idle p)" "t \<noteq> Idle p" and b: "is_blocked t s" "\<not> be_blocking (threads s t)"
  shows "is_thread_quiesced (Some t) g (snd (sched_ack_quiesce_from_idle p s'))"
proof -
  have tg: "quiesce_target t s" "g \<noteq> 0" using R by (auto simp: request_thread_quiesce_def split: if_splits)
  have th: "threads s' = threads s" and cu: "curr p s' = curr p s"
    and sl: "slot_obj (sched_quiesce_slots s' p (vm_id (threads s t))) = Some t"
      "request_generation (sched_quiesce_slots s' p (vm_id (threads s t))) = g"
    and mk: "quiesce_request_vm_mask (sched_ctls s' p) = bitmap_set (vm_id (threads s t)) (quiesce_request_vm_mask (sched_ctls s p))"
    using R c p by (auto simp: request_thread_quiesce_def Let_def upd_slot_def make_reschedule_request_def curr_def split: if_splits)
  have "vm_id (threads s t) < CONFIG_MAX_VM_NUM" using tg by (simp add: quiesce_target_def)
  then have "bit (quiesce_request_vm_mask (sched_ctls s' p)) (vm_id (threads s t))" "vm_id (threads s t) < CONFIG_MAX_VM_NUM"
    by (simp_all add: mk bit_bitmap_set CONFIG_MAX_VM_NUM_def)
  then show ?thesis
    using tg th cu sl p b by (simp add: is_thread_quiesced_def quiesce_target_def quiesce_slot_def ack_slot ack_one_slot Let_def is_blocked_def)
qed

section \<open>The only runnable thread\<close>

lemma only_runnable_loop_one:
  assumes "only_runnable_loop p c s ts n obj = (1, Some c)"
  shows "ts = [] \<and> obj = Some c \<or> ts \<noteq> [] \<and> c = last ts"
    and "t \<in> set ts \<Longrightarrow> t \<noteq> c \<Longrightarrow>
      pcpu_id (threads s t) \<noteq> p \<or> is_idle_thread t s \<or> be_blocking (threads s t) \<or> \<not> is_runnable_or_running t s"
proof -
  have "(ts = [] \<and> obj = Some c \<or> ts \<noteq> [] \<and> c = last ts) \<and> (\<forall>t \<in> set ts. t \<noteq> c \<longrightarrow>
      pcpu_id (threads s t) \<noteq> p \<or> is_idle_thread t s \<or> be_blocking (threads s t) \<or> \<not> is_runnable_or_running t s)"
    using assms by (induction p c s ts n obj rule: only_runnable_loop.induct) (auto split: if_splits)
  then show "ts = [] \<and> obj = Some c \<or> ts \<noteq> [] \<and> c = last ts"
    "t \<in> set ts \<Longrightarrow> t \<noteq> c \<Longrightarrow>
      pcpu_id (threads s t) \<noteq> p \<or> is_idle_thread t s \<or> be_blocking (threads s t) \<or> \<not> is_runnable_or_running t s"
    by blast+
qed

end
