(* ===== verification/Sched_Event.thy ===== *)
theory Sched_Event
  imports Sched_Gates
begin

text \<open>
  The exclusive wait primitive of \<open>core/event.c\<close>. The operations take the policy \<open>sch\<close> of the waiter's
  pCPU, as those of \<open>Sched_Core\<close> do. The parts of \<open>wait_event\<close> between two points where it drops the lock
  of the event are definitions of their own: \<open>wait_event\<close> composes them with what others do meanwhile as
  an argument, and the relation \<open>event_step\<close> interleaves them with any signals and scheduler operations.
\<close>

section \<open>Model\<close>

record sched_event =
  ev_set :: bool
  waiting_thread :: "thread_ref option"

definition init_event :: sched_event where
  "init_event = \<lparr>ev_set = False, waiting_thread = None\<rparr>"

definition reset_event :: "sched_event \<Rightarrow> sched_event" where
  "reset_event e = e\<lparr>ev_set := False, waiting_thread := None\<rparr>"

definition signal_event :: "acrn_scheduler \<Rightarrow> sched_event \<times> sched_sys \<Rightarrow> sched_event \<times> sched_sys" where
  "signal_event sch x =
     (let (e, s) = x
      in (e\<lparr>ev_set := True\<rparr>, case waiting_thread e of None \<Rightarrow> s | Some t \<Rightarrow> wake_thread sch t s))"

definition wait_enter :: "sched_event \<times> sched_sys \<Rightarrow> sched_event \<times> sched_sys" where
  "wait_enter x =
     (let (e, s) = x;
          s = assertion (waiting_thread e = None) ''only support exclusive waiting'' s
      in (e\<lparr>waiting_thread := curr (cur_pcpu s) s\<rparr>, s))"

definition must_wait :: "sched_event \<Rightarrow> bool" where
  "must_wait e \<longleftrightarrow> \<not> ev_set e \<and> waiting_thread e \<noteq> None"

definition wait_sleep :: "acrn_scheduler \<Rightarrow> sched_event \<times> sched_sys \<Rightarrow> sched_event \<times> sched_sys" where
  "wait_sleep sch x =
     (let (e, s) = x in (e, case waiting_thread e of None \<Rightarrow> s | Some t \<Rightarrow> sleep_thread sch t s))"

definition wait_leave :: "sched_event \<times> sched_sys \<Rightarrow> sched_event \<times> sched_sys" where
  "wait_leave x = (let (e, s) = x in (e\<lparr>ev_set := False, waiting_thread := None\<rparr>, s))"

text \<open>
  In round \<open>n\<close> of the loop, \<open>before n\<close> happens between the release of the lock and \<open>schedule()\<close>, and \<open>after n\<close>
  until the waiter has the lock again.
\<close>

type_synonym event_env = "nat \<Rightarrow> sched_event \<times> sched_sys \<Rightarrow> sched_event \<times> sched_sys"

partial_function (option) wait_loop ::
  "acrn_scheduler \<Rightarrow> event_env \<Rightarrow> event_env \<Rightarrow> nat \<Rightarrow> sched_event \<times> sched_sys \<Rightarrow> (sched_event \<times> sched_sys) option" where
  "wait_loop sch before after n x =
     (if must_wait (fst x) then
        let (e, s) = before n (wait_sleep sch x)
        in wait_loop sch before after (Suc n) (after n (e, schedule_with sch s))
      else Some (wait_leave x))"

definition wait_event ::
  "acrn_scheduler \<Rightarrow> event_env \<Rightarrow> event_env \<Rightarrow> sched_event \<times> sched_sys \<Rightarrow> (sched_event \<times> sched_sys) option" where
  "wait_event sch before after x = wait_loop sch before after 0 (wait_enter x)"

section \<open>Interleaving\<close>

text \<open>Where the waiter is: before the call, with the lock, after \<open>sleep_thread\<close>, after \<open>schedule()\<close>, past the loop.\<close>

datatype wait_pc = Calls | Checks | Slept | Scheduled | Left

text \<open>What others do to the pCPU of the waiter \<open>t\<close>: they neither put it to sleep nor touch its gates.\<close>

inductive bystander_step :: "bool \<Rightarrow> sched_id \<Rightarrow> nat \<Rightarrow> thread_ref \<Rightarrow> sched_sys \<Rightarrow> sched_sys \<Rightarrow> bool" for ok i p t where
  By_schedule: "cur_pcpu s = p \<Longrightarrow> ok \<or> \<not> sched_idle_work_pending_locked p s
    \<Longrightarrow> bystander_step ok i p t s (schedule_with (sched_ops i) s)"
| By_sleep: "managed p u s \<Longrightarrow> u \<noteq> t \<Longrightarrow> bystander_step ok i p t s (sleep_thread (sched_ops i) u s)"
| By_wake: "managed p u s \<Longrightarrow> bystander_step ok i p t s (wake_thread (sched_ops i) u s)"
| By_priority: "managed p u s \<Longrightarrow> bystander_step ok i p t s (request_thread_priority (sched_ops i) u s)"
| By_yield: "bystander_step ok i p t s (yield_current s)"
| By_other_pcpu: "bystander_step ok i p t s (s\<lparr>cur_pcpu := q\<rparr>)"
| By_clock: "bystander_step ok i p t s (s\<lparr>tsc := ts\<rparr>)"

inductive event_step ::
  "bool \<Rightarrow> sched_id \<Rightarrow> nat \<Rightarrow> thread_ref \<Rightarrow> wait_pc \<times> sched_event \<times> sched_sys \<Rightarrow> wait_pc \<times> sched_event \<times> sched_sys \<Rightarrow> bool"
  for ok i p t where
  Ev_enter: "curr p s = Some t \<Longrightarrow> cur_pcpu s = p \<Longrightarrow> event_step ok i p t (Calls, e, s) (Checks, wait_enter (e, s))"
| Ev_sleep: "must_wait e \<Longrightarrow> event_step ok i p t (Checks, e, s) (Slept, wait_sleep (sched_ops i) (e, s))"
| Ev_leave: "\<not> must_wait e \<Longrightarrow> event_step ok i p t (Checks, e, s) (Left, wait_leave (e, s))"
| Ev_schedule: "curr p s = Some t \<Longrightarrow> cur_pcpu s = p \<Longrightarrow> ok \<or> \<not> sched_idle_work_pending_locked p s
    \<Longrightarrow> event_step ok i p t (Slept, e, s) (Scheduled, e, schedule_with (sched_ops i) s)"
| Ev_resume: "curr p s = Some t \<Longrightarrow> cur_pcpu s = p \<Longrightarrow> event_step ok i p t (Scheduled, e, s) (Checks, e, s)"
| Ev_signal: "pc \<noteq> Checks \<Longrightarrow> event_step ok i p t (pc, e, s) (pc, signal_event (sched_ops i) (e, s))"
| Ev_other: "bystander_step ok i p t s s' \<Longrightarrow> event_step ok i p t (pc, e, s) (pc, e, s')"

inductive_cases event_stepE: "event_step ok i p t x y"

section \<open>What the scheduler's operations keep of a thread\<close>

text \<open>The gates of the threads, and the pCPU that they belong to.\<close>

definition gate_same :: "sched_sys \<Rightarrow> sched_sys \<Rightarrow> bool" where
  "gate_same s s' \<longleftrightarrow>
     (\<forall>t. freeze_epoch (threads s' t) = freeze_epoch (threads s t) \<and> is_vcpu (threads s' t) = is_vcpu (threads s t)
        \<and> vm_id (threads s' t) = vm_id (threads s t) \<and> pcpu_id (threads s' t) = pcpu_id (threads s t)
        \<and> sched_ctl (threads s' t) = sched_ctl (threads s t))
     \<and> sched_quiesce_slots s' = sched_quiesce_slots s"

definition gate_open :: "thread_ref \<Rightarrow> sched_sys \<Rightarrow> bool" where
  "gate_open t s \<longleftrightarrow> \<not> thread_quiesce_active_locked t s \<and> freeze_epoch (threads s t) = 0"

lemma gate_sameD:
  assumes "gate_same s s'"
  shows "managed p t s' = managed p t s" and "gate_open t s' = gate_open t s"
  using assms by (simp_all add: gate_same_def managed_def gate_open_def thread_quiesce_active_locked_def quiesce_target_def quiesce_slot_def)

lemma gate_same_refl [simp]: "gate_same s s"
  by (simp add: gate_same_def)

lemma gate_same_trans: "gate_same s s' \<Longrightarrow> gate_same s' s'' \<Longrightarrow> gate_same s s''"
  by (simp add: gate_same_def)

lemma gate_same_hook: "hook_frame s s' \<Longrightarrow> gate_same s s'"
  using hook_frameD by (simp add: gate_same_def)

lemma gate_same_prims [simp]:
  "gate_same s (upd_latency t f s)" "gate_same s (set_thread_status t st s)"
  "gate_same s (upd_thread t (\<lambda>th. th\<lparr>be_blocking := b\<rparr>) s)"
  "gate_same s (upd_thread t (\<lambda>th. th\<lparr>priority_pending := b\<rparr>) s)"
  "gate_same s (upd_thread t (\<lambda>th. th\<lparr>deferred_wake := b\<rparr>) s)"
  "gate_same s (upd_thread t (\<lambda>th. th\<lparr>ptrauth_return_authenticated := b\<rparr>) s)"
  "gate_same s (upd_ctl p g s)" "gate_same s (log_event e2 s)" "gate_same s (tick_read s)"
  "gate_same s (make_reschedule_request p s)" "gate_same s (s\<lparr>cur_pcpu := q\<rparr>)" "gate_same s (s\<lparr>tsc := ts\<rparr>)"
  by (auto simp: gate_same_def upd_latency_def set_thread_status_def log_event_def make_reschedule_request_def Let_def)

lemma slots_make_reschedule [simp]: "sched_quiesce_slots (make_reschedule_request p s) = sched_quiesce_slots s"
  by (simp add: make_reschedule_request_def Let_def log_event_def)

lemma gate_same_switch: "gate_same s (switch_threads p prev nx s)"
  by (auto simp: switch_threads_def leave_thread_def enter_thread_def Let_def gate_same_def upd_latency_def
      set_thread_status_def log_event_def split: option.split)

context sched_policy
begin

lemma gate_same_consume_one:
  assumes "pcpu_inv rq wfq p s" and "pcpu_id (threads s t) = p \<and> priority_pending (threads s t) \<longrightarrow> managed p t s"
  shows "gate_same s (consume_priority_one sch p t s)"
proof -
  let ?s = "upd_thread t (\<lambda>th. th\<lparr>priority_pending := False\<rparr>) s"
  have I: "pcpu_inv rq wfq p ?s" by (rule pcpu_inv_quiet [OF assms(1)]) (simp_all add: curr_def)
  have "hook_frame ?s (f t ?s)"
    if "managed p t s" "is_runnable_or_running t ?s" "\<not> be_blocking (threads ?s t)" "hook_prioritize sch = Some f" for f
    using that by (intro prioritize_inv(2) [OF I _ that(4)])
      (auto simp: eligible_def managed_def is_runnable_or_running_def is_blocked_def)
  then have "gate_same ?s (f t ?s)"
    if "managed p t s" "is_runnable_or_running t ?s" "\<not> be_blocking (threads ?s t)" "hook_prioritize sch = Some f" for f
    using that gate_same_hook by blast
  then show ?thesis using assms(2) gate_same_trans [OF gate_same_prims(4) [of s t False]]
    by (auto simp: consume_priority_one_def Let_def split: option.split)
qed

lemma gate_same_fold_consume:
  assumes "pcpu_inv rq wfq p s"
    and "\<forall>t \<in> set ts. pcpu_id (threads s t) = p \<and> priority_pending (threads s t) \<longrightarrow> managed p t s"
  shows "gate_same s (fold (consume_priority_one sch p) ts s)"
  using assms
proof (induction ts arbitrary: s)
  case (Cons t ts)
  have m: "pcpu_id (threads s t) = p \<and> priority_pending (threads s t) \<longrightarrow> managed p t s" using Cons.prems(2) by simp
  note C = consume_one_inv [OF Cons.prems(1) m]
  have "\<forall>u \<in> set ts. pcpu_id (threads (consume_priority_one sch p t s) u) = p
      \<and> priority_pending (threads (consume_priority_one sch p t s) u) \<longrightarrow> managed p u (consume_priority_one sch p t s)"
    using Cons.prems(2) C(4,5,6) by auto
  from Cons.IH [OF C(1) this] gate_same_consume_one [OF Cons.prems(1) m] show ?case by (simp add: gate_same_trans)
qed simp

lemma gate_same_consume:
  assumes "pcpu_inv rq wfq p s" and "registry_inv p s"
  shows "gate_same s (consume_priority sch p s)"
proof -
  let ?s = "upd_ctl p (\<lambda>c. c\<lparr>ctl_priority_pending := False\<rparr>) s"
  have "pcpu_inv rq wfq p ?s" by (rule pcpu_inv_quiet [OF assms(1)]) (simp_all add: curr_def)
  moreover have "\<forall>t \<in> set (thread_list s). pcpu_id (threads ?s t) = p \<and> priority_pending (threads ?s t) \<longrightarrow> managed p t ?s"
    using assms(2) by (simp add: registry_inv_def managed_def)
  ultimately have "gate_same ?s (fold (consume_priority_one sch p) (thread_list s) ?s)" by (rule gate_same_fold_consume)
  then show ?thesis using gate_same_trans [OF gate_same_prims(7)] by (simp add: consume_priority_def Let_def)
qed

text \<open>\<open>schedule()\<close> blocks no thread but one that is about to block.\<close>

lemma schedule_keeps_thread:
  assumes I: "pcpu_inv rq wfq p s" and R: "registry_inv p s" and p: "cur_pcpu s = p"
  shows "gate_same s (schedule_with sch s)" and "eligible p u s \<Longrightarrow> eligible p u (schedule_with sch s)"
proof -
  let ?s1 = "consume_priority sch p s"
  obtain t s2 where ch: "choose_next sch p ?s1 = (t, s2)" by fastforce
  define s3 where "s3 = upd_ctl p (\<lambda>c. c\<lparr>flags := bitmap_clear NEED_RESCHEDULE (flags c)\<rparr>) s2"
  note C = consume_priority_inv [OF I R]
  have "cur_pcpu ?s1 = p" using C(3) p by simp
  note N = choose_next_inv [OF C(1) this ch]
  obtain c where c: "curr p s = Some c" using I by (auto simp: pcpu_inv_def base_inv_def)
  have eq: "schedule_with sch s = (if c \<noteq> t then switch_threads p (Some c) t s3 else s3)"
    using p c ch by (simp add: schedule_with_def Let_def s3_def)
  have g: "gate_same s s3"
    using gate_same_trans [OF gate_same_trans [OF gate_same_consume [OF I R] gate_same_hook [OF N(2)]] gate_same_prims(7)]
    by (simp add: s3_def)
  then show gs: "gate_same s (schedule_with sch s)" using gate_same_trans [OF g gate_same_switch] by (simp add: eq)
  have "status (threads s3 u) = status (threads s u)" "be_blocking (threads s3 u) = be_blocking (threads s u)"
    using C(5,6) N(2) by (simp_all add: s3_def hook_frameD)
  then show "eligible p u (schedule_with sch s)" if "eligible p u s"
    using that gate_sameD(1) [OF gs] switch_threads_core(1,2) [OF refl, of c t p s3 u]
    by (auto simp: eligible_def is_blocked_def eq)
qed

lemma sleep_keeps_thread:
  assumes I: "pcpu_inv rq wfq p s" and m: "managed p t s"
  shows "gate_same s (sleep_thread sch t s)" and "u \<noteq> t \<Longrightarrow> eligible p u s \<Longrightarrow> eligible p u (sleep_thread sch t s)"
proof -
  let ?h = "call_hook (hook_sleep sch) t s"
  have h: "hook_frame s ?h" using I m sleep_ok [of p s t] by (auto simp: pcpu_inv_def hook_ok_def)
  show gs: "gate_same s (sleep_thread sch t s)"
    using gate_same_hook [OF h]
    by (auto simp: gate_same_def sleep_thread_def sleep_thread_locked_def Let_def upd_latency_def set_thread_status_def)
  have "status (threads (sleep_thread sch t s) u) = status (threads ?h u) \<and>
      be_blocking (threads (sleep_thread sch t s) u) = be_blocking (threads ?h u)" if "u \<noteq> t"
    using that by (auto simp: sleep_thread_def sleep_thread_locked_def Let_def upd_latency_def set_thread_status_def)
  then show "eligible p u (sleep_thread sch t s)" if "u \<noteq> t" "eligible p u s"
    using that gate_sameD(1) [OF gs] h by (simp add: eligible_def is_blocked_def hook_frameD)
qed

lemma wake_keeps_thread:
  assumes I: "pcpu_inv rq wfq p s" and m: "managed p t s"
  shows "gate_same s (wake_thread sch t s)" and "eligible p u s \<Longrightarrow> eligible p u (wake_thread sch t s)"
proof -
  let ?h = "call_hook (hook_wake sch) t s" and ?w = "wake_thread_locked sch t s"
  let ?d = "upd_thread t (\<lambda>th. th\<lparr>deferred_wake := True\<rparr>) s"
  have gw: "gate_same s ?w" and ew: "eligible p u s \<Longrightarrow> eligible p u ?w"
  proof (atomize (full), cases "is_blocked t s \<or> be_blocking (threads s t)")
    case True
    have "t \<notin> set (rq p s)" using pcpu_inv_blocked_not_queued [OF I True] .
    then have h: "hook_frame s ?h" using I m wake_ok [of p s t] by (auto simp: pcpu_inv_def hook_ok_def)
    have gs: "gate_same s ?w"
      using gate_same_hook [OF h]
      by (auto simp: gate_same_def wake_thread_locked_def Let_def upd_latency_def set_thread_status_def)
    have "eligible p u ?w" if "u \<noteq> t" "eligible p u s"
    proof -
      have "status (threads ?w u) = status (threads ?h u) \<and> be_blocking (threads ?w u) = be_blocking (threads ?h u)"
        using that(1) True by (auto simp: wake_thread_locked_def Let_def upd_latency_def set_thread_status_def)
      then show ?thesis using that gate_sameD(1) [OF gs] h by (simp add: eligible_def is_blocked_def hook_frameD)
    qed
    then show "gate_same s ?w \<and> (eligible p u s \<longrightarrow> eligible p u ?w)" using gs wake_locked_inv(2) [OF I m] by blast
  qed (simp add: wake_thread_locked_def)
  have "eligible p u s \<Longrightarrow> eligible p u ?d"
    using gate_sameD(1) [OF gate_same_prims(5)] by (auto simp: eligible_def is_blocked_def)
  then show "gate_same s (wake_thread sch t s)" "eligible p u s \<Longrightarrow> eligible p u (wake_thread sch t s)"
    using gw ew by (simp_all add: wake_thread_def)
qed

end

section \<open>Bystanders\<close>

lemma bystander_sched_step: "bystander_step ok i p t s s' \<Longrightarrow> sched_step i p s s'"
  by (induction rule: bystander_step.induct) (auto intro: sched_step.intros)

text \<open>An update of the framework between two hooks.\<close>

lemma ready_quiet:
  assumes "ready_inv res (policy_rq i) p s" and "policy_same s s'"
    and "\<And>t. status (threads s' t) = status (threads s t)" and "\<And>t. be_blocking (threads s' t) = be_blocking (threads s t)"
  shows "ready_inv res (policy_rq i) p s'"
proof -
  have "eligible p t s' = eligible p t s" "is_running t s' = is_running t s" for t
    using assms(2-) by (simp_all add: policy_same_def eligible_def managed_def is_blocked_def is_running_def)
  then show ?thesis using assms(1) policies.rq_same [OF assms(2)] by (simp add: ready_inv_def)
qed

lemma priority_quiet:
  "policy_same s (request_thread_priority sch u s) \<and> gate_same s (request_thread_priority sch u s)
   \<and> status (threads (request_thread_priority sch u s) v) = status (threads s v)
   \<and> be_blocking (threads (request_thread_priority sch u s) v) = be_blocking (threads s v)"
  by (auto simp: request_thread_priority_def request_thread_priority_no_resched_def make_reschedule_request_def Let_def
      log_event_def policy_same_def gate_same_def split: option.split)

lemma yield_quiet:
  "policy_same s (yield_current s) \<and> gate_same s (yield_current s) \<and> threads (yield_current s) = threads s"
  by (auto simp: yield_current_def make_reschedule_request_def Let_def log_event_def policy_same_def gate_same_def)

lemma eligible_quiet:
  assumes "gate_same s s'" and "status (threads s' t) = status (threads s t)" and "be_blocking (threads s' t) = be_blocking (threads s t)"
  shows "eligible p t s' = eligible p t s"
  using assms gate_sameD(1) [OF assms(1)] by (simp add: eligible_def is_blocked_def)

lemma bystander_keeps:
  assumes "bystander_step ok i p t s s'" and "step_inv i p s"
  shows "step_inv i p s'" and "gate_same s s'" and "eligible p t s \<Longrightarrow> eligible p t s'"
proof -
  have I: "pcpu_inv (policy_rq i) (policy_wf i) p s" "registry_inv p s" using assms(2) by (simp_all add: step_inv_def)
  show "step_inv i p s'" using sched_step_inv [OF bystander_sched_step [OF assms(1)] assms(2)] .
  have "gate_same s s' \<and> (eligible p t s \<longrightarrow> eligible p t s')"
    using assms(1)
  proof cases
    case By_schedule
    then show ?thesis using policies.schedule_keeps_thread [OF I] by simp
  next
    case (By_sleep u)
    then show ?thesis using policies.sleep_keeps_thread [OF I(1)] by simp
  next
    case (By_wake u)
    then show ?thesis using policies.wake_keeps_thread [OF I(1)] by simp
  next
    case (By_priority u)
    then show ?thesis using priority_quiet [of s "sched_ops i" u t] eligible_quiet [of s s' t p] by simp
  next
    case By_yield
    then show ?thesis using yield_quiet [of s] eligible_quiet [of s s' t p] by simp
  next
    case (By_other_pcpu q)
    then show ?thesis using eligible_quiet [of s s' t p] by simp
  next
    case (By_clock ts)
    then show ?thesis using eligible_quiet [of s s' t p] by simp
  qed
  then show "gate_same s s'" and "eligible p t s \<Longrightarrow> eligible p t s'" by simp_all
qed

lemma bystander_ready:
  assumes "bystander_step ok i p t s s'" and "step_inv i p s" and L: "policy_live i = Some res" and "ok \<Longrightarrow> res"
    and R: "ready_inv res (policy_rq i) p s"
  shows "ready_inv res (policy_rq i) p s'"
  using assms(1)
proof cases
  have I: "pcpu_inv (policy_rq i) (policy_wf i) p s" "registry_inv p s" using assms(2) by (simp_all add: step_inv_def)
  note live = sched_policy_live.sleep_ready [OF policy_live_contract [OF L] I(1) R]
    sched_policy_live.wake_ready [OF policy_live_contract [OF L] I(1) R]
    sched_policy_live.schedule_ready [OF policy_live_contract [OF L] I(1) R I(2)]
  {
    case By_schedule
    then show ?thesis using live(3) assms(4) by auto
  next
    case (By_sleep u)
    then show ?thesis using live(1) by simp
  next
    case (By_wake u)
    have "ready_inv res (policy_rq i) p (upd_thread u (\<lambda>th. th\<lparr>deferred_wake := True\<rparr>) s)" by (rule ready_quiet [OF R]) simp_all
    then show ?thesis using By_wake live(2) R by (simp add: wake_thread_def)
  next
    case (By_priority u)
    then show ?thesis using priority_quiet [of s "sched_ops i" u] by (auto intro!: ready_quiet [OF R])
  next
    case By_yield
    then show ?thesis using yield_quiet [of s] by (auto intro!: ready_quiet [OF R])
  next
    case (By_other_pcpu q)
    have "eligible p u (s\<lparr>cur_pcpu := q\<rparr>) = eligible p u s" for u by (rule eligible_quiet) simp_all
    then show ?thesis using R By_other_pcpu by (simp add: ready_inv_def policy_migrate is_running_def)
  next
    case (By_clock ts)
    then show ?thesis by (auto intro!: ready_quiet [OF R] simp: policy_same_def)
  }
qed

section \<open>The invariant of a wait\<close>

fun event_inv :: "sched_id \<Rightarrow> nat \<Rightarrow> thread_ref \<Rightarrow> wait_pc \<times> sched_event \<times> sched_sys \<Rightarrow> bool" where
  "event_inv i p t (pc, e, s) \<longleftrightarrow>
     step_inv i p s \<and> managed p t s \<and> gate_open t s
     \<and> (pc = Calls \<longrightarrow> waiting_thread e = None \<and> eligible p t s)
     \<and> (pc = Checks \<or> pc = Slept \<or> pc = Scheduled \<longrightarrow> waiting_thread e = Some t)
     \<and> (pc = Left \<longrightarrow> waiting_thread e = None)
     \<and> (ev_set e \<and> pc \<noteq> Left \<longrightarrow> eligible p t s)"

lemma signal_wakes:
  assumes "step_inv i p s" and "managed p t s" and "gate_open t s"
  shows "step_inv i p (wake_thread (sched_ops i) t s)" and "gate_same s (wake_thread (sched_ops i) t s)"
    and "eligible p t (wake_thread (sched_ops i) t s)"
proof -
  have I: "pcpu_inv (policy_rq i) (policy_wf i) p s" using assms(1) by (simp add: step_inv_def)
  show "step_inv i p (wake_thread (sched_ops i) t s)" by (rule sched_step_inv [OF sched_step.Wake [OF assms(2)] assms(1)])
  show "gate_same s (wake_thread (sched_ops i) t s)" by (rule policies.wake_keeps_thread [OF I assms(2)])
  show "eligible p t (wake_thread (sched_ops i) t s)"
    using policies.wake_locked_inv(2) [OF I assms(2)] assms(3) by (simp add: wake_thread_def gate_open_def)
qed

lemma event_inv_step:
  assumes "event_step ok i p t x y" and "event_inv i p t x"
  shows "event_inv i p t y"
  using assms
proof cases
  case (Ev_enter s e)
  then show ?thesis using assms(2) by (simp add: wait_enter_def assertion_def)
next
  case (Ev_sleep e s)
  then have I: "step_inv i p s" "managed p t s" using assms(2) by auto
  note K = policies.sleep_keeps_thread(1) [of i p s t]
  have "gate_same s (sleep_thread (sched_ops i) t s)" using K I by (simp add: step_inv_def)
  then show ?thesis using Ev_sleep assms(2) sched_step_inv [OF sched_step.Sleep [OF I(2)] I(1)]
    by (auto simp: wait_sleep_def must_wait_def gate_sameD)
next
  case (Ev_leave e s)
  then show ?thesis using assms(2) by (simp add: wait_leave_def)
next
  case (Ev_schedule s e)
  have I: "step_inv i p s" using Ev_schedule assms(2) by simp
  have "bystander_step ok i p t s (schedule_with (sched_ops i) s)" using Ev_schedule by (intro By_schedule) auto
  from bystander_keeps [OF this I] show ?thesis using Ev_schedule assms(2) by (simp add: gate_sameD)
next
  case (Ev_resume s e)
  then show ?thesis using assms(2) by simp
next
  case (Ev_signal pc e s)
  note W = signal_wakes [of i p s t]
  show ?thesis using Ev_signal assms(2) W by (cases pc) (auto simp: signal_event_def gate_sameD)
next
  case (Ev_other s s' pc e)
  have I: "step_inv i p s" using Ev_other assms(2) by simp
  from bystander_keeps [OF Ev_other(3) I] show ?thesis using Ev_other assms(2) by (auto simp: gate_sameD)
qed

lemma event_ready_step:
  assumes "event_step ok i p t x y" and "event_inv i p t x" and L: "policy_live i = Some res" and ok: "ok \<Longrightarrow> res"
    and R: "ready_inv res (policy_rq i) p (snd (snd x))"
  shows "ready_inv res (policy_rq i) p (snd (snd y))"
  using assms(1)
proof cases
  case (Ev_enter s e)
  then show ?thesis using R assms(2) by (simp add: wait_enter_def assertion_def)
next
  case (Ev_sleep e s)
  then show ?thesis using R assms(2) sched_policy_live.sleep_ready [OF policy_live_contract [OF L], of p s t]
    by (auto simp: wait_sleep_def step_inv_def)
next
  case (Ev_leave e s)
  then show ?thesis using R by (simp add: wait_leave_def)
next
  case (Ev_schedule s e)
  have "bystander_step ok i p t s (schedule_with (sched_ops i) s)" using Ev_schedule by (intro By_schedule) auto
  from bystander_ready [OF this _ L ok] show ?thesis using Ev_schedule R assms(2) by simp
next
  case (Ev_resume s e)
  then show ?thesis using R by simp
next
  case (Ev_signal pc e s)
  have "bystander_step ok i p t s (wake_thread (sched_ops i) t s)" using Ev_signal assms(2) by (intro By_wake) simp
  from bystander_ready [OF this _ L ok] show ?thesis using Ev_signal R assms(2)
    by (cases pc) (auto simp: signal_event_def)
next
  case (Ev_other s s' pc e)
  then show ?thesis using bystander_ready [OF Ev_other(3) _ L ok] R assms(2) by simp
qed

section \<open>Properties\<close>

lemma event_reach:
  assumes "(event_step ok i p t)\<^sup>*\<^sup>* x y" and "event_inv i p t x"
  shows "event_inv i p t y"
    and "\<lbrakk>policy_live i = Some res; ok \<longrightarrow> res; ready_inv res (policy_rq i) p (snd (snd x))\<rbrakk>
      \<Longrightarrow> ready_inv res (policy_rq i) p (snd (snd y))"
proof -
  have "event_inv i p t y \<and> (policy_live i = Some res \<and> (ok \<longrightarrow> res) \<and> ready_inv res (policy_rq i) p (snd (snd x))
      \<longrightarrow> ready_inv res (policy_rq i) p (snd (snd y)))"
    using assms by (induction rule: rtranclp_induct) (auto intro: event_inv_step event_ready_step)
  then show "event_inv i p t y" "\<lbrakk>policy_live i = Some res; ok \<longrightarrow> res; ready_inv res (policy_rq i) p (snd (snd x))\<rbrakk>
      \<Longrightarrow> ready_inv res (policy_rq i) p (snd (snd y))" by simp_all
qed

text \<open>
  Claim C5. No signal is lost in a race with \<open>wait_event\<close>: wherever the waiter is between its call and the
  end of its loop, and whatever signals, wakes and scheduler calls come in between, a set event means
  that the waiter is neither blocked nor about to block. Under the policies that keep ready threads
  queued it is then on its run queue or running, if \<open>schedule()\<close> was not diverted to idle work.
\<close>

theorem event_signal_not_lost:
  assumes "(event_step ok i p t)\<^sup>*\<^sup>* (Calls, e0, s0) (pc, e, s)" and "waiting_thread e0 = None"
    and "step_inv i p s0" and "eligible p t s0" and "gate_open t s0" and "ev_set e" and "pc \<noteq> Left"
  shows "eligible p t s \<and> (\<forall>res. policy_live i = Some res \<and> (ok \<longrightarrow> res) \<and> ready_inv res (policy_rq i) p s0
    \<longrightarrow> t \<in> set (policy_rq i p s) \<or> curr p s = Some t)"
proof -
  have I0: "event_inv i p t (Calls, e0, s0)" using assms by (simp add: eligible_def)
  note E = event_reach [OF assms(1) I0]
  have el: "eligible p t s" and I: "base_inv p s" using E(1) assms(6,7) by (auto simp: step_inv_def pcpu_inv_def)
  have "t \<in> set (policy_rq i p s) \<or> curr p s = Some t"
    if "policy_live i = Some res" "ok \<longrightarrow> res" "ready_inv res (policy_rq i) p s0" for res
  proof -
    have "t \<in> set (policy_rq i p s) \<or> is_running t s" using E(2) [OF that(1,2)] that(3) el by (auto simp: ready_inv_def)
    then show ?thesis using I el by (auto simp: base_inv_def eligible_def managed_def)
  qed
  then show ?thesis using el by blast
qed

lemma wait_loop_returns:
  assumes "\<And>x. ev_set (fst (after k x))" and "n \<le> Suc k" and "n = Suc k \<Longrightarrow> ev_set (fst x)"
  shows "\<exists>y. wait_loop sch before after n x = Some y \<and> \<not> ev_set (fst y) \<and> waiting_thread (fst y) = None"
  using assms(2,3)
proof (induction "Suc k - n" arbitrary: n x)
  case 0
  then show ?case by (subst wait_loop.simps) (simp add: must_wait_def wait_leave_def split_def)
next
  case (Suc m)
  have "ev_set (fst (after n z))" if "Suc n = Suc k" for z using that assms(1) by simp
  from Suc(1) [OF _ _ this] Suc(2)
  have "\<exists>y. wait_loop sch before after (Suc n) (after n z) = Some y \<and> \<not> ev_set (fst y) \<and> waiting_thread (fst y) = None" for z
    by simp
  then show ?case by (subst wait_loop.simps) (simp add: wait_leave_def split_def Let_def)
qed

text \<open>
  Claim C39. \<open>wait_event\<close> returns once the event is set in some round of its loop, whatever happened in
  the rounds before, and leaves the event clear and without a waiter for the next use.
\<close>

theorem wait_event_returns:
  assumes "\<And>x. ev_set (fst (after k x))"
  shows "\<exists>y. wait_event sch before after x = Some y \<and> \<not> ev_set (fst y) \<and> waiting_thread (fst y) = None"
  using wait_loop_returns [of after k 0, OF assms] by (simp add: wait_event_def)

end
