(* ===== verification/Softirq.thy ===== *)
theory Softirq
  imports Sched_Dispatch
begin

text \<open>
  Deferred interrupt work, \<open>core/softirq.c\<close>, with the timer interrupt of \<open>arch/arm64/timer.c\<close> and
  \<open>timer_init\<close> of \<open>core/timer.c\<close>, which raise and serve it. The state holds the system of the scheduler
  as \<open>sys\<close>. A registered handler is a name; what the handlers do is the argument \<open>run\<close>, and \<open>irq n\<close> is
  what the interrupts do that come in the \<open>n\<close>-th round of a pass with interrupts enabled. A pass may
  go on for ever where handlers or interrupts keep raising softirqs; then the value is \<open>None\<close>.
\<close>

section \<open>Model\<close>

definition SOFTIRQ_TIMER :: nat where "SOFTIRQ_TIMER = 0"
definition SOFTIRQ_PTDEV :: nat where "SOFTIRQ_PTDEV = 1"
definition SOFTIRQ_THERMAL :: nat where "SOFTIRQ_THERMAL = 2"
definition SOFTIRQ_VSMMU :: nat where "SOFTIRQ_VSMMU = 3"
definition NR_SOFTIRQS :: nat where "NR_SOFTIRQS = 4"

datatype softirq_fn = Timer_softirq | Other_softirq nat

record softirq_sys =
  sys :: sched_sys
  softirq_pending :: "nat \<Rightarrow> u64"
  softirq_servicing :: "nat \<Rightarrow> bool"
  softirq_handlers :: "nat \<Rightarrow> softirq_fn option"

type_synonym softirq_handler = "softirq_fn \<Rightarrow> nat \<Rightarrow> softirq_sys \<Rightarrow> softirq_sys"

definition on_sys :: "(sched_sys \<Rightarrow> sched_sys) \<Rightarrow> softirq_sys \<Rightarrow> softirq_sys" where
  "on_sys f st = st\<lparr>sys := f (sys st)\<rparr>"

definition register_softirq :: "nat \<Rightarrow> softirq_fn \<Rightarrow> softirq_sys \<Rightarrow> softirq_sys" where
  "register_softirq nr handler st = st\<lparr>softirq_handlers := (softirq_handlers st)(nr := Some handler)\<rparr>"



text \<open>\<open>(*softirq_handlers[nr])(cpu_id)\<close>\<close>

definition call_softirq :: "softirq_handler \<Rightarrow> nat \<Rightarrow> nat \<Rightarrow> softirq_sys \<Rightarrow> softirq_sys" where
  "call_softirq run nr p st =
     (case softirq_handlers st nr of
        Some f \<Rightarrow> run f p st
      | None \<Rightarrow> on_sys (\<lambda>s. if fault s = None then s\<lparr>fault := Some NullDeref\<rparr> else s) st)"

partial_function (option) do_softirq_internal ::
  "softirq_handler \<Rightarrow> (nat \<Rightarrow> softirq_sys \<Rightarrow> softirq_sys) \<Rightarrow> nat \<Rightarrow> nat \<Rightarrow> softirq_sys \<Rightarrow> softirq_sys option" where
  "do_softirq_internal run irq n p st =
     (let nr = ffs64 (softirq_pending st p)
      in if nr < NR_SOFTIRQS then
           let st = st\<lparr>softirq_pending := (softirq_pending st)(p := bitmap_clear nr (softirq_pending st p))\<rparr>
           in do_softirq_internal run irq (Suc n) p (irq n (call_softirq run nr p st))
         else Some st)"

definition set_servicing :: "nat \<Rightarrow> bool \<Rightarrow> softirq_sys \<Rightarrow> softirq_sys" where
  "set_servicing p b st = st\<lparr>softirq_servicing := (softirq_servicing st)(p := b)\<rparr>"


definition do_softirq_no_irqenable :: "softirq_handler \<Rightarrow> softirq_sys \<Rightarrow> softirq_sys option" where
  "do_softirq_no_irqenable run st =
     (let p = cur_pcpu (sys st)
      in if softirq_servicing st p then Some st
         else
           (case do_softirq_internal run (\<lambda>_ st. st) 0 p (set_servicing p True st) of
              None \<Rightarrow> None
            | Some st \<Rightarrow> Some (set_servicing p False st)))"




definition timer_init :: "softirq_sys \<Rightarrow> softirq_sys" where
  "timer_init st =
     (let p = cur_pcpu (sys st);
          st = on_sys (init_percpu_timer p) st;
          st = (if p = BSP_CPU_ID then register_softirq SOFTIRQ_TIMER Timer_softirq st else st)
      in on_sys (log_event (ArchInitTimer p)) st)"

section \<open>A pass drains\<close>


lemma on_sys_simps [simp]:
  "sys (on_sys f st) = f (sys st)" "softirq_pending (on_sys f st) = softirq_pending st"
  "softirq_servicing (on_sys f st) = softirq_servicing st" "softirq_handlers (on_sys f st) = softirq_handlers st"
  by (simp_all add: on_sys_def)

lemma set_servicing_simps [simp]:
  "sys (set_servicing p b st) = sys st" "softirq_pending (set_servicing p b st) = softirq_pending st"
  "softirq_servicing (set_servicing p b st) q = (if q = p then b else softirq_servicing st q)"
  "softirq_handlers (set_servicing p b st) = softirq_handlers st"
  by (simp_all add: set_servicing_def)





section \<open>Properties\<close>



end
