(* ===== verification/Sched_Smart.thy ===== *)
theory Sched_Smart
  imports Sched_Dispatch
begin

text \<open>
  The gate for scheduling proposals of a guest advisor, \<open>core/sched/smart.c\<close>. The copies from and to guest
  memory are arguments: \<open>inp\<close> is the request as it was read, \<open>None\<close> where the copy failed, and \<open>put\<close> says
  whether the answer can be written back. \<open>vcpu\<close> is the id of the caller's VM, \<open>None\<close> without vCPU or VM.
  Proposals are judged and counted, and never applied.
\<close>

section \<open>Model\<close>

definition ACRN_AI_SCHED_ABI_VERSION :: u32 where "ACRN_AI_SCHED_ABI_VERSION = 1"
definition ACRN_AI_SCHED_MAX_ENTRIES :: nat where "ACRN_AI_SCHED_MAX_ENTRIES = 16"
definition ACRN_AI_SCHED_OP_REGISTER :: u32 where "ACRN_AI_SCHED_OP_REGISTER = 0"
definition ACRN_AI_SCHED_OP_SNAPSHOT :: u32 where "ACRN_AI_SCHED_OP_SNAPSHOT = 1"
definition ACRN_AI_SCHED_OP_PROPOSE :: u32 where "ACRN_AI_SCHED_OP_PROPOSE = 2"
definition ACRN_AI_SCHED_STATUS_OK :: u32 where "ACRN_AI_SCHED_STATUS_OK = 0"
definition ACRN_AI_SCHED_STATUS_DENIED :: u32 where "ACRN_AI_SCHED_STATUS_DENIED = 1"
definition ACRN_AI_SCHED_STATUS_BAD_PARAM :: u32 where "ACRN_AI_SCHED_STATUS_BAD_PARAM = 2"
definition ACRN_AI_SCHED_STATUS_UNSUPPORTED :: u32 where "ACRN_AI_SCHED_STATUS_UNSUPPORTED = 3"
definition ACRN_INVALID_VMID :: nat where "ACRN_INVALID_VMID = 0xffff"

record acrn_ai_sched_entry =
  ai_vmid :: u16
  ai_reserved :: u16
  ai_budget_us :: u32

text \<open>\<open>ai_entries\<close> has the 16 entries of the array; \<open>sizeof\<close> of the structure is 224.\<close>

record acrn_ai_sched_ioc =
  op :: u32
  ai_status :: u32
  abi_version :: u32
  ioc_size :: u32
  ai_capability :: u64
  sequence :: u64
  ai_pcpu_id :: u16
  ai_entry_count :: u16
  reserved0 :: u32
  sample_ticks :: u64
  ai_policy :: u32
  ai_period_us :: u32
  ai_pool_budget_us :: u32
  min_budget_us :: u32
  max_budget_us :: u32
  max_step_us :: u32
  min_update_ms :: u32
  active_vm_mask :: u64
  utilization_ppm :: u64
  ai_entries :: "acrn_ai_sched_entry list"

definition sizeof_ai_sched_ioc :: u32 where "sizeof_ai_sched_ioc = 224"

record ai_sched_gate =
  advisor_vmid :: nat
  capability :: u64
  next_capability :: u64
  last_proposal_ticks :: "nat \<Rightarrow> u64"

definition initial_gate :: ai_sched_gate where
  "initial_gate = \<lparr>advisor_vmid = ACRN_INVALID_VMID, capability = 0, next_capability = 1, last_proposal_ticks = (\<lambda>_. 0)\<rparr>"

definition ai_sched_vm_uses_pcpu :: "acrn_vm_config \<Rightarrow> nat \<Rightarrow> bool" where
  "ai_sched_vm_uses_pcpu cfg p =
     (if vm_name cfg = [] then False
      else if cpu_affinity_order cfg \<noteq> [] then p \<in> set (cpu_affinity_order cfg)
      else cpu_affinity cfg AND AFFINITY_CPU p \<noteq> 0)"

definition ai_sched_pool :: "acrn_ai_sched_ioc \<Rightarrow> sched_sys \<Rightarrow> int + sched_cpupool_config" where
  "ai_sched_pool ioc s =
     (let p = unat (ai_pcpu_id ioc)
      in if p \<ge> pcpu_nums s then Inl (- EINVAL)
         else
           case sched_get_pcpu_pool_config p s of
             None \<Rightarrow> Inl (- ENOTSUP)
           | Some pool \<Rightarrow>
               if \<not> ai_assist pool \<or> policy pool \<noteq> SCHED_POLICY_CBS \<or> pool_period_us pool = 0 then Inl (- ENOTSUP)
               else Inr pool)"

definition sched_policy_num :: "sched_policy_id \<Rightarrow> u32" where
  "sched_policy_num pol =
     (case pol of
        SCHED_POLICY_NONE \<Rightarrow> 0 | SCHED_POLICY_NOOP \<Rightarrow> 1 | SCHED_POLICY_IORR \<Rightarrow> 2 | SCHED_POLICY_BVT \<Rightarrow> 3
      | SCHED_POLICY_RTDS \<Rightarrow> 4 | SCHED_POLICY_CBS \<Rightarrow> 5 | SCHED_POLICY_PRIO \<Rightarrow> 6 | SCHED_POLICY_ARINC653 \<Rightarrow> 7
      | SCHED_POLICY_BFP \<Rightarrow> 8)"

text \<open>The budget that a VM has: its own, or that of the pool.\<close>

definition ai_current_budget :: "sched_cpupool_config \<Rightarrow> acrn_vm_config \<Rightarrow> u32" where
  "ai_current_budget pool cfg =
     (if cbs_budget_us (vm_sched_params cfg) \<noteq> 0 then cbs_budget_us (vm_sched_params cfg) else pool_budget_us pool)"

fun ai_snapshot_vms ::
  "sched_cpupool_config \<Rightarrow> sched_sys \<Rightarrow> nat list \<Rightarrow> acrn_ai_sched_ioc \<Rightarrow> int \<times> acrn_ai_sched_ioc" where
  "ai_snapshot_vms pool s [] ioc = (0, ioc)"
| "ai_snapshot_vms pool s (vm # vms) ioc =
     (if \<not> ai_sched_vm_uses_pcpu (vm_configs s vm) (unat (ai_pcpu_id ioc)) then ai_snapshot_vms pool s vms ioc
      else if unat (ai_entry_count ioc) \<ge> ACRN_AI_SCHED_MAX_ENTRIES then (- EINVAL, ioc)
      else
        let n = unat (ai_entry_count ioc);
            ent = (ai_entries ioc ! n)\<lparr>ai_vmid := of_nat vm, ai_budget_us := ai_current_budget pool (vm_configs s vm)\<rparr>;
            ioc = ioc\<lparr>ai_entry_count := ai_entry_count ioc + 1, ai_entries := (ai_entries ioc)[n := ent]\<rparr>;
            ioc = (if vm < 64 then ioc\<lparr>active_vm_mask := active_vm_mask ioc OR push_bit vm 1\<rparr> else ioc)
        in ai_snapshot_vms pool s vms ioc)"

definition ai_sched_snapshot :: "acrn_ai_sched_ioc \<Rightarrow> sched_sys \<Rightarrow> int \<times> acrn_ai_sched_ioc \<times> sched_sys" where
  "ai_sched_snapshot ioc s =
     (case ai_sched_pool ioc s of
        Inl ret \<Rightarrow> (ret, ioc, s)
      | Inr pool \<Rightarrow>
          let ioc = ioc\<lparr>sample_ticks := cpu_ticks s, ai_policy := sched_policy_num (policy pool),
                ai_period_us := pool_period_us pool, ai_pool_budget_us := pool_budget_us pool,
                min_budget_us := ai_min_budget_us pool, max_budget_us := ai_max_budget_us pool,
                max_step_us := ai_max_step_us pool, min_update_ms := ai_min_update_ms pool,
                ai_entry_count := 0, active_vm_mask := 0\<rparr>;
              s = tick_read s;
              (ret, ioc) = ai_snapshot_vms pool s [0..<CONFIG_MAX_VM_NUM] ioc
          in (ret, ioc, s))"

fun ai_active_mask :: "sched_sys \<Rightarrow> nat \<Rightarrow> nat list \<Rightarrow> u64 \<Rightarrow> u64 option" where
  "ai_active_mask s p [] m = Some m"
| "ai_active_mask s p (vm # vms) m =
     (if ai_sched_vm_uses_pcpu (vm_configs s vm) p then
        if vm \<ge> 64 then None else ai_active_mask s p vms (m OR push_bit vm 1)
      else ai_active_mask s p vms m)"

definition ai_entry_refused :: "sched_cpupool_config \<Rightarrow> u64 \<Rightarrow> u64 \<Rightarrow> acrn_ai_sched_entry \<Rightarrow> bool" where
  "ai_entry_refused pool active seen ent \<longleftrightarrow>
     (let vm = unat (ai_vmid ent)
      in ai_reserved ent \<noteq> 0 \<or> vm \<ge> CONFIG_MAX_VM_NUM \<or> vm \<ge> 64 \<or> active AND push_bit vm 1 = 0
         \<or> seen AND push_bit vm 1 \<noteq> 0 \<or> ai_budget_us ent < ai_min_budget_us pool \<or> ai_budget_us ent > ai_max_budget_us pool)"

fun ai_check_entries ::
  "sched_cpupool_config \<Rightarrow> sched_sys \<Rightarrow> u64 \<Rightarrow> acrn_ai_sched_entry list \<Rightarrow> u64 \<Rightarrow> u64 \<Rightarrow> int + u64 \<times> u64" where
  "ai_check_entries pool s active [] seen util = Inr (seen, util)"
| "ai_check_entries pool s active (ent # ents) seen util =
     (if ai_entry_refused pool active seen ent then Inl (- EINVAL)
      else
        let current = ai_current_budget pool (vm_configs s (unat (ai_vmid ent)));
            delta = (if ai_budget_us ent > current then ai_budget_us ent - current else current - ai_budget_us ent)
        in if delta > ai_max_step_us pool then Inl (- EINVAL)
           else
             let util = util + (ucast (ai_budget_us ent) * 1000000) div ucast (pool_period_us pool)
             in if util > 1000000 then Inl (- EBUSY)
                else ai_check_entries pool s active ents (seen OR push_bit (unat (ai_vmid ent)) 1) util)"

definition ai_sched_validate_proposal :: "acrn_ai_sched_ioc \<Rightarrow> sched_sys \<Rightarrow> int \<times> acrn_ai_sched_ioc" where
  "ai_sched_validate_proposal ioc s =
     (case ai_sched_pool ioc s of
        Inl ret \<Rightarrow> (ret, ioc)
      | Inr pool \<Rightarrow>
          if sequence ioc = 0 \<or> ai_entry_count ioc = 0 \<or> unat (ai_entry_count ioc) > ACRN_AI_SCHED_MAX_ENTRIES then (- EINVAL, ioc)
          else
            case ai_active_mask s (unat (ai_pcpu_id ioc)) [0..<CONFIG_MAX_VM_NUM] 0 of
              None \<Rightarrow> (- ENOTSUP, ioc)
            | Some active \<Rightarrow>
                (case ai_check_entries pool s active (take (unat (ai_entry_count ioc)) (ai_entries ioc)) 0 0 of
                   Inl ret \<Rightarrow> (ret, ioc)
                 | Inr (seen, util) \<Rightarrow>
                     if seen \<noteq> active then (- EINVAL, ioc)
                     else (0, ioc\<lparr>active_vm_mask := active, utilization_ppm := util\<rparr>)))"

definition ai_sched_invalidate_vm :: "nat \<Rightarrow> ai_sched_gate \<Rightarrow> ai_sched_gate" where
  "ai_sched_invalidate_vm vm g =
     (if advisor_vmid g = vm then
        g\<lparr>advisor_vmid := ACRN_INVALID_VMID, capability := 0, last_proposal_ticks := (\<lambda>_. 0)\<rparr>
      else g)"

definition is_service_vm :: "nat \<Rightarrow> sched_sys \<Rightarrow> bool" where
  "is_service_vm vm s \<longleftrightarrow> load_order (vm_configs s vm) = SERVICE_VM"

definition ai_register ::
  "nat \<Rightarrow> acrn_ai_sched_ioc \<Rightarrow> ai_sched_gate \<Rightarrow> sched_sys \<Rightarrow> int \<times> acrn_ai_sched_ioc \<times> ai_sched_gate \<times> sched_sys" where
  "ai_register vm ioc g s =
     (if ai_capability ioc \<noteq> 0 \<or> sequence ioc \<noteq> 0 \<or> ai_entry_count ioc \<noteq> 0 then (- EINVAL, ioc, g, s)
      else
        let nc = next_capability g + 1;
            g = g\<lparr>advisor_vmid := vm, next_capability := nc, capability := nc XOR cpu_ticks s\<rparr>;
            s = tick_read s;
            g = (if capability g = 0 then g\<lparr>next_capability := nc + 1, capability := nc + 1\<rparr> else g);
            g = g\<lparr>last_proposal_ticks := (\<lambda>_. 0)\<rparr>
        in (0, ioc\<lparr>ai_capability := capability g\<rparr>, g, s))"

definition ai_propose ::
  "acrn_ai_sched_ioc \<Rightarrow> ai_sched_gate \<Rightarrow> sched_sys \<Rightarrow> int \<times> acrn_ai_sched_ioc \<times> ai_sched_gate \<times> sched_sys" where
  "ai_propose ioc g s =
     (let (ret, ioc) = ai_sched_validate_proposal ioc s
      in if ret = 0 then
           let now = cpu_ticks s;
               s = tick_read s;
               minimum = us_to_ticks (khz s) (min_update_ms ioc * 1000);
               p = unat (ai_pcpu_id ioc)
           in if last_proposal_ticks g p \<noteq> 0 \<and> now - last_proposal_ticks g p < minimum then (- EBUSY, ioc, g, s)
              else (0, ioc, g\<lparr>last_proposal_ticks := (last_proposal_ticks g)(p := now)\<rparr>, s)
         else (ret, ioc, g, s))"

text \<open>The request under the lock of the gate.\<close>

definition ai_dispatch ::
  "nat \<Rightarrow> acrn_ai_sched_ioc \<Rightarrow> ai_sched_gate \<Rightarrow> sched_sys \<Rightarrow> int \<times> acrn_ai_sched_ioc \<times> ai_sched_gate \<times> sched_sys" where
  "ai_dispatch vm ioc g s =
     (if op ioc = ACRN_AI_SCHED_OP_REGISTER then ai_register vm ioc g s
      else if advisor_vmid g \<noteq> vm \<or> capability g = 0 \<or> ai_capability ioc \<noteq> capability g then (- EPERM, ioc, g, s)
      else if op ioc = ACRN_AI_SCHED_OP_SNAPSHOT then
        let (ret, ioc, s) = ai_sched_snapshot ioc s in (ret, ioc, g, s)
      else if op ioc = ACRN_AI_SCHED_OP_PROPOSE then ai_propose ioc g s
      else (- EINVAL, ioc, g, s))"

definition ai_status_of :: "int \<Rightarrow> u32 \<Rightarrow> u32" where
  "ai_status_of ret st =
     (if ret = - EPERM then ACRN_AI_SCHED_STATUS_DENIED
      else if ret = - ENOTSUP then ACRN_AI_SCHED_STATUS_UNSUPPORTED
      else if ret \<noteq> 0 then ACRN_AI_SCHED_STATUS_BAD_PARAM else st)"

text \<open>The result: the return value, what is written back to the guest if anything is, the gate and the system.\<close>

definition hcall_ai_sched ::
  "nat option \<Rightarrow> acrn_ai_sched_ioc option \<Rightarrow> (acrn_ai_sched_ioc \<Rightarrow> bool) \<Rightarrow> ai_sched_gate \<Rightarrow> sched_sys
   \<Rightarrow> int \<times> acrn_ai_sched_ioc option \<times> ai_sched_gate \<times> sched_sys" where
  "hcall_ai_sched vcpu inp put g s =
     (case (vcpu, inp) of
        (Some vm, Some ioc) \<Rightarrow>
          if \<not> is_service_vm vm s then (- EINVAL, None, g, s)
          else if abi_version ioc \<noteq> ACRN_AI_SCHED_ABI_VERSION \<or> ioc_size ioc \<noteq> sizeof_ai_sched_ioc \<or> reserved0 ioc \<noteq> 0 then
            let ioc = ioc\<lparr>ai_status := ACRN_AI_SCHED_STATUS_BAD_PARAM\<rparr>
            in (- EINVAL, if put ioc then Some ioc else None, g, s)
          else
            let (ret, ioc, g, s) = ai_dispatch vm (ioc\<lparr>ai_status := ACRN_AI_SCHED_STATUS_OK\<rparr>) g s;
                ioc = ioc\<lparr>ai_status := ai_status_of ret (ai_status ioc)\<rparr>
            in if put ioc then (ret, Some ioc, g, s) else (- EINVAL, None, g, s)
      | _ \<Rightarrow> (- EINVAL, None, g, s))"

section \<open>Validation\<close>

lemma bit_or_exp: "bit (w OR 2 ^ n :: 'l::len word) k \<longleftrightarrow> bit w k \<or> k = n \<and> n < LENGTH('l)"
  by (auto simp: bit_or_iff bit_exp_iff)

lemma ai_active_mask_bits:
  assumes "ai_active_mask s p vms m = Some a"
  shows "bit a k \<longleftrightarrow> bit m k \<or> k \<in> set vms \<and> ai_sched_vm_uses_pcpu (vm_configs s k) p"
  using assms
proof (induction vms arbitrary: m)
  case (Cons vm vms)
  then show ?case by (auto simp: bit_or_exp split: if_splits)
qed simp

text \<open>The terms of the sum do not wrap around, and the sum is cut off before it could.\<close>

lemma ai_util_add:
  fixes util :: u64 and b period :: u32
  assumes "util \<le> 1000000"
  shows "uint (util + (ucast b * 1000000) div ucast period) = uint util + uint b * 1000000 div uint period"
proof -
  have b: "uint b < 4294967296" using uint_lt2p [of b] by simp
  have "uint (ucast b * 1000000 :: u64) = uint b * 1000000"
    using b by (simp add: uint_word_ariths uint_up_ucast is_up)
  then have d: "uint ((ucast b * 1000000 :: u64) div ucast period) = uint b * 1000000 div uint period"
    by (simp add: uint_div uint_up_ucast is_up)
  have "uint b * 1000000 div uint period \<le> uint b * 1000000"
  proof (cases "uint b = 0")
    case False
    then have "0 < uint b * 1000000" using uint_ge_0 [of b] by linarith
    then show ?thesis by (rule int_div_le_self)
  qed simp
  moreover have "uint util \<le> 1000000" using assms by (simp add: word_le_def)
  ultimately show ?thesis using b d by (simp add: uint_plus_if_size word_size)
qed

definition ai_entry_ok :: "sched_cpupool_config \<Rightarrow> sched_sys \<Rightarrow> acrn_ai_sched_entry \<Rightarrow> bool" where
  "ai_entry_ok pool s ent \<longleftrightarrow>
     ai_min_budget_us pool \<le> ai_budget_us ent \<and> ai_budget_us ent \<le> ai_max_budget_us pool
     \<and> \<bar>uint (ai_budget_us ent) - uint (ai_current_budget pool (vm_configs s (unat (ai_vmid ent))))\<bar> \<le> uint (ai_max_step_us pool)"

lemma ai_step_ok:
  fixes b c step :: u32
  assumes "\<not> (if b > c then b - c else c - b) > step"
  shows "\<bar>uint b - uint c\<bar> \<le> uint step"
  using assms by (auto simp: word_less_def word_le_def uint_sub_if_size split: if_splits)

lemma ai_check_entries_ok:
  assumes "ai_check_entries pool s active ents seen util = Inr (seen', util')" and "util \<le> 1000000"
  shows "distinct (map ai_vmid ents) \<and> (\<forall>ent \<in> set ents. ai_entry_ok pool s ent \<and> bit active (unat (ai_vmid ent))
      \<and> \<not> bit seen (unat (ai_vmid ent)))
    \<and> (\<forall>k. bit seen' k \<longleftrightarrow> bit seen k \<or> k \<in> (\<lambda>ent. unat (ai_vmid ent)) ` set ents)
    \<and> uint util' = uint util + (\<Sum>ent\<leftarrow>ents. uint (ai_budget_us ent) * 1000000 div uint (pool_period_us pool))
    \<and> util' \<le> 1000000"
  using assms
proof (induction ents arbitrary: seen util)
  case (Cons ent ents)
  let ?vm = "unat (ai_vmid ent)" and ?seen = "seen OR push_bit (unat (ai_vmid ent)) 1"
  let ?util = "util + (ucast (ai_budget_us ent) * 1000000) div ucast (pool_period_us pool)"
  let ?c = "ai_current_budget pool (vm_configs s ?vm)"
  have r: "\<not> ai_entry_refused pool active seen ent"
    and d: "\<not> (if ai_budget_us ent > ?c then ai_budget_us ent - ?c else ?c - ai_budget_us ent) > ai_max_step_us pool"
    and u: "?util \<le> 1000000" and n: "ai_check_entries pool s active ents ?seen ?util = Inr (seen', util')"
    using Cons.prems(1) by (auto simp: Let_def not_less split: if_splits)
  have v: "?vm < 64" "bit active ?vm" "\<not> bit seen ?vm" using r by (auto simp: ai_entry_refused_def Let_def and_exp_eq_0_iff_not_bit)
  have ok: "ai_entry_ok pool s ent" using r ai_step_ok [OF d] by (auto simp: ai_entry_refused_def ai_entry_ok_def Let_def not_less)
  note IH = Cons.IH [OF n u]
  have "ai_vmid ent \<notin> ai_vmid ` set ents" using IH v(1) by (auto simp: bit_or_exp)
  then show ?case using IH v ok ai_util_add [OF Cons.prems(2), of "ai_budget_us ent" "pool_period_us pool"]
    by (auto simp: bit_or_exp)
qed simp

lemma ai_validate_ok:
  assumes "ai_sched_validate_proposal ioc s = (0, ioc')"
  obtains pool active seen util where "ai_sched_pool ioc s = Inr pool" and "seen = active"
    and "ai_active_mask s (unat (ai_pcpu_id ioc)) [0..<CONFIG_MAX_VM_NUM] 0 = Some active"
    and "ai_check_entries pool s active (take (unat (ai_entry_count ioc)) (ai_entries ioc)) 0 0 = Inr (seen, util)"
    and "ioc' = ioc\<lparr>active_vm_mask := active, utilization_ppm := util\<rparr>"
proof -
  have e: "ret \<noteq> 0" if "ai_sched_pool ioc s = Inl ret" for ret
    using that by (auto simp: ai_sched_pool_def Let_def errno_defs split: if_splits option.splits)
  have c: "ret \<noteq> 0" if "ai_check_entries pool s active ents seen util = Inl ret" for ret pool active ents seen util
    using that by (induction ents arbitrary: seen util) (auto simp: Let_def errno_defs split: if_splits)
  show ?thesis using assms that e c
    by (auto simp: ai_sched_validate_proposal_def errno_defs split: sum.splits if_splits option.splits prod.splits)
qed

section \<open>Properties\<close>

text \<open>
  Claim C33. A proposal that passes names every VM of the pCPU exactly once, keeps each budget in the
  bounds of the pool and within one step of the budget that the VM has, and asks for no more than the
  whole pCPU; the utilization that is reported is the exact sum.
\<close>

theorem ai_proposal_sound:
  assumes "ai_sched_validate_proposal ioc s = (0, ioc')"
  defines "ents \<equiv> take (unat (ai_entry_count ioc)) (ai_entries ioc)" and "p \<equiv> unat (ai_pcpu_id ioc)"
  shows "\<exists>pool. ai_sched_pool ioc s = Inr pool \<and> distinct (map ai_vmid ents)
    \<and> (\<lambda>ent. unat (ai_vmid ent)) ` set ents = {vm. vm < CONFIG_MAX_VM_NUM \<and> ai_sched_vm_uses_pcpu (vm_configs s vm) p}
    \<and> (\<forall>ent \<in> set ents. ai_entry_ok pool s ent)
    \<and> uint (utilization_ppm ioc') = (\<Sum>ent\<leftarrow>ents. uint (ai_budget_us ent) * 1000000 div uint (pool_period_us pool))
    \<and> utilization_ppm ioc' \<le> 1000000"
proof -
  obtain pool active util where v: "ai_sched_pool ioc s = Inr pool" "ai_active_mask s p [0..<CONFIG_MAX_VM_NUM] 0 = Some active"
    "ai_check_entries pool s active ents 0 0 = Inr (active, util)" "ioc' = ioc\<lparr>active_vm_mask := active, utilization_ppm := util\<rparr>"
    using ai_validate_ok [OF assms(1)] unfolding ents_def p_def by metis
  note C = ai_check_entries_ok [OF v(3)]
  have "bit active k \<longleftrightarrow> k < CONFIG_MAX_VM_NUM \<and> ai_sched_vm_uses_pcpu (vm_configs s k) p" for k
    using ai_active_mask_bits [OF v(2)] by simp
  then have "(\<lambda>ent. unat (ai_vmid ent)) ` set ents = {vm. vm < CONFIG_MAX_VM_NUM \<and> ai_sched_vm_uses_pcpu (vm_configs s vm) p}"
    using C by auto
  then show ?thesis using C v(1,4) by auto
qed

lemma ai_dispatch_gate:
  assumes "ai_dispatch vm ioc g s = (ret, ioc', g', s')"
  shows "s' = s \<or> s' = tick_read s"
    and "g' \<noteq> g \<Longrightarrow> op ioc = ACRN_AI_SCHED_OP_REGISTER \<and> advisor_vmid g' = vm \<or> op ioc = ACRN_AI_SCHED_OP_PROPOSE
      \<and> advisor_vmid g' = advisor_vmid g \<and> capability g' = capability g"
    and "ret = 0 \<or> g' \<noteq> g \<Longrightarrow> op ioc = ACRN_AI_SCHED_OP_REGISTER
      \<or> advisor_vmid g = vm \<and> capability g \<noteq> 0 \<and> ai_capability ioc = capability g"
  using assms
  by (auto simp: ai_dispatch_def ai_register_def ai_propose_def ai_sched_snapshot_def Let_def errno_defs
      split: if_splits prod.splits sum.splits)

text \<open>
  Claim C34. The hypercall observes: of the system it changes nothing but the reading of the clock. It
  changes the gate only for the service VM, and succeeds or changes the gate for anything but a
  registration only with the capability of the present advisor, so that nothing gets through after
  \<open>ai_sched_invalidate_vm\<close> of the advisor until the next registration.
\<close>

theorem ai_hcall_gate:
  assumes "hcall_ai_sched vcpu inp put g s = (ret, out, g', s')"
  shows "(s' = s \<or> s' = tick_read s)
    \<and> (ret = 0 \<or> g' \<noteq> g \<longrightarrow> (\<exists>vm ioc. vcpu = Some vm \<and> inp = Some ioc \<and> is_service_vm vm s
        \<and> (op ioc = ACRN_AI_SCHED_OP_REGISTER
           \<or> advisor_vmid g = vm \<and> capability g \<noteq> 0 \<and> ai_capability ioc = capability g
             \<and> g \<noteq> ai_sched_invalidate_vm vm g)))"
proof (cases "\<exists>vm ioc. vcpu = Some vm \<and> inp = Some ioc \<and> is_service_vm vm s \<and> abi_version ioc = ACRN_AI_SCHED_ABI_VERSION
    \<and> ioc_size ioc = sizeof_ai_sched_ioc \<and> reserved0 ioc = 0")
  case True
  then obtain vm ioc where v: "vcpu = Some vm" "inp = Some ioc" "is_service_vm vm s" "abi_version ioc = ACRN_AI_SCHED_ABI_VERSION"
    "ioc_size ioc = sizeof_ai_sched_ioc" "reserved0 ioc = 0" by blast
  obtain r i where d: "ai_dispatch vm (ioc\<lparr>ai_status := ACRN_AI_SCHED_STATUS_OK\<rparr>) g s = (r, i, g', s')" and "ret = 0 \<longrightarrow> r = 0"
    using assms v by (auto simp: hcall_ai_sched_def Let_def errno_defs split: prod.splits if_splits)
  moreover have "g \<noteq> ai_sched_invalidate_vm vm g" if "advisor_vmid g = vm" "capability g \<noteq> 0"
  proof -
    have "capability (ai_sched_invalidate_vm vm g) = 0" using that(1) by (simp add: ai_sched_invalidate_vm_def)
    then show ?thesis using that(2) by metis
  qed
  ultimately show ?thesis using ai_dispatch_gate [OF d] v(1-3) by auto
next
  case False
  then show ?thesis using assms
    by (auto simp: hcall_ai_sched_def Let_def errno_defs split: option.splits if_splits)
qed

text \<open>
  The rate limit is that of the request and not that of the pool: a proposal that passes and
  carries an update time of 0, or one whose microseconds wrap around to 0, is accepted and recorded
  however short the time since the last one is, whatever \<open>ai_min_update_ms\<close> the pool has.
\<close>

theorem ai_rate_limit_from_request:
  assumes "ai_sched_validate_proposal ioc s = (0, ioc')" and "min_update_ms ioc * 1000 = 0"
  shows "ai_propose ioc g s
    = (0, ioc', g\<lparr>last_proposal_ticks := (last_proposal_ticks g)(unat (ai_pcpu_id ioc) := cpu_ticks s)\<rparr>, tick_read s)"
proof -
  have "min_update_ms ioc' = min_update_ms ioc" "ai_pcpu_id ioc' = ai_pcpu_id ioc"
    using ai_validate_ok [OF assms(1)] by (metis acrn_ai_sched_ioc.simps acrn_ai_sched_ioc.surjective acrn_ai_sched_ioc.update_convs)+
  then show ?thesis using assms by (simp add: ai_propose_def Let_def us_to_ticks_def)
qed

end
