(* ===== verification/Vcpu.thy ===== *)
theory Vcpu
  imports Sched_Event
begin

text \<open>
  The life cycle of virtual CPUs, \<open>core/vcpu.c\<close>, on top of the scheduler. A vCPU is named by its VM and
  its place in the array of the VM (\<open>vm->hw.vcpu_array\<close>); its embedded thread object is \<open>thread_obj\<close>. The
  state holds the system of the scheduler as \<open>ssys\<close>. The stack, the I/O request and the architecture's
  part of a vCPU are left out: what the architecture does to the scheduler's system when it resets or
  gives up a vCPU (it disarms the vCPU's timers) is the argument \<open>arch\<close>. The state word of a vCPU is only changed by an atomic
  compare-and-exchange; what others do between two accesses of one operation is its argument \<open>env\<close>.
\<close>

section \<open>Model\<close>

datatype vcpu_state = VCPU_OFFLINE | VCPU_INIT | VCPU_RUNNING | VCPU_PAUSED | VCPU_POWERED_OFF

definition MAX_VCPU_EVENT_NUM :: nat where "MAX_VCPU_EVENT_NUM = 16"

type_synonym vcpu_ref = "nat \<times> nat"

record acrn_vcpu =
  vc_vcpu_id :: nat
  vc_vm :: nat
  vc_state :: vcpu_state
  vc_launched :: bool
  vc_pending_req :: u64
  vc_events :: "sched_event list"

text \<open>Of a VM only the parts that the vCPU operations use.\<close>

record acrn_vm =
  vm_vm_id :: nat
  hw_vcpu_array :: "nat \<Rightarrow> acrn_vcpu"
  created_vcpus :: nat

text \<open>
  \<open>pcpu_vcpu_array\<close> and \<open>ever_run_vcpu\<close> are the per-pCPU variables. \<open>boot_log_vms\<close> is
  \<open>SERVICE_VM_NUM + PRE_VM_NUM\<close> of the generated configuration.
\<close>

record vm_sys =
  ssys :: sched_sys
  vm_array :: "nat \<Rightarrow> acrn_vm"
  pcpu_vcpu_array :: "nat \<Rightarrow> nat \<Rightarrow> vcpu_ref option"
  ever_run_vcpu :: "nat \<Rightarrow> vcpu_ref option"
  boot_log_vms :: nat

definition on_ssys :: "(sched_sys \<Rightarrow> sched_sys) \<Rightarrow> 'a vm_sys_scheme \<Rightarrow> 'a vm_sys_scheme" where
  "on_ssys f x = x\<lparr>ssys := f (ssys x)\<rparr>"

definition upd_vm :: "nat \<Rightarrow> (acrn_vm \<Rightarrow> acrn_vm) \<Rightarrow> 'a vm_sys_scheme \<Rightarrow> 'a vm_sys_scheme" where
  "upd_vm vm f x = x\<lparr>vm_array := (vm_array x)(vm := f (vm_array x vm))\<rparr>"

definition upd_vcpu :: "vcpu_ref \<Rightarrow> (acrn_vcpu \<Rightarrow> acrn_vcpu) \<Rightarrow> 'a vm_sys_scheme \<Rightarrow> 'a vm_sys_scheme" where
  "upd_vcpu v f x =
     upd_vm (fst v) (\<lambda>m. m\<lparr>hw_vcpu_array := (hw_vcpu_array m)(snd v := f (hw_vcpu_array m (snd v)))\<rparr>) x"

definition vcpu_of :: "vcpu_ref \<Rightarrow> 'a vm_sys_scheme \<Rightarrow> acrn_vcpu" where
  "vcpu_of v x = hw_vcpu_array (vm_array x (fst v)) (snd v)"

text \<open>\<open>&vcpu->thread_obj\<close>\<close>

definition thread_obj :: "vcpu_ref \<Rightarrow> thread_ref" where
  "thread_obj v = Thr (Suc (fst v + CONFIG_MAX_VM_NUM * snd v))"

subsection \<open>Queries\<close>

definition is_vcpu_bsp :: "vcpu_ref \<Rightarrow> 'a vm_sys_scheme \<Rightarrow> bool" where
  "is_vcpu_bsp v x \<longleftrightarrow> vc_vcpu_id (vcpu_of v x) = BSP_CPU_ID"

definition pcpuid_from_vcpu :: "vcpu_ref \<Rightarrow> 'a vm_sys_scheme \<Rightarrow> nat" where
  "pcpuid_from_vcpu v x = pcpu_id (threads (ssys x) (thread_obj v))"

definition vcpu_boot_log_enabled :: "vcpu_ref \<Rightarrow> 'a vm_sys_scheme \<Rightarrow> bool" where
  "vcpu_boot_log_enabled v x \<longleftrightarrow> vm_vm_id (vm_array x (vc_vm (vcpu_of v x))) < boot_log_vms x"

definition vcpumask2pcpumask :: "nat \<Rightarrow> u64 \<Rightarrow> 'a vm_sys_scheme \<Rightarrow> u64" where
  "vcpumask2pcpumask vm vdmask x =
     fold (\<lambda>k dmask. if and vdmask (push_bit k 1) \<noteq> 0 then bitmap_set (pcpuid_from_vcpu (vm, k) x) dmask else dmask)
       [0..<created_vcpus (vm_array x vm)] 0"

definition get_running_vcpu :: "nat \<Rightarrow> 'a vm_sys_scheme \<Rightarrow> vcpu_ref option" where
  "get_running_vcpu p x =
     (if p \<ge> MAX_PCPU_NUM then None
      else
        case curr p (ssys x) of
          None \<Rightarrow> None
        | Some t \<Rightarrow>
            (case find (\<lambda>vm. case pcpu_vcpu_array x p vm of None \<Rightarrow> False | Some v \<Rightarrow> t = thread_obj v) [0..<CONFIG_MAX_VM_NUM] of
               None \<Rightarrow> None
             | Some vm \<Rightarrow> pcpu_vcpu_array x p vm))"

definition get_ever_run_vcpu :: "nat \<Rightarrow> 'a vm_sys_scheme \<Rightarrow> vcpu_ref option" where
  "get_ever_run_vcpu p x = ever_run_vcpu x p"

subsection \<open>The state word\<close>

definition vcpu_transition_allowed :: "vcpu_state \<Rightarrow> vcpu_state \<Rightarrow> bool" where
  "vcpu_transition_allowed old_state new_state =
     (case old_state of
        VCPU_OFFLINE \<Rightarrow> new_state = VCPU_INIT
      | VCPU_INIT \<Rightarrow> new_state = VCPU_RUNNING \<or> new_state = VCPU_PAUSED
      | VCPU_RUNNING \<Rightarrow> new_state = VCPU_PAUSED \<or> new_state = VCPU_POWERED_OFF
      | VCPU_PAUSED \<Rightarrow> new_state = VCPU_INIT \<or> new_state = VCPU_OFFLINE
      | VCPU_POWERED_OFF \<Rightarrow> new_state = VCPU_RUNNING \<or> new_state = VCPU_PAUSED)"

definition vcpu_get_state :: "vcpu_ref option \<Rightarrow> 'a vm_sys_scheme \<Rightarrow> vcpu_state" where
  "vcpu_get_state vo x = (case vo of None \<Rightarrow> VCPU_OFFLINE | Some v \<Rightarrow> vc_state (vcpu_of v x))"

definition vcpu_try_transition_state ::
  "vcpu_ref option \<Rightarrow> vcpu_state \<Rightarrow> vcpu_state \<Rightarrow> 'a vm_sys_scheme \<Rightarrow> bool \<times> 'a vm_sys_scheme" where
  "vcpu_try_transition_state vo old_state new_state x =
     (case vo of
        None \<Rightarrow> (False, x)
      | Some v \<Rightarrow>
          if vcpu_transition_allowed old_state new_state \<and> vc_state (vcpu_of v x) = old_state
          then (True, upd_vcpu v (\<lambda>vc. vc\<lparr>vc_state := new_state\<rparr>) x)
          else (False, x))"

definition vcpu_state_to_str :: "vcpu_state \<Rightarrow> string" where
  "vcpu_state_to_str st =
     (case st of
        VCPU_OFFLINE \<Rightarrow> ''offline'' | VCPU_INIT \<Rightarrow> ''init'' | VCPU_RUNNING \<Rightarrow> ''running''
      | VCPU_PAUSED \<Rightarrow> ''paused'' | VCPU_POWERED_OFF \<Rightarrow> ''poweroff'')"

definition is_vcpu_running :: "vcpu_ref option \<Rightarrow> 'a vm_sys_scheme \<Rightarrow> bool" where
  "is_vcpu_running vo x \<longleftrightarrow> vcpu_get_state vo x = VCPU_RUNNING"

definition is_vcpu_powered_off :: "vcpu_ref option \<Rightarrow> 'a vm_sys_scheme \<Rightarrow> bool" where
  "is_vcpu_powered_off vo x \<longleftrightarrow> vcpu_get_state vo x = VCPU_POWERED_OFF"

subsection \<open>Requests\<close>

text \<open>An operation of the scheduler on the thread of a vCPU, through the policy of its pCPU.\<close>

definition on_vcpu_thread ::
  "vcpu_ref \<Rightarrow> (acrn_scheduler \<Rightarrow> thread_ref \<Rightarrow> sched_sys \<Rightarrow> sched_sys) \<Rightarrow> 'a vm_sys_scheme \<Rightarrow> 'a vm_sys_scheme" where
  "on_vcpu_thread v f x = on_ssys (on_sched (pcpuid_from_vcpu v x) (\<lambda>sch. f sch (thread_obj v))) x"

definition kick_vcpu :: "vcpu_ref \<Rightarrow> 'a vm_sys_scheme \<Rightarrow> 'a vm_sys_scheme" where
  "kick_vcpu v x =
     (let p = pcpuid_from_vcpu v x
      in if cur_pcpu (ssys x) \<noteq> p \<and> get_running_vcpu p x = Some v then on_ssys (log_event (SmpCallKick p)) x else x)"

definition vcpu_make_request :: "vcpu_ref \<Rightarrow> nat \<Rightarrow> 'a vm_sys_scheme \<Rightarrow> 'a vm_sys_scheme" where
  "vcpu_make_request v eventid x =
     (let p = pcpuid_from_vcpu v x;
          remote_running = (cur_pcpu (ssys x) \<noteq> p \<and> get_running_vcpu p x = Some v);
          x = upd_vcpu v (\<lambda>vc. vc\<lparr>vc_pending_req := bitmap_set eventid (vc_pending_req vc)\<rparr>) x
      in if remote_running
         then on_ssys (log_event (SmpCallKick p)) (on_vcpu_thread v request_thread_priority_no_resched x)
         else on_vcpu_thread v request_thread_priority x)"

definition vcpu_has_pending_request :: "vcpu_ref \<Rightarrow> 'a vm_sys_scheme \<Rightarrow> bool" where
  "vcpu_has_pending_request v x \<longleftrightarrow> vc_pending_req (vcpu_of v x) \<noteq> 0"

definition vcpu_take_request :: "vcpu_ref \<Rightarrow> nat \<Rightarrow> 'a vm_sys_scheme \<Rightarrow> bool \<times> 'a vm_sys_scheme" where
  "vcpu_take_request v eventid x =
     (let (old, req) = bitmap_test_and_clear eventid (vc_pending_req (vcpu_of v x))
      in (old, upd_vcpu v (\<lambda>vc. vc\<lparr>vc_pending_req := req\<rparr>) x))"

subsection \<open>Creation and destruction\<close>

definition vcpu_thread_name :: "nat \<Rightarrow> nat \<Rightarrow> string" where
  "vcpu_thread_name vm k = ''vm'' @ decimal vm @ '':vcpu'' @ decimal k"

text \<open>
  The thread object with all bytes zero. The value 0 of \<open>status\<close>, which the enumeration does not name,
  stands as \<open>THREAD_STS_BLOCKED\<close>, which \<open>init_thread_data\<close> writes before the thread is published.
\<close>

definition zero_thread :: thread_object where
  "zero_thread =
     \<lparr>node_linked = False, name = '''', pcpu_id = 0, sched_ctl = None, status = THREAD_STS_BLOCKED, be_blocking = False,
      is_vcpu = False, priority_pending = False, freeze_epoch = 0, deferred_wake = False, vm_id = 0, vcpu_id = 0,
      ptrauth_return_authenticated = False, switch_out = False, switch_in = False, latency = zero_latency,
      prio_data = 0, iorr_data = \<lparr>iorr_slice_cycles = 0, iorr_last_cycles = 0, iorr_left_cycles = 0\<rparr>,
      bvt_data = \<lparr>mcu = 0, weight = 0, vt_ratio = 0, warp_on = False, warp_value = 0,
        warp_limit = 0, unwarp_period = 0, warp_left = 0, last_unwarp_tsc = 0, avt = 0, evt = 0,
        residual = 0, start_tsc = 0\<rparr>,
      rtds_data = \<lparr>rtds_period_ticks = 0, rtds_budget_ticks = 0, rtds_remaining_ticks = 0,
        rtds_deadline_ticks = 0, rtds_last_start_ticks = 0, rtds_queue = RTDS_QUEUE_NONE\<rparr>,
      cbs_data = \<lparr>cbs_period_ticks = 0, cbs_budget_ticks = 0, cbs_remaining_ticks = 0,
        cbs_deadline_ticks = 0, cbs_last_start_ticks = 0, cbs_depleted_count = 0,
        cbs_replenish_count = 0, cbs_wake_replenish_count = 0, cbs_late_account_count = 0\<rparr>,
      bfp_data = \<lparr>bfp_period_ticks = 0, bfp_budget_ticks = 0, bfp_remaining_ticks = 0,
        bfp_next_replenish_ticks = 0, bfp_last_start_ticks = 0, bfp_depleted_count = 0,
        bfp_replenish_count = 0, bfp_overrun_count = 0, bfp_priority = 0, bfp_queue = BFP_QUEUE_NONE\<rparr>\<rparr>"

definition zero_vcpu :: acrn_vcpu where
  "zero_vcpu = \<lparr>vc_vcpu_id = 0, vc_vm = 0, vc_state = VCPU_OFFLINE, vc_launched = False, vc_pending_req = 0,
     vc_events = replicate MAX_VCPU_EVENT_NUM \<lparr>ev_set = False, waiting_thread = None\<rparr>\<rparr>"

definition prepare_vcpu_thread :: "vcpu_ref \<Rightarrow> nat \<Rightarrow> 'a vm_sys_scheme \<Rightarrow> 'a vm_sys_scheme" where
  "prepare_vcpu_thread v p x =
     (let vm = vm_vm_id (vm_array x (vc_vm (vcpu_of v x)));
          k = vc_vcpu_id (vcpu_of v x)
      in on_ssys (upd_thread (thread_obj v) (\<lambda>th. th\<lparr>name := vcpu_thread_name vm k, sched_ctl := Some p, pcpu_id := p,
           is_vcpu := True, vm_id := vm, vcpu_id := k, switch_out := True, switch_in := True\<rparr>)) x)"

definition publish_vcpu_thread :: "vcpu_ref \<Rightarrow> 'a vm_sys_scheme \<Rightarrow> 'a vm_sys_scheme" where
  "publish_vcpu_thread v x =
     (let vm = vm_vm_id (vm_array x (vc_vm (vcpu_of v x)))
      in on_vcpu_thread v (\<lambda>sch t. init_thread_data sch t (vm_sched_params (vm_configs (ssys x) vm))) x)"

type_synonym vcpu_arch = "vcpu_ref \<Rightarrow> sched_sys \<Rightarrow> sched_sys"

definition reset_vcpu :: "vcpu_arch \<Rightarrow> vcpu_ref \<Rightarrow> 'a vm_sys_scheme \<Rightarrow> 'a vm_sys_scheme" where
  "reset_vcpu arch v x =
     (let (paused, x) = vcpu_try_transition_state (Some v) VCPU_PAUSED VCPU_INIT x;
          (claimed, x) = (if paused then (True, x) else vcpu_try_transition_state (Some v) VCPU_OFFLINE VCPU_INIT x)
      in if \<not> claimed then x
         else on_ssys (arch v) (upd_vcpu v (\<lambda>vc. vc\<lparr>vc_launched := False, vc_pending_req := 0,
                vc_events := map reset_event (vc_events vc)\<rparr>) x))"

definition arch_init_vcpu :: "vcpu_arch \<Rightarrow> vcpu_ref \<Rightarrow> 'a vm_sys_scheme \<Rightarrow> int \<times> 'a vm_sys_scheme" where
  "arch_init_vcpu arch v x = (0, reset_vcpu arch v x)"

definition create_vcpu :: "vcpu_arch \<Rightarrow> nat \<Rightarrow> nat \<Rightarrow> 'a vm_sys_scheme \<Rightarrow> int \<times> 'a vm_sys_scheme" where
  "create_vcpu arch vm p x =
     (let k = created_vcpus (vm_array x vm);
          v = (vm, k)
      in if k < MAX_VCPUS_PER_VM then
           let x = upd_vcpu v (\<lambda>_. zero_vcpu\<lparr>vc_vcpu_id := k, vc_vm := vm\<rparr>) x;
               x = on_ssys (upd_thread (thread_obj v) (\<lambda>_. zero_thread)) x;
               x = prepare_vcpu_thread v p x;
               x = upd_vcpu v (\<lambda>vc. vc\<lparr>vc_events := replicate MAX_VCPU_EVENT_NUM init_event\<rparr>) x;
               (ret, x) = arch_init_vcpu arch v x;
               ret = (if ret = 0 \<and> vcpu_get_state (Some v) x \<noteq> VCPU_INIT then - EINVAL else ret)
           in if ret = 0 then
                let x = publish_vcpu_thread v x;
                    vmid = vm_vm_id (vm_array x vm);
                    x = x\<lparr>pcpu_vcpu_array := (pcpu_vcpu_array x)(p := (pcpu_vcpu_array x p)(vmid := Some v))\<rparr>
                in (ret, upd_vm vm (\<lambda>m. m\<lparr>created_vcpus := Suc (created_vcpus m)\<rparr>) x)
              else (ret, x)
         else (- EINVAL, x))"

definition clear_if :: "vcpu_ref \<Rightarrow> vcpu_ref option \<Rightarrow> vcpu_ref option" where
  "clear_if v slot = (if slot = Some v then None else slot)"

definition destroy_vcpu :: "vcpu_arch \<Rightarrow> vcpu_ref \<Rightarrow> 'a vm_sys_scheme \<Rightarrow> 'a vm_sys_scheme" where
  "destroy_vcpu arch v x =
     (let (denied, x) = (if vcpu_get_state (Some v) x = VCPU_INIT
                         then let (ok, x) = vcpu_try_transition_state (Some v) VCPU_INIT VCPU_PAUSED x in (\<not> ok, x)
                         else (False, x))
      in if denied then x
         else
           let (ok, x) = vcpu_try_transition_state (Some v) VCPU_PAUSED VCPU_OFFLINE x
           in if \<not> ok then x
              else
                let p = pcpuid_from_vcpu v x;
                    vmid = vm_vm_id (vm_array x (vc_vm (vcpu_of v x)));
                    x = on_ssys (arch v) x;
                    x = on_vcpu_thread v deinit_thread_data x;
                    x = x\<lparr>ever_run_vcpu := (ever_run_vcpu x)(p := clear_if v (ever_run_vcpu x p))\<rparr>
                in x\<lparr>pcpu_vcpu_array := (pcpu_vcpu_array x)
                       (p := (pcpu_vcpu_array x p)(vmid := clear_if v (pcpu_vcpu_array x p vmid)))\<rparr>)"

subsection \<open>Launch, pause and power off\<close>

definition launch_vcpu ::
  "('a vm_sys_scheme \<Rightarrow> 'a vm_sys_scheme) \<Rightarrow> vcpu_ref option \<Rightarrow> 'a vm_sys_scheme \<Rightarrow> bool \<times> 'a vm_sys_scheme" where
  "launch_vcpu env vo x =
     (let x = on_ssys tick_read x;
          st = vcpu_get_state vo x;
          (launched, x) = vcpu_try_transition_state vo st VCPU_RUNNING (env x)
      in case vo of
           None \<Rightarrow> (False, x)
         | Some v \<Rightarrow>
             if \<not> launched then (False, x)
             else
               let p = pcpuid_from_vcpu v x;
                   x = x\<lparr>ever_run_vcpu := (ever_run_vcpu x)(p := case ever_run_vcpu x p of None \<Rightarrow> Some v | Some u \<Rightarrow> Some u)\<rparr>;
                   x = on_ssys (release_thread_quiesce (Some (thread_obj v))) x;
                   x = on_vcpu_thread v wake_thread x
               in (True, if vcpu_boot_log_enabled v x then on_ssys tick_read x else x))"

text \<open>The results are \<open>was_running\<close> and \<open>pause_thread\<close>.\<close>

partial_function (option) pause_loop ::
  "(nat \<Rightarrow> 'a vm_sys_scheme \<Rightarrow> 'a vm_sys_scheme) \<Rightarrow> nat \<Rightarrow> vcpu_ref \<Rightarrow> 'a vm_sys_scheme \<Rightarrow> (bool \<times> bool \<times> 'a vm_sys_scheme) option" where
  "pause_loop env n v x =
     (let st = vcpu_get_state (Some v) x
      in if st = VCPU_PAUSED then Some (False, True, x)
         else if st = VCPU_OFFLINE then Some (False, False, x)
         else
           let (ok, x) = vcpu_try_transition_state (Some v) st VCPU_PAUSED (env n x)
           in if ok then Some (st = VCPU_RUNNING, True, x) else pause_loop env (Suc n) v x)"

definition vcpu_pause ::
  "(nat \<Rightarrow> 'a vm_sys_scheme \<Rightarrow> 'a vm_sys_scheme) \<Rightarrow> vcpu_ref option \<Rightarrow> 'a vm_sys_scheme \<Rightarrow> (bool \<times> 'a vm_sys_scheme) option" where
  "vcpu_pause env vo x =
     (case vo of
        None \<Rightarrow> Some (False, x)
      | Some v \<Rightarrow>
          (case pause_loop env 0 v x of
             None \<Rightarrow> None
           | Some (was_running, pause_thread, x) \<Rightarrow>
               Some (was_running, if pause_thread then on_vcpu_thread v sleep_thread x else x)))"

definition pause_vcpu ::
  "(nat \<Rightarrow> 'a vm_sys_scheme \<Rightarrow> 'a vm_sys_scheme) \<Rightarrow> vcpu_ref option \<Rightarrow> 'a vm_sys_scheme \<Rightarrow> 'a vm_sys_scheme option" where
  "pause_vcpu env vo x = map_option snd (vcpu_pause env vo x)"

definition is_vcpu_paused :: "vcpu_ref option \<Rightarrow> 'a vm_sys_scheme \<Rightarrow> bool" where
  "is_vcpu_paused vo x =
     (case vo of
        None \<Rightarrow> False
      | Some v \<Rightarrow> vcpu_get_state (Some v) x = VCPU_PAUSED \<and> is_blocked (thread_obj v) (ssys x))"

text \<open>\<open>while (c) asm_pause();\<close>: \<open>env n\<close> is what the others do in round \<open>n\<close>.\<close>

partial_function (option) spin_while ::
  "('a vm_sys_scheme \<Rightarrow> bool) \<Rightarrow> (nat \<Rightarrow> 'a vm_sys_scheme \<Rightarrow> 'a vm_sys_scheme) \<Rightarrow> nat \<Rightarrow> 'a vm_sys_scheme \<Rightarrow> 'a vm_sys_scheme option" where
  "spin_while c env n x = (if c x then spin_while c env (Suc n) (env n x) else Some x)"

definition pause_vcpu_sync ::
  "(nat \<Rightarrow> 'a vm_sys_scheme \<Rightarrow> 'a vm_sys_scheme) \<Rightarrow> (nat \<Rightarrow> 'a vm_sys_scheme \<Rightarrow> 'a vm_sys_scheme)
     \<Rightarrow> vcpu_ref option \<Rightarrow> 'a vm_sys_scheme \<Rightarrow> 'a vm_sys_scheme option" where
  "pause_vcpu_sync env spin vo x =
     (case vo of
        None \<Rightarrow> Some x
      | Some v \<Rightarrow>
          let p = pcpuid_from_vcpu v x;
              me = cur_pcpu (ssys x)
          in case vcpu_pause env vo x of
               None \<Rightarrow> None
             | Some (was_running, x) \<Rightarrow>
                 if was_running \<and> p \<noteq> me then spin_while (\<lambda>x. \<not> is_vcpu_paused vo x) spin 0 x
                 else Some x)"

definition is_vcpu_quiesced :: "vcpu_ref option \<Rightarrow> u64 \<Rightarrow> 'a vm_sys_scheme \<Rightarrow> bool" where
  "is_vcpu_quiesced vo gen x =
     (case vo of
        None \<Rightarrow> False
      | Some v \<Rightarrow> vcpu_get_state (Some v) x = VCPU_PAUSED \<and> is_thread_quiesced (Some (thread_obj v)) gen (ssys x))"

definition request_vcpu_quiesce ::
  "(nat \<Rightarrow> 'a vm_sys_scheme \<Rightarrow> 'a vm_sys_scheme) \<Rightarrow> vcpu_ref option \<Rightarrow> u64 \<Rightarrow> 'a vm_sys_scheme \<Rightarrow> (bool \<times> 'a vm_sys_scheme) option" where
  "request_vcpu_quiesce env vo gen x =
     (case vo of
        None \<Rightarrow> Some (False, x)
      | Some v \<Rightarrow>
          if gen = 0 then Some (False, x)
          else if is_vcpu_quiesced vo gen x then Some (True, x)
          else
            case vcpu_pause env vo x of
              None \<Rightarrow> None
            | Some (_, x) \<Rightarrow>
                if vcpu_get_state vo x = VCPU_PAUSED then
                  let (ok, s) = request_thread_quiesce (Some (thread_obj v)) gen (ssys x) in Some (ok, x\<lparr>ssys := s\<rparr>)
                else Some (False, x))"

definition poweroff_vcpu ::
  "(nat \<Rightarrow> 'a vm_sys_scheme \<Rightarrow> 'a vm_sys_scheme) \<Rightarrow> vcpu_ref option \<Rightarrow> 'a vm_sys_scheme \<Rightarrow> (bool \<times> 'a vm_sys_scheme) option" where
  "poweroff_vcpu spin vo x =
     (case vo of
        None \<Rightarrow> Some (False, x)
      | Some v \<Rightarrow>
          let p = pcpuid_from_vcpu v x;
              (powered_off, x) = vcpu_try_transition_state vo VCPU_RUNNING VCPU_POWERED_OFF x;
              x = (if powered_off then on_vcpu_thread v sleep_thread x else x)
          in if p \<noteq> cur_pcpu (ssys x)
             then map_option (Pair powered_off)
                    (spin_while (\<lambda>x. is_vcpu_powered_off vo x \<and> \<not> is_blocked (thread_obj v) (ssys x)) spin 0 x)
             else Some (powered_off, x))"


section \<open>Threads that stay off the processor\<close>

lemma quiesce_active_same:
  "gate_same s s' \<Longrightarrow> thread_quiesce_active_locked t s' = thread_quiesce_active_locked t s"
  by (simp add: gate_same_def thread_quiesce_active_locked_def quiesce_target_def quiesce_slot_def)

context sched_policy
begin

text \<open>What is blocked stays blocked, unless it is woken.\<close>

lemma schedule_keeps_blocked:
  assumes I: "pcpu_inv rq wfq p s" and R: "registry_inv p s" and p: "cur_pcpu s = p"
    and m: "managed p u s" and b: "is_blocked u s"
  shows "is_blocked u (schedule_with sch s)"
proof -
  let ?s1 = "consume_priority sch p s"
  obtain t s2 where ch: "choose_next sch p ?s1 = (t, s2)" by fastforce
  define s3 where "s3 = upd_ctl p (\<lambda>c. c\<lparr>flags := bitmap_clear NEED_RESCHEDULE (flags c)\<rparr>) s2"
  note C = consume_priority_inv [OF I R]
  have "cur_pcpu ?s1 = p" using C(3) p by simp
  note N = choose_next_inv [OF C(1) this ch]
  obtain c where c: "curr p s = Some c" "is_running c s"
    using I by (auto simp: pcpu_inv_def elim: base_inv_currE)
  have eq: "schedule_with sch s = (if c \<noteq> t then switch_threads p (Some c) t s3 else s3)"
    using p c ch by (simp add: schedule_with_def Let_def s3_def)
  have st: "status (threads s3 u) = status (threads s u)"
    using C(5) N(2) by (simp add: s3_def hook_frameD)
  have "t = Idle p \<or> eligible p t s" using N(3) C(4) by simp
  then have t: "u \<noteq> t" using m b by (auto simp: eligible_def managed_def)
  have "u \<noteq> c" using c(2) b by (auto simp: is_running_def is_blocked_def)
  then show ?thesis
    using t b st switch_threads_core(1) [OF refl, where c = c and nx = t and p = p and s = s3 and u = u]
    by (auto simp: eq is_blocked_def)
qed

lemma sleep_keeps_blocked:
  assumes I: "pcpu_inv rq wfq p s" and m: "managed p t s" and b: "is_blocked u s"
  shows "is_blocked u (snd (sleep_thread_locked sch t s))"
proof -
  have "hook_frame s (call_hook (hook_sleep sch) t s)" using I m sleep_ok [of p s t] by (auto simp: pcpu_inv_def hook_ok_def)
  then have "is_blocked u (call_hook (hook_sleep sch) t s)" using b by (simp add: hook_frameD)
  then show ?thesis by (auto simp: sleep_thread_locked_def Let_def is_blocked_def upd_latency_def set_thread_status_def)
qed

lemma wake_locked_gate:
  assumes I: "pcpu_inv rq wfq p s" and m: "managed p t s"
  shows "gate_same s (wake_thread_locked sch t s)"
proof (cases "is_blocked t s \<or> be_blocking (threads s t)")
  case True
  have "t \<notin> set (rq p s)" using pcpu_inv_blocked_not_queued [OF I True] .
  then have "hook_frame s (call_hook (hook_wake sch) t s)" using I m wake_ok [of p s t] by (auto simp: pcpu_inv_def hook_ok_def)
  from gate_same_hook [OF this] show ?thesis
    by (auto simp: gate_same_def wake_thread_locked_def Let_def upd_latency_def set_thread_status_def)
qed (simp add: wake_thread_locked_def)

lemma wake_keeps_blocked:
  assumes I: "pcpu_inv rq wfq p s" and m: "managed p t s" and b: "is_blocked u s" and "u \<noteq> t"
  shows "is_blocked u (wake_thread_locked sch t s)"
proof (cases "is_blocked t s \<or> be_blocking (threads s t)")
  case True
  have "t \<notin> set (rq p s)" using pcpu_inv_blocked_not_queued [OF I True] .
  then have "hook_frame s (call_hook (hook_wake sch) t s)" using I m wake_ok [of p s t] by (auto simp: pcpu_inv_def hook_ok_def)
  then have "is_blocked u (call_hook (hook_wake sch) t s)" using b by (simp add: hook_frameD)
  then show ?thesis using True \<open>u \<noteq> t\<close>
    by (auto simp: wake_thread_locked_def Let_def is_blocked_def upd_latency_def set_thread_status_def)
qed (use b in \<open>simp add: wake_thread_locked_def\<close>)

end

text \<open>
  A thread is parked when its quiesce slot is held and it is blocked. The steps below are those of
  \<open>sched_step\<close> without those that release the slot of \<open>t\<close>, thaw \<open>t\<close>, or let another thread take over its slot.
\<close>

definition parked :: "nat \<Rightarrow> thread_ref \<Rightarrow> sched_sys \<Rightarrow> bool" where
  "parked p t s \<longleftrightarrow> managed p t s \<and> thread_quiesce_active_locked t s \<and> is_blocked t s"

definition same_slot :: "thread_ref \<Rightarrow> thread_ref \<Rightarrow> sched_sys \<Rightarrow> bool" where
  "same_slot t u s \<longleftrightarrow> pcpu_id (threads s t) = pcpu_id (threads s u) \<and> vm_id (threads s t) = vm_id (threads s u)"

inductive park_step :: "sched_id \<Rightarrow> nat \<Rightarrow> thread_ref \<Rightarrow> sched_sys \<Rightarrow> sched_sys \<Rightarrow> bool" for i p t where
  Pk_schedule: "cur_pcpu s = p \<Longrightarrow> park_step i p t s (schedule_with (sched_ops i) s)"
| Pk_sleep: "managed p u s \<Longrightarrow> park_step i p t s (sleep_thread (sched_ops i) u s)"
| Pk_wake: "managed p u s \<Longrightarrow> park_step i p t s (wake_thread (sched_ops i) u s)"
| Pk_freeze: "managed p u s \<Longrightarrow> park_step i p t s (snd (snd (freeze_thread (sched_ops i) (Some u) e s)))"
| Pk_thaw: "managed p u s \<Longrightarrow> u \<noteq> t \<Longrightarrow> park_step i p t s (snd (thaw_thread (sched_ops i) (Some u) e w s))"
| Pk_priority: "managed p u s \<Longrightarrow> park_step i p t s (request_thread_priority (sched_ops i) u s)"
| Pk_yield: "park_step i p t s (yield_current s)"
| Pk_quiesce: "u = t \<or> \<not> same_slot t u s \<Longrightarrow> park_step i p t s (snd (request_thread_quiesce (Some u) g s))"
| Pk_release: "sched_ctl (threads s u) \<noteq> None \<Longrightarrow> u \<noteq> t \<Longrightarrow> park_step i p t s (release_thread_quiesce (Some u) s)"
| Pk_ack: "park_step i p t s (snd (sched_ack_quiesce_from_idle q s))"
| Pk_other_pcpu: "park_step i p t s (s\<lparr>cur_pcpu := q\<rparr>)"
| Pk_clock: "park_step i p t s (s\<lparr>tsc := ts\<rparr>)"

lemma park_sched_step: "park_step i p t s s' \<Longrightarrow> sched_step i p s s'"
  by (induction rule: park_step.induct) (auto intro: sched_step.intros)

lemma parked_gate_same:
  "parked p t s \<Longrightarrow> gate_same s s' \<Longrightarrow> is_blocked t s' \<Longrightarrow> parked p t s'"
  using gate_sameD(1) quiesce_active_same by (simp add: parked_def)

text \<open>A change of the slots that keeps the slot of the thread taken.\<close>

lemma parked_slots:
  assumes "parked p t s" and "threads s' = threads s"
    and "slot_obj (quiesce_slot t s') = Some t" and "request_generation (quiesce_slot t s') \<noteq> 0"
  shows "parked p t s'"
  using assms by (simp add: parked_def managed_def thread_quiesce_active_locked_def quiesce_target_def is_blocked_def)

lemma request_quiesce_slot:
  "sched_quiesce_slots (snd (request_thread_quiesce (Some u) g s)) q v =
     (let sl = sched_quiesce_slots s q v
      in if q = pcpu_id (threads s u) \<and> v = vm_id (threads s u) \<and> fst (request_thread_quiesce (Some u) g s)
         then sl\<lparr>slot_obj := Some u, request_generation := g\<rparr> else sl)"
  "threads (snd (request_thread_quiesce (Some u) g s)) = threads s"
  "fst (request_thread_quiesce (Some u) g s) \<Longrightarrow> g \<noteq> 0 \<and> quiesce_target u s"
  by (auto simp: request_thread_quiesce_def Let_def upd_slot_def split: option.splits if_splits)

lemma release_quiesce_slot:
  assumes "sched_ctl (threads s u) \<noteq> None"
  shows "sched_quiesce_slots (release_thread_quiesce (Some u) s) q v =
     (if q = pcpu_id (threads s u) \<and> v = vm_id (threads s u) \<and> quiesce_target u s \<and> slot_obj (quiesce_slot u s) = Some u
      then \<lparr>slot_obj = None, request_generation = 0, ack_generation = 0\<rparr> else sched_quiesce_slots s q v)"
    and "threads (release_thread_quiesce (Some u) s) = threads s"
  using assms by (auto simp: release_thread_quiesce_def Let_def upd_slot_def)

lemma parked_sleep:
  assumes I: "pcpu_inv (policy_rq i) (policy_wf i) p s" and m: "managed p u s" and K: "parked p t s"
  shows "parked p t (sleep_thread (sched_ops i) u s)"
  using parked_gate_same [OF K policies.sleep_keeps_thread(1) [OF I m]] policies.sleep_keeps_blocked [OF I m] K
  by (simp add: sleep_thread_def parked_def)

lemma parked_wake:
  assumes I: "pcpu_inv (policy_rq i) (policy_wf i) p s" and m: "managed p u s" and K: "parked p t s"
  shows "parked p t (wake_thread (sched_ops i) u s)" and "u \<noteq> t \<Longrightarrow> parked p t (wake_thread_locked (sched_ops i) u s)"
proof -
  have b: "is_blocked t s" "thread_quiesce_active_locked t s" using K by (simp_all add: parked_def)
  have "is_blocked t (wake_thread (sched_ops i) u s)"
    using policies.wake_keeps_blocked [OF I m b(1)] b by (cases "u = t") (auto simp: wake_thread_def is_blocked_def)
  then show "parked p t (wake_thread (sched_ops i) u s)" by (rule parked_gate_same [OF K policies.wake_keeps_thread(1) [OF I m]])
  show "parked p t (wake_thread_locked (sched_ops i) u s)" if "u \<noteq> t"
    using that by (intro parked_gate_same [OF K policies.wake_locked_gate [OF I m]] policies.wake_keeps_blocked [OF I m b(1)]) simp
qed

lemma parked_freeze_thaw:
  assumes I: "pcpu_inv (policy_rq i) (policy_wf i) p s" and m: "managed p u s" and K: "parked p t s"
  shows "parked p t (snd (snd (freeze_thread (sched_ops i) (Some u) e s)))"
    and "u \<noteq> t \<Longrightarrow> parked p t (snd (thaw_thread (sched_ops i) (Some u) e w s))"
proof -
  let ?f = "\<lambda>e. upd_thread u (\<lambda>th. th\<lparr>freeze_epoch := e, deferred_wake := False\<rparr>) s"
  have f: "parked p t (?f e)" "managed p u (?f e)" for e
    using K m by (auto simp: parked_def managed_def thread_quiesce_active_locked_def quiesce_target_def quiesce_slot_def is_blocked_def)
  note G = policies.gate_inv(1) [OF I]
  show "parked p t (snd (snd (freeze_thread (sched_ops i) (Some u) e s)))"
    using parked_sleep [OF I m K] parked_sleep [OF G f(2,1)] K by (simp add: freeze_thread_def sleep_thread_def Let_def split_def)
  show "parked p t (snd (thaw_thread (sched_ops i) (Some u) e w s))" if "u \<noteq> t"
    using parked_wake(2) [OF G f(2,1) that] f(1) K by (simp add: thaw_thread_def Let_def)
qed

lemma park_keeps:
  assumes P: "park_step i p t s s'" and I: "step_inv i p s" and K: "parked p t s"
  shows "parked p t s'"
  using P
proof cases
  have J: "pcpu_inv (policy_rq i) (policy_wf i) p s" "registry_inv p s" using I by (simp_all add: step_inv_def)
  have k: "managed p t s" "is_blocked t s" "thread_quiesce_active_locked t s" using K by (simp_all add: parked_def)
  {
    case Pk_schedule
    then show ?thesis using parked_gate_same [OF K] policies.schedule_keeps_thread(1) [OF J] policies.schedule_keeps_blocked [OF J _ k(1,2)] by simp
  next
    case (Pk_priority u)
    then show ?thesis using priority_quiet [of s "sched_ops i" u t] parked_gate_same [OF K] k(2) by (simp add: is_blocked_def)
  next
    case Pk_yield
    then show ?thesis using yield_quiet [of s] parked_gate_same [OF K] k(2) by (simp add: is_blocked_def)
  next
    case (Pk_quiesce u g)
    show ?thesis unfolding Pk_quiesce(1)
      by (rule parked_slots [OF K]) (use Pk_quiesce(2) k(3) request_quiesce_slot [of u g s] in
        \<open>auto simp: quiesce_slot_def same_slot_def thread_quiesce_active_locked_def Let_def\<close>)
  next
    case (Pk_release u)
    show ?thesis unfolding Pk_release(1)
      by (rule parked_slots [OF K]) (use Pk_release(2,3) k(3) release_quiesce_slot [of s u] in
        \<open>auto simp: quiesce_slot_def thread_quiesce_active_locked_def\<close>)
  next
    case (Pk_ack q)
    show ?thesis unfolding Pk_ack
      by (rule parked_slots [OF K]) (use k(3) in \<open>auto simp: quiesce_slot_def thread_quiesce_active_locked_def ack_slot ack_one_slot Let_def\<close>)
  next
    case (Pk_other_pcpu q)
    then show ?thesis using parked_gate_same [OF K] k(2) by (simp add: is_blocked_def)
  next
    case (Pk_clock ts)
    then show ?thesis using parked_gate_same [OF K] k(2) by (simp add: is_blocked_def)
  }
qed (use I K parked_sleep parked_wake(1) parked_freeze_thaw in \<open>simp_all add: step_inv_def\<close>)

text \<open>
  Recovery keeps a VM off the processors while its vCPUs are quiesced. The steps are those of
  \<open>sched_step\<close>, but no thread is thawed while its slot is held.
\<close>

inductive recovery_step :: "sched_id \<Rightarrow> nat \<Rightarrow> sched_sys \<Rightarrow> sched_sys \<Rightarrow> bool" for i p where
  Rc_schedule: "cur_pcpu s = p \<Longrightarrow> recovery_step i p s (schedule_with (sched_ops i) s)"
| Rc_sleep: "managed p u s \<Longrightarrow> recovery_step i p s (sleep_thread (sched_ops i) u s)"
| Rc_wake: "managed p u s \<Longrightarrow> recovery_step i p s (wake_thread (sched_ops i) u s)"
| Rc_freeze: "managed p u s \<Longrightarrow> recovery_step i p s (snd (snd (freeze_thread (sched_ops i) (Some u) e s)))"
| Rc_thaw: "managed p u s \<Longrightarrow> \<not> thread_quiesce_active_locked u s
    \<Longrightarrow> recovery_step i p s (snd (thaw_thread (sched_ops i) (Some u) e w s))"
| Rc_priority: "managed p u s \<Longrightarrow> recovery_step i p s (request_thread_priority (sched_ops i) u s)"
| Rc_yield: "recovery_step i p s (yield_current s)"
| Rc_quiesce: "recovery_step i p s (snd (request_thread_quiesce (Some u) g s))"
| Rc_release: "sched_ctl (threads s u) \<noteq> None \<Longrightarrow> recovery_step i p s (release_thread_quiesce (Some u) s)"
| Rc_ack: "recovery_step i p s (snd (sched_ack_quiesce_from_idle q s))"
| Rc_other_pcpu: "recovery_step i p s (s\<lparr>cur_pcpu := q\<rparr>)"
| Rc_clock: "recovery_step i p s (s\<lparr>tsc := ts\<rparr>)"

lemma recovery_sched_step: "recovery_step i p s s' \<Longrightarrow> sched_step i p s s'"
  by (induction rule: recovery_step.induct) (auto intro: sched_step.intros)

text \<open>The placement of the configuration: the vCPUs of a VM do not share a pCPU.\<close>

definition one_per_slot :: "nat \<Rightarrow> sched_sys \<Rightarrow> bool" where
  "one_per_slot p s \<longleftrightarrow>
     (\<forall>t u. is_vcpu (threads s t) \<and> is_vcpu (threads s u) \<and> pcpu_id (threads s t) = p \<and> pcpu_id (threads s u) = p
        \<and> vm_id (threads s t) = vm_id (threads s u) \<longrightarrow> t = u)"

definition slot_parked :: "nat \<Rightarrow> nat \<Rightarrow> sched_sys \<Rightarrow> bool" where
  "slot_parked p vm s \<longleftrightarrow>
     (\<exists>t. slot_obj (sched_quiesce_slots s p vm) = Some t \<and> parked p t s \<and> vm_id (threads s t) = vm)"

definition ack_inv :: "nat \<Rightarrow> sched_sys \<Rightarrow> bool" where
  "ack_inv p s \<longleftrightarrow> (\<forall>vm. ack_generation (sched_quiesce_slots s p vm) \<noteq> 0 \<longrightarrow> slot_parked p vm s)"

definition identity_same :: "sched_sys \<Rightarrow> sched_sys \<Rightarrow> bool" where
  "identity_same s s' \<longleftrightarrow>
     (\<forall>t. is_vcpu (threads s' t) = is_vcpu (threads s t) \<and> vm_id (threads s' t) = vm_id (threads s t)
        \<and> pcpu_id (threads s' t) = pcpu_id (threads s t))"

lemma identity_gate_same: "gate_same s s' \<Longrightarrow> identity_same s s'"
  by (simp add: gate_same_def identity_same_def)

lemma freeze_thaw_identity:
  assumes I: "pcpu_inv (policy_rq i) (policy_wf i) p s" and m: "managed p u s"
  shows "identity_same s (snd (snd (freeze_thread (sched_ops i) (Some u) e s)))"
    and "sched_quiesce_slots (snd (snd (freeze_thread (sched_ops i) (Some u) e s))) = sched_quiesce_slots s"
    and "identity_same s (snd (thaw_thread (sched_ops i) (Some u) e w s))"
    and "sched_quiesce_slots (snd (thaw_thread (sched_ops i) (Some u) e w s)) = sched_quiesce_slots s"
proof -
  let ?f = "\<lambda>e. upd_thread u (\<lambda>th. th\<lparr>freeze_epoch := e, deferred_wake := False\<rparr>) s"
  have m': "managed p u (?f e)" for e using m by (simp add: managed_def)
  note G = policies.gate_inv(1) [OF I]
  have "gate_same s (snd (sleep_thread_locked (sched_ops i) u s))" "gate_same (?f e) (snd (sleep_thread_locked (sched_ops i) u (?f e)))"
    "gate_same (?f 0) (wake_thread_locked (sched_ops i) u (?f 0))"
    using policies.sleep_keeps_thread(1) [OF I m] policies.sleep_keeps_thread(1) [OF G m'] policies.wake_locked_gate [OF G m']
    by (simp_all add: sleep_thread_def)
  then show "identity_same s (snd (snd (freeze_thread (sched_ops i) (Some u) e s)))"
    "sched_quiesce_slots (snd (snd (freeze_thread (sched_ops i) (Some u) e s))) = sched_quiesce_slots s"
    "identity_same s (snd (thaw_thread (sched_ops i) (Some u) e w s))"
    "sched_quiesce_slots (snd (thaw_thread (sched_ops i) (Some u) e w s)) = sched_quiesce_slots s"
    by (simp_all add: freeze_thread_def thaw_thread_def Let_def split_def identity_same_def gate_same_def)
qed

text \<open>A step of recovery is a step on the slots, or it keeps every held slot.\<close>

lemma recovery_kinds:
  assumes R: "recovery_step i p s s'" and I: "step_inv i p s"
  obtains (quiet) "identity_same s s'" and "sched_quiesce_slots s' = sched_quiesce_slots s"
      and "\<And>t. thread_quiesce_active_locked t s \<Longrightarrow> park_step i p t s s'"
  | (quiesce) u g where "s' = snd (request_thread_quiesce (Some u) g s)"
  | (release) u where "s' = release_thread_quiesce (Some u) s" and "sched_ctl (threads s u) \<noteq> None"
  | (ack) q where "s' = snd (sched_ack_quiesce_from_idle q s)"
  using R
proof cases
  have J: "pcpu_inv (policy_rq i) (policy_wf i) p s" "registry_inv p s" using I by (simp_all add: step_inv_def)
  have slots: "gate_same s s' \<Longrightarrow> sched_quiesce_slots s' = sched_quiesce_slots s" by (simp add: gate_same_def)
  note quietI = quiet [OF identity_gate_same slots]
  {
    case Rc_schedule
    then show thesis using policies.schedule_keeps_thread(1) [OF J] by (intro quietI) (auto intro: Pk_schedule)
  next
    case (Rc_sleep u)
    then show thesis using policies.sleep_keeps_thread(1) [OF J(1)] by (intro quietI) (auto intro: Pk_sleep)
  next
    case (Rc_wake u)
    then show thesis using policies.wake_keeps_thread(1) [OF J(1)] by (intro quietI) (auto intro: Pk_wake)
  next
    case (Rc_freeze u e)
    then show thesis using freeze_thaw_identity(1,2) [OF J(1)] by (intro quiet) (auto intro: Pk_freeze)
  next
    case (Rc_thaw u e w)
    then show thesis using freeze_thaw_identity(3,4) [OF J(1)] by (intro quiet) (auto intro: Pk_thaw)
  next
    case (Rc_priority u)
    then show thesis using priority_quiet [of s "sched_ops i" u] by (intro quietI) (auto intro: Pk_priority)
  next
    case Rc_yield
    then show thesis using yield_quiet [of s] by (intro quietI) (auto intro: Pk_yield)
  next
    case (Rc_other_pcpu q)
    then show thesis by (intro quietI) (auto intro: Pk_other_pcpu)
  next
    case (Rc_clock ts)
    then show thesis by (intro quietI) (auto intro: Pk_clock)
  }
qed (use quiesce release ack in blast)+

lemma recovery_identity:
  assumes "recovery_step i p s s'" and "step_inv i p s"
  shows "identity_same s s'"
  using assms
  by (cases rule: recovery_kinds) (simp_all add: identity_same_def request_quiesce_slot release_quiesce_slot)

lemma slot_parked_step:
  assumes R: "recovery_step i p s s'" and I: "step_inv i p s"
    and "slot_obj (sched_quiesce_slots s' p vm) = Some t" "parked p t s" "vm_id (threads s t) = vm" and P: "park_step i p t s s'"
  shows "slot_parked p vm s'"
  using assms park_keeps [OF P I] recovery_identity [OF R I] by (auto simp: slot_parked_def identity_same_def)

lemma ack_inv_quiesce:
  assumes I: "step_inv i p s" and O: "one_per_slot p s" and s': "s' = snd (request_thread_quiesce (Some u) g s)" and K: "slot_parked p vm s"
  shows "slot_parked p vm s'"
proof -
  obtain t where t: "slot_obj (sched_quiesce_slots s p vm) = Some t" "parked p t s" "vm_id (threads s t) = vm"
    using K by (auto simp: slot_parked_def)
  show ?thesis
  proof (cases "u = t \<or> \<not> same_slot t u s")
    case True
    have "slot_obj (sched_quiesce_slots s' p vm) = Some t"
      using True t unfolding s' by (auto simp: request_quiesce_slot Let_def same_slot_def parked_def managed_def)
    then show ?thesis using slot_parked_step [OF _ I] t Pk_quiesce [OF True, of i p g] Rc_quiesce s' by blast
  next
    case False
    then have "\<not> fst (request_thread_quiesce (Some u) g s)"
      using O t request_quiesce_slot(3) [of u g s]
      by (auto simp: one_per_slot_def same_slot_def parked_def managed_def thread_quiesce_active_locked_def quiesce_target_def)
    then have "s' = s" unfolding s' by (auto simp: request_thread_quiesce_def Let_def split: if_splits option.splits)
    then show ?thesis using K by simp
  qed
qed

lemma ack_inv_release:
  assumes I: "step_inv i p s" and c: "sched_ctl (threads s u) \<noteq> None" and s': "s' = release_thread_quiesce (Some u) s"
    and a: "ack_generation (sched_quiesce_slots s' p vm) \<noteq> 0" and A: "ack_inv p s"
  shows "slot_parked p vm s'"
proof -
  note S = release_quiesce_slot [OF c]
  have nz: "ack_generation (sched_quiesce_slots s p vm) \<noteq> 0" and same: "sched_quiesce_slots s' p vm = sched_quiesce_slots s p vm"
    using a unfolding s' by (auto simp: S split: if_splits)
  then obtain t where t: "slot_obj (sched_quiesce_slots s p vm) = Some t" "parked p t s" "vm_id (threads s t) = vm"
    using A by (auto simp: ack_inv_def slot_parked_def)
  have "u \<noteq> t"
  proof
    assume "u = t"
    then have "ack_generation (sched_quiesce_slots s' p vm) = 0"
      using t S(1) [of p vm] s' by (auto simp: quiesce_slot_def parked_def managed_def thread_quiesce_active_locked_def)
    with a show False by simp
  qed
  then show ?thesis using slot_parked_step [OF _ I] t same Pk_release [OF c] Rc_release [OF c] s' by metis
qed

lemma ack_inv_ack:
  assumes I: "step_inv i p s" and p: "p < MAX_PCPU_NUM" and s': "s' = snd (sched_ack_quiesce_from_idle q s)"
    and a: "ack_generation (sched_quiesce_slots s' p vm) \<noteq> 0" and A: "ack_inv p s"
  shows "slot_parked p vm s'"
proof -
  have "slot_parked p vm s"
  proof (cases "ack_generation (sched_quiesce_slots s p vm) \<noteq> 0")
    case False
    then obtain t where t: "slot_obj (sched_quiesce_slots s p vm) = Some t" "is_vcpu (threads s t)" "pcpu_id (threads s t) = p"
        "vm_id (threads s t) = vm" "request_generation (sched_quiesce_slots s p vm) \<noteq> 0" "is_blocked t s" "vm < CONFIG_MAX_VM_NUM"
      using a unfolding s' by (auto simp: ack_slot ack_one_slot Let_def split: if_splits)
    moreover have "managed p t s" using I t by (auto simp: step_inv_def pcpu_inv_def base_inv_def)
    ultimately show ?thesis
      using p by (auto simp: slot_parked_def parked_def thread_quiesce_active_locked_def quiesce_target_def quiesce_slot_def)
  qed (use A in \<open>simp add: ack_inv_def\<close>)
  moreover have "slot_obj (sched_quiesce_slots s' p vm) = slot_obj (sched_quiesce_slots s p vm)"
    unfolding s' by (auto simp: ack_slot ack_one_slot Let_def)
  ultimately show ?thesis using slot_parked_step [OF _ I] Pk_ack Rc_ack s' unfolding slot_parked_def by metis
qed

lemma ack_inv_step:
  assumes R: "recovery_step i p s s'" and I: "step_inv i p s" and A: "ack_inv p s" and O: "one_per_slot p s" and p: "p < MAX_PCPU_NUM"
  shows "ack_inv p s'"
  unfolding ack_inv_def
proof (intro allI impI)
  fix vm
  assume a: "ack_generation (sched_quiesce_slots s' p vm) \<noteq> 0"
  show "slot_parked p vm s'"
    using R I
  proof (cases rule: recovery_kinds)
    case quiet
    then obtain t where "slot_obj (sched_quiesce_slots s p vm) = Some t" "parked p t s" "vm_id (threads s t) = vm"
      using A a by (auto simp: ack_inv_def slot_parked_def)
    then show ?thesis using slot_parked_step [OF R I] quiet by (auto simp: parked_def)
  next
    case (quiesce u g)
    then have "slot_parked p vm s" using A a by (auto simp: ack_inv_def request_quiesce_slot Let_def split: if_splits)
    then show ?thesis by (rule ack_inv_quiesce [OF I O quiesce])
  next
    case (release u)
    then show ?thesis using ack_inv_release [OF I _ _ a A] by blast
  next
    case (ack q)
    then show ?thesis using ack_inv_ack [OF I p _ a A] by blast
  qed
qed

text \<open>A run of recovery from a state in which nothing is acknowledged.\<close>

lemma recovery_reach:
  assumes "(recovery_step i p)\<^sup>*\<^sup>* s s'" and "step_inv i p s" and "ack_inv p s" and "one_per_slot p s" and "p < MAX_PCPU_NUM"
  shows "step_inv i p s' \<and> ack_inv p s' \<and> one_per_slot p s'"
  using assms(1)
proof (induction rule: rtranclp_induct)
  case (step y z)
  then have "one_per_slot p z" using recovery_identity [OF step(2)] by (simp add: one_per_slot_def identity_same_def)
  then show ?case using step sched_step_inv [OF recovery_sched_step] ack_inv_step assms(5) by blast
qed (use assms in simp)

lemma parked_reach:
  assumes "(park_step i p t)\<^sup>*\<^sup>* s s'" and "step_inv i p s" and "parked p t s"
  shows "step_inv i p s' \<and> parked p t s'"
  using assms(1)
  by (induction rule: rtranclp_induct) (use assms park_keeps sched_step_inv [OF park_sched_step] in blast)+

lemma parked_off:
  assumes "step_inv i p s" and "parked p t s"
  shows "curr p s \<noteq> Some t" and "t \<notin> set (policy_rq i p s)"
proof -
  have I: "pcpu_inv (policy_rq i) (policy_wf i) p s" using assms(1) by (simp add: step_inv_def)
  have b: "is_blocked t s" "pcpu_id (threads s t) = p" using assms(2) by (simp_all add: parked_def managed_def)
  have "is_running t s \<longleftrightarrow> curr p s = Some t" using I b(2) by (simp add: pcpu_inv_def base_inv_def)
  then show "curr p s \<noteq> Some t" using b(1) by (simp add: is_running_def is_blocked_def)
  show "t \<notin> set (policy_rq i p s)" by (rule policies.pcpu_inv_blocked_not_queued [OF I]) (simp add: b(1))
qed

text \<open>
  Claim C10. A vCPU that recovery has found quiesced does not run again until it is launched: its thread stays
  blocked, off the processor and off the run queue of its pCPU, whatever wakes, sleeps, freezes, quiesce
  requests and scheduling follow in whatever order, as long as nothing releases its slot or thaws it and no vCPU
  of the same VM shares the pCPU.
\<close>

theorem quiesced_vcpu_stays_off:
  assumes "(recovery_step i p)\<^sup>*\<^sup>* s (ssys x)" and "step_inv i p s" and "one_per_slot p s" and "p < MAX_PCPU_NUM"
    and "\<And>vm. ack_generation (sched_quiesce_slots s p vm) = 0"
    and "is_vcpu_quiesced (Some v) g x" and "pcpuid_from_vcpu v x = p"
    and "(park_step i p (thread_obj v))\<^sup>*\<^sup>* (ssys x) s'"
  shows "curr p s' \<noteq> Some (thread_obj v) \<and> thread_obj v \<notin> set (policy_rq i p s') \<and> is_blocked (thread_obj v) s'"
proof -
  have "ack_inv p s" using assms(5) by (simp add: ack_inv_def)
  then have R: "step_inv i p (ssys x)" "ack_inv p (ssys x)" using recovery_reach [OF assms(1,2) _ assms(3,4)] by blast+
  have q: "is_thread_quiesced (Some (thread_obj v)) g (ssys x)" using assms(6) by (simp add: is_vcpu_quiesced_def)
  then have "parked p (thread_obj v) (ssys x)"
    using R(2) [unfolded ack_inv_def, rule_format, of "vm_id (threads (ssys x) (thread_obj v))"] assms(7)
    by (auto simp: is_thread_quiesced_def quiesce_slot_def pcpuid_from_vcpu_def slot_parked_def)
  then have K: "step_inv i p s'" "parked p (thread_obj v) s'" using parked_reach [OF assms(8) R(1)] by blast+
  then show ?thesis
    using parked_off [OF K] by (simp_all add: parked_def)
qed

section \<open>What the operations do\<close>

lemma vm_sys_simps [simp]:
  "ssys (on_ssys f x) = f (ssys x)" "vm_array (on_ssys f x) = vm_array x"
  "pcpu_vcpu_array (on_ssys f x) = pcpu_vcpu_array x" "ever_run_vcpu (on_ssys f x) = ever_run_vcpu x"
  "ssys (upd_vm m g x) = ssys x" "pcpu_vcpu_array (upd_vm m g x) = pcpu_vcpu_array x"
  "ever_run_vcpu (upd_vm m g x) = ever_run_vcpu x"
  "ssys (upd_vcpu v h x) = ssys x" "pcpu_vcpu_array (upd_vcpu v h x) = pcpu_vcpu_array x"
  "ever_run_vcpu (upd_vcpu v h x) = ever_run_vcpu x"
  "vm_array (upd_vm m g x) = (vm_array x)(m := g (vm_array x m))"
  by (simp_all add: on_ssys_def upd_vm_def upd_vcpu_def)

lemma vcpu_of_simps [simp]:
  "vcpu_of u (on_ssys f x) = vcpu_of u x" "vcpu_of u (upd_vcpu v h x) = (if u = v then h (vcpu_of v x) else vcpu_of u x)"
  "vcpu_of u (x\<lparr>ssys := s\<rparr>) = vcpu_of u x" "vcpu_of u (x\<lparr>pcpu_vcpu_array := a\<rparr>) = vcpu_of u x"
  "vcpu_of u (x\<lparr>ever_run_vcpu := e\<rparr>) = vcpu_of u x"
  by (auto simp: vcpu_of_def on_ssys_def upd_vcpu_def upd_vm_def prod_eq_iff)

lemma vm_frame_simps [simp]:
  "vm_vm_id (vm_array (upd_vcpu v h x) m) = vm_vm_id (vm_array x m)"
  "created_vcpus (vm_array (upd_vcpu v h x) m) = created_vcpus (vm_array x m)"
  by (simp_all add: upd_vcpu_def)

lemma pcpuid_simps [simp]:
  "pcpuid_from_vcpu v (upd_vcpu u h x) = pcpuid_from_vcpu v x" "pcpuid_from_vcpu v (x\<lparr>ever_run_vcpu := e\<rparr>) = pcpuid_from_vcpu v x"
  "pcpuid_from_vcpu v (x\<lparr>pcpu_vcpu_array := a\<rparr>) = pcpuid_from_vcpu v x"
  by (simp_all add: pcpuid_from_vcpu_def)

lemma on_vcpu_thread_simps [simp]:
  "vm_array (on_vcpu_thread v f x) = vm_array x" "vcpu_of u (on_vcpu_thread v f x) = vcpu_of u x"
  "pcpu_vcpu_array (on_vcpu_thread v f x) = pcpu_vcpu_array x" "ever_run_vcpu (on_vcpu_thread v f x) = ever_run_vcpu x"
  by (simp_all add: on_vcpu_thread_def)

lemma try_transition_frame [simp]:
  "ssys (snd (vcpu_try_transition_state vo a b x)) = ssys x"
  "pcpu_vcpu_array (snd (vcpu_try_transition_state vo a b x)) = pcpu_vcpu_array x"
  by (auto simp: vcpu_try_transition_state_def split: option.split)

text \<open>The pCPU \<open>p\<close> runs the policy \<open>i\<close>, and the thread of \<open>v\<close> is one of its own.\<close>

definition hosts :: "sched_id \<Rightarrow> nat \<Rightarrow> vcpu_ref \<Rightarrow> 'a vm_sys_scheme \<Rightarrow> bool" where
  "hosts i p v x \<longleftrightarrow> scheduler (sched_ctls (ssys x) p) = Some i \<and> step_inv i p (ssys x) \<and> managed p (thread_obj v) (ssys x)"

lemma hosts_on_thread:
  "hosts i p v x \<Longrightarrow> on_vcpu_thread v f x = on_ssys (f (sched_ops i) (thread_obj v)) x"
  by (simp add: hosts_def on_vcpu_thread_def on_sched_def on_ssys_def pcpuid_from_vcpu_def managed_def)

lemma hosts_cong: "ssys x' = ssys x \<Longrightarrow> hosts i p v x' = hosts i p v x"
  by (simp add: hosts_def)

subsection \<open>Pause\<close>

lemma try_transition_cases:
  assumes "vcpu_try_transition_state (Some v) a b x = (ok, x')"
  shows "ok \<Longrightarrow> vcpu_transition_allowed a b \<and> vc_state (vcpu_of v x) = a \<and> vc_state (vcpu_of v x') = b"
    and "\<not> ok \<Longrightarrow> x' = x" and "ssys x' = ssys x"
  using assms by (auto simp: vcpu_try_transition_state_def split: if_splits)




text \<open>
  The loop of the pause ends: the exchange succeeds in the first round in which nobody changes the state
  between the load and the exchange.
\<close>

theorem pause_vcpu_returns:
  assumes "\<And>y. vc_state (vcpu_of v (env N y)) = vc_state (vcpu_of v y)"
  shows "\<exists>x'. pause_vcpu env (Some v) x = Some x'"
proof -
  have "\<exists>r. pause_loop env n v y = Some r" if "n \<le> N" for n y
    using that
  proof (induction "N - n" arbitrary: n y)
    case 0
    then have "n = N" by simp
    moreover have "vcpu_transition_allowed st VCPU_PAUSED" if "st \<noteq> VCPU_PAUSED" "st \<noteq> VCPU_OFFLINE" for st
      using that by (cases st) (simp_all add: vcpu_transition_allowed_def)
    ultimately show ?case using assms [of y]
      by (subst pause_loop.simps) (auto simp: vcpu_get_state_def vcpu_try_transition_state_def Let_def)
  next
    case (Suc k)
    have "\<exists>r. pause_loop env (Suc n) v z = Some r" for z using Suc.hyps(1) [of "Suc n" z] Suc.hyps(2) by simp
    then show ?case by (subst pause_loop.simps) (auto simp: Let_def split: prod.split)
  qed
  from this [of 0 x] show ?thesis by (auto simp: pause_vcpu_def vcpu_pause_def)
qed

text \<open>
  A vCPU that was paused before, but whose thread has not left its pCPU yet, is not waited for: the
  synchronous pause returns while the thread still runs.
\<close>

theorem pause_sync_skips_wait:
  assumes h: "hosts i p v x" and st: "vcpu_get_state (Some v) x = VCPU_PAUSED" and r: "is_running (thread_obj v) (ssys x)"
  shows "\<exists>x'. pause_vcpu_sync env spin (Some v) x = Some x' \<and> \<not> is_vcpu_paused (Some v) x' \<and> curr p (ssys x') = Some (thread_obj v)"
proof -
  let ?t = "thread_obj v" and ?s = "sleep_thread (sched_ops i) (thread_obj v) (ssys x)"
  have I: "pcpu_inv (policy_rq i) (policy_wf i) p (ssys x)" and m: "managed p ?t (ssys x)" using h by (simp_all add: hosts_def step_inv_def)
  have "hook_frame (ssys x) (call_hook (hook_sleep (sched_ops i)) ?t (ssys x))"
    using I m policies.sleep_ok [of p "ssys x" i ?t] by (auto simp: pcpu_inv_def hook_ok_def)
  then have rs: "is_running ?t ?s"
    using r by (auto simp: sleep_thread_def sleep_thread_locked_def Let_def is_running_def hook_frameD)
  have "pcpu_inv (policy_rq i) (policy_wf i) p ?s" "pcpu_id (threads ?s ?t) = p"
    using policies.sleep_locked_inv(1) [OF I m] policies.sleep_keeps_thread(1) [OF I m] m
    by (simp_all add: sleep_thread_def gate_same_def managed_def)
  then have "curr p ?s = Some ?t" using rs by (simp add: pcpu_inv_def base_inv_def)
  moreover have "pause_vcpu_sync env spin (Some v) x = Some (on_vcpu_thread v sleep_thread x)"
    using st by (simp add: pause_vcpu_sync_def vcpu_pause_def pause_loop.simps Let_def)
  ultimately show ?thesis using rs by (simp add: hosts_on_thread [OF h] is_vcpu_paused_def is_running_def is_blocked_def)
qed

subsection \<open>Launch\<close>

lemma release_opens:
  assumes "sched_ctl (threads s t) \<noteq> None"
  shows "\<not> thread_quiesce_active_locked t (release_thread_quiesce (Some t) s)"
  using release_quiesce_slot [OF assms] by (auto simp: thread_quiesce_active_locked_def quiesce_slot_def quiesce_target_def)

lemma hosts_launch:
  assumes "hosts i p v x"
  defines "s \<equiv> wake_thread (sched_ops i) (thread_obj v) (release_thread_quiesce (Some (thread_obj v)) (ssys x))"
  shows "step_inv i p s" and "\<not> thread_quiesce_active_locked (thread_obj v) s"
    and "eligible p (thread_obj v) s \<or> freeze_epoch (threads s (thread_obj v)) \<noteq> 0 \<and> deferred_wake (threads s (thread_obj v))"
proof -
  let ?t = "thread_obj v" and ?r = "release_thread_quiesce (Some (thread_obj v)) (ssys x)"
  have m: "managed p ?t (ssys x)" and S: "step_inv i p (ssys x)" using assms(1) by (simp_all add: hosts_def)
  have c: "sched_ctl (threads (ssys x) ?t) \<noteq> None" using m by (simp add: managed_def)
  have Sr: "step_inv i p ?r" by (rule sched_step_inv [OF sched_step.Release [OF c] S])
  then have I: "pcpu_inv (policy_rq i) (policy_wf i) p ?r" by (simp add: step_inv_def)
  have mr: "managed p ?t ?r" using m release_quiesce_slot(2) [OF c] by (simp add: managed_def)
  show "step_inv i p s" unfolding s_def by (rule sched_step_inv [OF sched_step.Wake [OF mr] Sr])
  show "\<not> thread_quiesce_active_locked ?t s"
    unfolding s_def using quiesce_active_same [OF policies.wake_keeps_thread(1) [OF I mr]] release_opens [OF c] by simp
  show "eligible p ?t s \<or> freeze_epoch (threads s ?t) \<noteq> 0 \<and> deferred_wake (threads s ?t)"
    unfolding s_def using release_opens [OF c] policies.wake_locked_inv(2) [OF I mr] release_quiesce_slot(2) [OF c]
    by (simp add: wake_thread_def)
qed

lemma hosts_release:
  assumes "hosts i p v x"
  shows "hosts i p v (on_ssys (release_thread_quiesce (Some (thread_obj v))) (x\<lparr>ever_run_vcpu := e\<rparr>))"
proof -
  have c: "sched_ctl (threads (ssys x) (thread_obj v)) = Some p" and S: "step_inv i p (ssys x)"
    using assms by (simp_all add: hosts_def managed_def)
  have "step_inv i p (release_thread_quiesce (Some (thread_obj v)) (ssys x))"
    by (rule sched_step_inv [OF sched_step.Release S]) (simp add: c)
  moreover have "scheduler (sched_ctls (release_thread_quiesce (Some (thread_obj v)) (ssys x)) p) = scheduler (sched_ctls (ssys x) p)"
    using c by (simp add: release_thread_quiesce_def Let_def upd_slot_def)
  moreover have "threads (release_thread_quiesce (Some (thread_obj v)) (ssys x)) = threads (ssys x)"
    by (rule release_quiesce_slot) (simp add: c)
  ultimately show ?thesis using assms by (simp add: hosts_def managed_def)
qed

lemma tick_read_thread:
  "thread_quiesce_active_locked t (tick_read s) = thread_quiesce_active_locked t s" "eligible p t (tick_read s) = eligible p t s"
  by (simp_all add: thread_quiesce_active_locked_def quiesce_target_def quiesce_slot_def eligible_def managed_def is_blocked_def)

text \<open>
  Claim C11. A launch that succeeds makes the vCPU runnable: it is running, its quiesce slot is released, and its
  thread can be chosen, or is woken by the thaw when it is frozen. Without interference a launch succeeds
  from the initial and the powered-off state only.
\<close>

theorem launch_vcpu_ready:
  assumes "\<And>y. hosts i p v y \<Longrightarrow> hosts i p v (env y)" and "hosts i p v x" and "launch_vcpu env (Some v) x = (ok, x')"
  shows "step_inv i p (ssys x')
    \<and> (ok \<longrightarrow> vcpu_get_state (Some v) x' = VCPU_RUNNING \<and> \<not> thread_quiesce_active_locked (thread_obj v) (ssys x')
        \<and> (eligible p (thread_obj v) (ssys x')
           \<or> freeze_epoch (threads (ssys x') (thread_obj v)) \<noteq> 0 \<and> deferred_wake (threads (ssys x') (thread_obj v))))
    \<and> ((\<forall>y. env y = y) \<longrightarrow> (ok \<longleftrightarrow> vcpu_get_state (Some v) x \<in> {VCPU_INIT, VCPU_POWERED_OFF}))"
proof -
  let ?t = "thread_obj v"
  have tick: "hosts i p v (on_ssys tick_read y)" if "hosts i p v y" for y :: "'a vm_sys_scheme"
    using that sched_step_inv [OF sched_step.Clock] by (simp add: hosts_def managed_def tick_read_def)
  obtain z where t: "vcpu_try_transition_state (Some v) (vc_state (vcpu_of v x)) VCPU_RUNNING (env (on_ssys tick_read x)) = (ok, z)"
    and x': "\<not> ok \<Longrightarrow> x' = z"
    using assms(3) by (auto simp: launch_vcpu_def vcpu_get_state_def Let_def split: prod.splits if_splits)
  note T = try_transition_cases [OF t]
  have z: "hosts i p v z" using hosts_cong [OF T(3)] assms(1) [OF tick [OF assms(2)]] by simp
  define w where "w = on_ssys (wake_thread (sched_ops i) ?t) (on_ssys (release_thread_quiesce (Some ?t))
    (z\<lparr>ever_run_vcpu := (ever_run_vcpu z)(p := case ever_run_vcpu z p of None \<Rightarrow> Some v | Some u \<Rightarrow> Some u)\<rparr>))"
  have p: "pcpuid_from_vcpu v z = p" using z by (simp add: hosts_def managed_def pcpuid_from_vcpu_def)
  have W: "x' = (if vcpu_boot_log_enabled v w then on_ssys tick_read w else w)" if ok
    using that assms(3) t
    by (auto simp: launch_vcpu_def vcpu_get_state_def Let_def w_def p hosts_on_thread [OF hosts_release [OF z]])
  note L = hosts_launch [OF z]
  have w: "ssys w = wake_thread (sched_ops i) ?t (release_thread_quiesce (Some ?t) (ssys z))" "vcpu_of v w = vcpu_of v z"
    by (simp_all add: w_def)
  have 1: "vcpu_get_state (Some v) x' = VCPU_RUNNING \<and> \<not> thread_quiesce_active_locked ?t (ssys x')
      \<and> (eligible p ?t (ssys x') \<or> freeze_epoch (threads (ssys x') ?t) \<noteq> 0 \<and> deferred_wake (threads (ssys x') ?t))" if ok
    using W [OF that] L(2,3) T(1) [OF that]
    by (simp add: w vcpu_get_state_def tick_read_thread)
  have "step_inv i p (ssys w)" using L(1) by (simp add: w)
  then have "step_inv i p (tick_read (ssys w))" unfolding tick_read_def by (rule sched_step_inv [OF sched_step.Clock])
  then have 2: "step_inv i p (ssys x')" using W x' L(1) z by (cases ok) (simp_all add: w hosts_def)
  have "ok \<longleftrightarrow> vcpu_get_state (Some v) x \<in> {VCPU_INIT, VCPU_POWERED_OFF}" if "\<forall>y. env y = y"
    using t that by (auto simp: vcpu_get_state_def vcpu_try_transition_state_def vcpu_transition_allowed_def split: if_splits vcpu_state.splits)
  with 1 2 show ?thesis by blast
qed

subsection \<open>Requests\<close>

lemma get_running_vcpu_current:
  assumes "get_running_vcpu p x = Some v"
  shows "curr p (ssys x) = Some (thread_obj v)"
  using assms by (auto simp: get_running_vcpu_def find_Some_iff split: if_splits option.splits)

text \<open>
  A request to a vCPU is recorded and reaches its pCPU: the request bit is set, and either a reschedule
  of the pCPU is pending or the vCPU runs there at this moment and the pCPU has been sent an interrupt.
\<close>

theorem vcpu_request_delivered:
  fixes eventid
  assumes "hosts i p v x"
  defines "x' \<equiv> vcpu_make_request v eventid x"
  shows "bitmap_test eventid (vc_pending_req (vcpu_of v x'))"
    and "need_reschedule p (ssys x')
      \<or> curr p (ssys x') = Some (thread_obj v) \<and> cur_pcpu (ssys x') \<noteq> p \<and> hd (evlog (ssys x')) = SmpCallKick p"
proof -
  let ?y = "upd_vcpu v (\<lambda>vc. vc\<lparr>vc_pending_req := bitmap_set eventid (vc_pending_req vc)\<rparr>) x"
  have p: "pcpuid_from_vcpu v x = p" "pcpu_id (threads (ssys x) (thread_obj v)) = p"
    using assms(1) by (simp_all add: hosts_def managed_def pcpuid_from_vcpu_def)
  have y: "hosts i p v ?y" using assms(1) by (simp add: hosts_def)
  show "bitmap_test eventid (vc_pending_req (vcpu_of v x'))"
    by (simp add: x'_def vcpu_make_request_def Let_def bitmap_test_set)
  show "need_reschedule p (ssys x')
      \<or> curr p (ssys x') = Some (thread_obj v) \<and> cur_pcpu (ssys x') \<noteq> p \<and> hd (evlog (ssys x')) = SmpCallKick p"
    using get_running_vcpu_current [of p x v] p need_reschedule_after_request [of p]
    by (auto simp: x'_def vcpu_make_request_def Let_def hosts_on_thread [OF y] request_thread_priority_def curr_def
        request_thread_priority_no_resched_def log_event_def split: option.split)
qed

subsection \<open>Creation and destruction\<close>

lemma hook_frame_fold: "(\<And>y s. hook_frame s (f y s)) \<Longrightarrow> hook_frame s (fold f ys s)"
  by (induction ys arbitrary: s) (auto intro: hook_frame_trans)

lemma hook_frame_panic_if: "hook_frame s s' \<Longrightarrow> hook_frame s (if b then panic m s' else s')"
  using hook_frame_trans [OF _ hook_frame_timer_ops(6)] by simp

lemma normalize_frames:
  "hook_frame s (snd (snd (cbs_normalize_us p prm s)))" "hook_frame s (snd (snd (bfp_normalize_us p prm s)))"
  unfolding cbs_normalize_us_def bfp_normalize_us_def Let_def split_def snd_conv
  by (intro hook_frame_panic_if hook_frame_refl)+

lemma cbs_init_data_frame: "hook_frame s (sched_cbs_init_data t prm s)"
  unfolding sched_cbs_init_data_def Let_def split_def
  by (rule hook_frame_trans [OF hook_frame_timer_ops(1) hook_frame_trans [OF normalize_frames(1) cbs_prim_frames(1)]])

lemma bfp_init_data_frame: "hook_frame s (sched_bfp_init_data t prm s)"
proof -
  define s1 where "s1 = upd_bfp t (\<lambda>_. \<lparr>bfp_period_ticks = 0, bfp_budget_ticks = 0, bfp_remaining_ticks = 0,
    bfp_next_replenish_ticks = UINT64_MAX, bfp_last_start_ticks = 0, bfp_depleted_count = 0,
    bfp_replenish_count = 0, bfp_overrun_count = 0, bfp_priority = PRIO_IDLE, bfp_queue = BFP_QUEUE_NONE\<rparr>) (tick_read s)"
  have 1: "hook_frame s s1" unfolding s1_def by (intro bfp_steps hook_frame_refl)
  define s2 where "s2 = (if \<not> is_vcpu (threads s1 t) then panic ''BFP rejects host thread'' s1 else s1)"
  define s3 where "s3 = (if prio prm \<le> PRIO_IDLE then panic ''BFP invalid priority'' s2 else s2)"
  have 3: "hook_frame s s3" unfolding s3_def s2_def by (intro hook_frame_panic_if 1)
  obtain pu bu s4 where n: "bfp_normalize_us (pcpu_id (threads s3 t)) prm s3 = (pu, bu, s4)" by (metis prod_cases3)
  have 4: "hook_frame s s4" using hook_frame_trans [OF 3 normalize_frames(2)] n by (metis snd_conv)
  show ?thesis
    unfolding sched_bfp_init_data_def Let_def s1_def [symmetric] s2_def [symmetric] s3_def [symmetric] n prod.case
    by (intro hook_frame_if 1 hook_frame_trans [OF hook_frame_panic_if [OF 4] bfp_prim_frames(1)])
qed

lemma arinc653_init_data_frame: "hook_frame s (sched_arinc653_init_data t prm s)"
  unfolding sched_arinc653_init_data_def arinc653_resolve_entries_def Let_def
  by (intro hook_frame_if hook_frame_trans [OF hook_frame_trans [OF hook_frame_queues(9) hook_frame_queues(9)]
      hook_frame_fold] arinc_resolve_entry_frame(2) hook_frame_queues(9))

lemma rtds_init_data_frame: "hook_frame s (sched_rtds_init_data t prm s)"
  unfolding sched_rtds_init_data_def Let_def split_def
  by (rule hook_frame_trans [OF hook_frame_timer_ops(1) rtds_prim_frames(1)])

lemma init_data_frame: "hook_init_data (sched_ops i) = Some f \<Longrightarrow> hook_frame s (f t prm s)"
  using cbs_init_data_frame bfp_init_data_frame arinc653_init_data_frame rtds_init_data_frame
  by (cases i) (auto simp: sched_ops_def sched_noop_def sched_prio_def sched_iorr_def sched_bvt_def sched_rtds_def sched_cbs_def
      sched_bfp_def sched_arinc653_def sched_prio_init_data_def sched_iorr_init_data_def sched_bvt_init_data_def
      Let_def hook_frame_upd_thread)

lemma arinc653_deinit_data_frame: "hook_frame s (sched_arinc653_deinit_data t s)"
proof -
  have "hook_frame s (fold (\<lambda>i s. if ent_obj (entries (arinc_ctl s c) ! i) = Some t
      then upd_arinc c (set_entry i (\<lambda>e. e\<lparr>ent_obj := None\<rparr>)) s else s) ys s)" for c ys s
    by (rule hook_frame_fold) simp
  note F = this hook_frame_trans [OF hook_frame_queues(9) this]
  show ?thesis unfolding sched_arinc653_deinit_data_def Let_def by (cases "list_empty (ThreadNode t) (arinc_lists s)") (simp_all add: F)
qed

lemma deinit_data_frame: "hook_frame s (call_hook (hook_deinit_data (sched_ops i)) t s)"
  using arinc653_deinit_data_frame
  by (cases i) (simp_all add: sched_ops_def sched_noop_def sched_prio_def sched_iorr_def sched_bvt_def sched_rtds_def sched_cbs_def
      sched_bfp_def sched_arinc653_def call_hook_def sched_bfp_deinit_data_def)

lemma init_thread_data_result:
  fixes t prm s i
  defines "s' \<equiv> init_thread_data (sched_ops i) t prm s"
  shows "thread_list s' = thread_list s @ [t]" and "is_blocked t s'" and "node_linked (threads s' t)" and "sched_ctls s' = sched_ctls s"
    and "pcpu_id (threads s' t) = pcpu_id (threads s t)" "sched_ctl (threads s' t) = sched_ctl (threads s t)"
      "is_vcpu (threads s' t) = is_vcpu (threads s t)" "vm_id (threads s' t) = vm_id (threads s t)"
proof -
  define a where "a = upd_latency t (\<lambda>_. zero_latency) (upd_thread t (\<lambda>th. th\<lparr>node_linked := False\<rparr>) s)"
  define b where "b = (case hook_init_data (sched_ops i) of None \<Rightarrow> a | Some f \<Rightarrow> f t prm a)"
  have "hook_frame a b" unfolding b_def using init_data_frame by (auto split: option.split)
  then have F: "thread_list b = thread_list s" "sched_ctls b = sched_ctls s" "\<not> node_linked (threads b t)"
    "pcpu_id (threads b t) = pcpu_id (threads s t)" "sched_ctl (threads b t) = sched_ctl (threads s t)"
    "is_vcpu (threads b t) = is_vcpu (threads s t)" "vm_id (threads b t) = vm_id (threads s t)"
    by (simp_all add: hook_frameD a_def upd_latency_def)
  then show "thread_list s' = thread_list s @ [t]" "is_blocked t s'" "node_linked (threads s' t)" "sched_ctls s' = sched_ctls s"
    "pcpu_id (threads s' t) = pcpu_id (threads s t)" "sched_ctl (threads s' t) = sched_ctl (threads s t)"
    "is_vcpu (threads s' t) = is_vcpu (threads s t)" "vm_id (threads s' t) = vm_id (threads s t)"
    unfolding s'_def init_thread_data_def Let_def a_def [symmetric] b_def [symmetric]
    by (simp_all add: register_thread_object_def set_thread_status_def upd_latency_def is_blocked_def)
qed

lemma deinit_thread_data_list:
  assumes "node_linked (threads s t)"
  shows "thread_list (deinit_thread_data (sched_ops i) t s) = remove1 t (thread_list s)"
  using assms deinit_data_frame [of s i t] by (simp add: deinit_thread_data_def unregister_thread_object_def hook_frameD)

text \<open>The vCPU that \<open>create_vcpu\<close> publishes, and what the other parts of the system then see.\<close>

lemma create_vcpu_result:
  assumes sch: "scheduler (sched_ctls (ssys x) p) = Some i" and arch: "\<And>u s. hook_frame s (arch u s)"
    and id: "vm_vm_id (vm_array x vm) = vm" and k: "created_vcpus (vm_array x vm) < MAX_VCPUS_PER_VM"
  defines "v \<equiv> (vm, created_vcpus (vm_array x vm))"
  obtains x' where "create_vcpu arch vm p x = (0, x')"
    and "vcpu_of v x' = zero_vcpu\<lparr>vc_vcpu_id := snd v, vc_vm := vm, vc_state := VCPU_INIT\<rparr>"
    and "pcpu_vcpu_array x' = (pcpu_vcpu_array x)(p := (pcpu_vcpu_array x p)(vm := Some v))"
    and "thread_list (ssys x') = thread_list (ssys x) @ [thread_obj v]" and "node_linked (threads (ssys x') (thread_obj v))"
    and "managed p (thread_obj v) (ssys x')" and "is_blocked (thread_obj v) (ssys x')"
    and "created_vcpus (vm_array x' vm) = Suc (created_vcpus (vm_array x vm))" and "sched_ctls (ssys x') = sched_ctls (ssys x)"
    and "vm_vm_id (vm_array x' vm) = vm"
proof -
  let ?t = "thread_obj v" and ?k = "created_vcpus (vm_array x vm)"
  define a where "a = upd_vcpu v (\<lambda>_. zero_vcpu\<lparr>vc_vcpu_id := ?k, vc_vm := vm\<rparr>) x"
  define c where "c = prepare_vcpu_thread v p (on_ssys (upd_thread ?t (\<lambda>_. zero_thread)) a)"
  define d where "d = upd_vcpu v (\<lambda>vc. vc\<lparr>vc_events := replicate MAX_VCPU_EVENT_NUM init_event\<rparr>) c"
  define e where "e = reset_vcpu arch v d"
  define f where "f = publish_vcpu_thread v e"
  have c: "vcpu_of v c = zero_vcpu\<lparr>vc_vcpu_id := ?k, vc_vm := vm\<rparr>" "vm_vm_id (vm_array c vm) = vm" "created_vcpus (vm_array c vm) = ?k"
    "pcpu_vcpu_array c = pcpu_vcpu_array x" "thread_list (ssys c) = thread_list (ssys x)" "sched_ctls (ssys c) = sched_ctls (ssys x)"
    "pcpu_id (threads (ssys c) ?t) = p" "sched_ctl (threads (ssys c) ?t) = Some p"
    using id by (simp_all add: c_def a_def prepare_vcpu_thread_def Let_def)
  have d: "vcpu_of v d = zero_vcpu\<lparr>vc_vcpu_id := ?k, vc_vm := vm\<rparr>"
    by (simp add: d_def c zero_vcpu_def init_event_def)
  have e: "vcpu_of v e = zero_vcpu\<lparr>vc_vcpu_id := ?k, vc_vm := vm, vc_state := VCPU_INIT\<rparr>" "vm_vm_id (vm_array e vm) = vm"
    "created_vcpus (vm_array e vm) = ?k" "pcpu_vcpu_array e = pcpu_vcpu_array x" "ssys e = arch v (ssys c)"
    using d c by (simp_all add: e_def reset_vcpu_def vcpu_try_transition_state_def vcpu_transition_allowed_def zero_vcpu_def
        reset_event_def map_replicate d_def [THEN arg_cong [where f = pcpu_vcpu_array]] d_def [THEN arg_cong [where f = ssys]]
        d_def [THEN arg_cong [where f = vm_array]])
  note A = hook_frameD [OF arch [of "ssys c" v]]
  have s: "pcpuid_from_vcpu v e = p" "scheduler (sched_ctls (ssys e) p) = Some i" "sched_ctl (threads (ssys e) ?t) = Some p"
    "thread_list (ssys e) = thread_list (ssys x)" "sched_ctls (ssys e) = sched_ctls (ssys x)"
    using c A sch by (simp_all add: e(5) pcpuid_from_vcpu_def)
  obtain prm where f: "f = on_ssys (init_thread_data (sched_ops i) ?t prm) e"
    using s(1,2) by (simp add: f_def publish_vcpu_thread_def on_vcpu_thread_def on_sched_def on_ssys_def Let_def)
  note N = init_thread_data_result [where i = i and t = ?t and prm = prm and s = "ssys e"]
  define x' where "x' = upd_vm vm (\<lambda>m. m\<lparr>created_vcpus := Suc (created_vcpus m)\<rparr>)
    (f\<lparr>pcpu_vcpu_array := (pcpu_vcpu_array f)(p := (pcpu_vcpu_array f p)(vm := Some v))\<rparr>)"
  have "create_vcpu arch vm p x = (0, x')"
    using k e(1,2) unfolding create_vcpu_def Let_def v_def [symmetric] a_def [symmetric] c_def [symmetric] d_def [symmetric]
      arch_init_vcpu_def e_def [symmetric] prod.case f_def [symmetric]
    by (simp add: vcpu_get_state_def x'_def f)
  moreover have "vcpu_of v x' = vcpu_of v e" by (simp add: x'_def f vcpu_of_def upd_vm_def on_ssys_def)
  ultimately show thesis
    using that [of x'] N s e by (simp add: x'_def f managed_def thread_obj_def pcpuid_from_vcpu_def v_def)
qed

lemma destroy_vcpu_init:
  assumes sch: "scheduler (sched_ctls (ssys x) p) = Some i" and arch: "\<And>u s. hook_frame s (arch u s)"
    and st: "vc_state (vcpu_of v x) = VCPU_INIT" and m: "managed p (thread_obj v) (ssys x)" and n: "node_linked (threads (ssys x) (thread_obj v))"
  defines "x' \<equiv> destroy_vcpu arch v x" and "vm \<equiv> vm_vm_id (vm_array x (vc_vm (vcpu_of v x)))"
  shows "vcpu_get_state (Some v) x' = VCPU_OFFLINE" and "thread_list (ssys x') = remove1 (thread_obj v) (thread_list (ssys x))"
    and "pcpu_vcpu_array x' = (pcpu_vcpu_array x)(p := (pcpu_vcpu_array x p)(vm := clear_if v (pcpu_vcpu_array x p vm)))"
    and "ever_run_vcpu x' = (ever_run_vcpu x)(p := clear_if v (ever_run_vcpu x p))"
proof -
  define y where "y = upd_vcpu v (\<lambda>vc. vc\<lparr>vc_state := VCPU_OFFLINE\<rparr>) (upd_vcpu v (\<lambda>vc. vc\<lparr>vc_state := VCPU_PAUSED\<rparr>) x)"
  have p: "pcpuid_from_vcpu v y = p" using m by (simp add: y_def managed_def pcpuid_from_vcpu_def)
  note A = hook_frameD [OF arch [of "ssys x" v]]
  have d: "on_vcpu_thread v deinit_thread_data (on_ssys (arch v) y) = on_ssys (deinit_thread_data (sched_ops i) (thread_obj v)) (on_ssys (arch v) y)"
    using m sch A by (simp add: on_vcpu_thread_def on_sched_def on_ssys_def pcpuid_from_vcpu_def y_def managed_def)
  have x': "x' = (let z = on_ssys (deinit_thread_data (sched_ops i) (thread_obj v)) (on_ssys (arch v) y);
      z = z\<lparr>ever_run_vcpu := (ever_run_vcpu z)(p := clear_if v (ever_run_vcpu z p))\<rparr>
      in z\<lparr>pcpu_vcpu_array := (pcpu_vcpu_array z)(p := (pcpu_vcpu_array z p)(vm := clear_if v (pcpu_vcpu_array z p vm)))\<rparr>)"
    using st p d by (simp add: x'_def vm_def destroy_vcpu_def vcpu_get_state_def vcpu_try_transition_state_def
        vcpu_transition_allowed_def y_def [symmetric] Let_def) (simp add: y_def)
  have "thread_list (deinit_thread_data (sched_ops i) (thread_obj v) (arch v (ssys x))) = remove1 (thread_obj v) (thread_list (ssys x))"
    using n A by (simp add: deinit_thread_data_list)
  then show "vcpu_get_state (Some v) x' = VCPU_OFFLINE" "thread_list (ssys x') = remove1 (thread_obj v) (thread_list (ssys x))"
    "pcpu_vcpu_array x' = (pcpu_vcpu_array x)(p := (pcpu_vcpu_array x p)(vm := clear_if v (pcpu_vcpu_array x p vm)))"
    "ever_run_vcpu x' = (ever_run_vcpu x)(p := clear_if v (ever_run_vcpu x p))"
    by (simp_all add: x' Let_def vcpu_get_state_def y_def)
qed

text \<open>
  Claim C13. Creation publishes a vCPU completely or not at all, and destruction takes it back. Where the VM has room,
  the new vCPU is in its initial state, its thread is blocked, bound to the pCPU and last on the registry, and the
  slot of the VM on the pCPU names it; destroying it unlaunched restores the registry and empties the slot.
  Where the VM has no room nothing changes.
\<close>

theorem create_destroy_vcpu:
  assumes sch: "scheduler (sched_ctls (ssys x) p) = Some i" and arch: "\<And>u s. hook_frame s (arch u s)"
    and id: "vm_vm_id (vm_array x vm) = vm" and v: "v = (vm, created_vcpus (vm_array x vm))"
    and new: "thread_obj v \<notin> set (thread_list (ssys x))" and C: "create_vcpu arch vm p x = (ret, x')"
  shows "if created_vcpus (vm_array x vm) < MAX_VCPUS_PER_VM
      then ret = 0 \<and> vcpu_get_state (Some v) x' = VCPU_INIT \<and> pcpu_vcpu_array x' p vm = Some v
        \<and> managed p (thread_obj v) (ssys x') \<and> is_blocked (thread_obj v) (ssys x')
        \<and> thread_list (ssys x') = thread_list (ssys x) @ [thread_obj v]
        \<and> vcpu_get_state (Some v) (destroy_vcpu arch v x') = VCPU_OFFLINE
        \<and> pcpu_vcpu_array (destroy_vcpu arch v x') p vm = None
        \<and> thread_list (ssys (destroy_vcpu arch v x')) = thread_list (ssys x)
      else ret = - EINVAL \<and> x' = x"
proof (cases "created_vcpus (vm_array x vm) < MAX_VCPUS_PER_VM")
  case True
  obtain y where y: "create_vcpu arch vm p x = (0, y)" "vcpu_of v y = zero_vcpu\<lparr>vc_vcpu_id := snd v, vc_vm := vm, vc_state := VCPU_INIT\<rparr>"
    "pcpu_vcpu_array y = (pcpu_vcpu_array x)(p := (pcpu_vcpu_array x p)(vm := Some v))"
    "thread_list (ssys y) = thread_list (ssys x) @ [thread_obj v]" "node_linked (threads (ssys y) (thread_obj v))"
    "managed p (thread_obj v) (ssys y)" "is_blocked (thread_obj v) (ssys y)" "sched_ctls (ssys y) = sched_ctls (ssys x)"
    "vm_vm_id (vm_array y vm) = vm"
    using create_vcpu_result [where arch = arch, OF sch arch id True] v by metis
  have "scheduler (sched_ctls (ssys y) p) = Some i" "vc_state (vcpu_of v y) = VCPU_INIT" using sch y(2,8) by simp_all
  note D = destroy_vcpu_init [where arch = arch, OF this(1) arch this(2) y(6,5)]
  show ?thesis using True C y(1-4,6,7,9) D new by (simp add: vcpu_get_state_def clear_if_def remove1_append)
qed (use C in \<open>simp add: create_vcpu_def Let_def\<close>)

end
