(* ===== verification/Example_System.thy ===== *)
theory Example_System
  imports Sched_Event Softirq Sched_Smart Vcpu
begin

text \<open>
  A small concrete system: pCPU 0 runs its idle thread, one vCPU waits on the run queue and another
  is blocked. It satisfies the invariant of each policy, so that the hypotheses of the properties
  can be met together.
\<close>

definition demo_latency :: sched_latency_stats where
  "demo_latency = \<lparr>switches = 0, last_wait_ticks = 0, max_wait_ticks = 0, state_since = 0, runnable_since = 0,
     runtime_ticks = 0, wait_hist = replicate 8 0\<rparr>"

definition demo_thread :: "nat \<Rightarrow> nat option \<Rightarrow> thread_object_state \<Rightarrow> bool \<Rightarrow> nat \<Rightarrow> bool \<Rightarrow> thread_object" where
  "demo_thread p ctl st vcpu vm queued =
     \<lparr>node_linked = True, name = ''t'', pcpu_id = p, sched_ctl = ctl, status = st, be_blocking = False,
      is_vcpu = vcpu, priority_pending = False, freeze_epoch = 0, deferred_wake = False, vm_id = vm, vcpu_id = 0,
      ptrauth_return_authenticated = False, switch_out = False, switch_in = False, latency = demo_latency,
      prio_data = 1,
      iorr_data = \<lparr>iorr_slice_cycles = 100, iorr_last_cycles = 0, iorr_left_cycles = 100\<rparr>,
      bvt_data = \<lparr>mcu = 10, weight = 1, vt_ratio = 1, warp_on = False, warp_value = 0, warp_limit = 0, unwarp_period = 0,
        warp_left = 0, last_unwarp_tsc = 0, avt = 0, evt = 0, residual = 0, start_tsc = 0\<rparr>,
      rtds_data = \<lparr>rtds_period_ticks = 400, rtds_budget_ticks = 200, rtds_remaining_ticks = 200, rtds_deadline_ticks = 1200,
        rtds_last_start_ticks = 0, rtds_queue = (if queued then RTDS_QUEUE_READY else RTDS_QUEUE_NONE)\<rparr>,
      cbs_data = \<lparr>cbs_period_ticks = 400, cbs_budget_ticks = 200, cbs_remaining_ticks = 200, cbs_deadline_ticks = 1200,
        cbs_last_start_ticks = 0, cbs_depleted_count = 0, cbs_replenish_count = 0, cbs_wake_replenish_count = 0,
        cbs_late_account_count = 0\<rparr>,
      bfp_data = \<lparr>bfp_period_ticks = 400, bfp_budget_ticks = 200, bfp_remaining_ticks = 200, bfp_next_replenish_ticks = 1200,
        bfp_last_start_ticks = 0, bfp_depleted_count = 0, bfp_replenish_count = 0, bfp_overrun_count = 0, bfp_priority = 1,
        bfp_queue = (if queued then BFP_QUEUE_READY else BFP_QUEUE_NONE)\<rparr>\<rparr>"

fun demo_threads :: "thread_ref \<Rightarrow> thread_object" where
  "demo_threads (Idle q) = demo_thread q None THREAD_STS_RUNNING False 0 False"
| "demo_threads (Thr n) =
     (if n = 1 then demo_thread 0 (Some 0) THREAD_STS_RUNNABLE True 0 True
      else if n = 2 then demo_thread 0 (Some 0) THREAD_STS_BLOCKED True 1 False
      else demo_thread 9 None THREAD_STS_BLOCKED False 0 False)"

definition demo_pool :: "sched_policy_id \<Rightarrow> sched_cpupool_config" where
  "demo_pool pol = zero_pool\<lparr>pool_configured := True, has_pcpu_mask := True, pcpu_mask := 1, policy := pol\<rparr>"

definition demo_arinc :: sched_arinc653_control where
  "demo_arinc = \<lparr>entries = \<lparr>ent_vm_id = 0, ent_vcpu_id = 0, ent_runtime_us = 60, ent_runtime_ticks = 60, ent_obj = Some (Thr 1)\<rparr>
      # \<lparr>ent_vm_id = 5, ent_vcpu_id = 0, ent_runtime_us = 20, ent_runtime_ticks = 20, ent_obj = None\<rparr> # replicate 62 zero_entry,
     major_frame_ticks = 100, frame_start_ticks = 0, next_major_frame_ticks = 0, next_switch_ticks = 0,
     arinc_timer_deadline_ticks = 0, major_frame_us = 100, entry_count = 2, sched_index = 0, suspended = False\<rparr>"

text \<open>The ARINC653 thread list of pCPU 0: the head, \<open>Thr 1\<close>, \<open>Thr 2\<close>.\<close>

definition demo_lists :: "arinc_node list_heap" where
  "demo_lists = \<lparr>
     nxt = (\<lambda>n. if n = ThreadList 0 then ThreadNode (Thr 1) else if n = ThreadNode (Thr 1) then ThreadNode (Thr 2)
                else if n = ThreadNode (Thr 2) then ThreadList 0 else n),
     prv = (\<lambda>n. if n = ThreadList 0 then ThreadNode (Thr 2) else if n = ThreadNode (Thr 1) then ThreadList 0
                else if n = ThreadNode (Thr 2) then ThreadNode (Thr 1) else n)\<rparr>"

definition demo :: "sched_id \<Rightarrow> sched_sys" where
  "demo i = \<lparr>cur_pcpu = 0, tsc = (\<lambda>n. 1000 + 10 * of_nat n), khz = 1000, fault = None, evlog = [],
     timers = (\<lambda>t. \<lparr>node = None, mode = TICK_MODE_ONESHOT, timeout = 0, period_in_cycle = 0, func = Some (Other_handler 0), priv_data = 0\<rparr>),
     timer_list = (\<lambda>p. []), hw_timer = (\<lambda>p. None),
     threads = demo_threads,
     sched_ctls = (\<lambda>q. \<lparr>ctl_pcpu_id = q, flags = 0, curr_obj = Some (Idle q), scheduler = Some i, priv = True, scheduler_ticks = 0,
        context_switches = 0, reschedule_requests = 0, quiesce_request_vm_mask = 0, ctl_priority_pending = False\<rparr>),
     thread_list = [Idle 0, Thr 1, Thr 2], thread_count = 3,
     sched_quiesce_slots = (\<lambda>p vm. \<lparr>slot_obj = None, request_generation = 0, ack_generation = 0\<rparr>),
     platform_config = \<lparr>plat_configured = True, strict_placement = False, exclusive = demo_pool SCHED_POLICY_BVT, shared = zero_pool\<rparr>,
     vm_configs = (\<lambda>v. \<lparr>load_order = PRE_LAUNCHED_VM, vm_name = '''', cpu_affinity = 0, cpu_affinity_order = [], vm_sched_params = zero_params\<rparr>),
     pcpu_flag = (\<lambda>p. 0), pcpu_nums = 2, ptrauth_policy_enabled = False, ptrauth_ready = (\<lambda>p. False),
     noop_thread_obj = (\<lambda>p. if p = 0 then Some (Thr 1) else None),
     prio_queue = (\<lambda>p. if p = 0 then [Thr 1] else []), iorr_runqueue = (\<lambda>p. if p = 0 then [Thr 1] else []),
     bvt_ctl = (\<lambda>p. \<lparr>bvt_runqueue = (if p = 0 then [Thr 1] else []), svt = 0\<rparr>),
     rtds_ctl = (\<lambda>p. \<lparr>rtds_ready_queue = (if p = 0 then [Thr 1] else []), rtds_depleted_queue = []\<rparr>),
     cbs_ctl = (\<lambda>p. \<lparr>cbs_runqueue = (if p = 0 then [Thr 1] else []), cbs_timer_deadline_ticks = 0, cbs_admission_utilization = 0\<rparr>),
     bfp_ctl = (\<lambda>p. \<lparr>bfp_ready_queue = (if p = 0 then [Thr 1] else []), bfp_depleted_queue = [], bfp_timer_deadline_ticks = 0, bfp_admitted_vcpus = 0\<rparr>),
     arinc_ctl = (\<lambda>p. demo_arinc), arinc_lists = demo_lists\<rparr>"

lemma demo_simps [simp]:
  "cur_pcpu (demo i) = 0" "fault (demo i) = None" "threads (demo i) = demo_threads" "khz (demo i) = 1000"
  "pcpu_nums (demo i) = 2" "thread_list (demo i) = [Idle 0, Thr 1, Thr 2]" "timer_list (demo i) q = []"
  "node (timers (demo i) t) = None" "func (timers (demo i) t) = Some (Other_handler 0)" "arinc_ctl (demo i) q = demo_arinc"
  "arinc_lists (demo i) = demo_lists" "scheduler (sched_ctls (demo i) q) = Some i" "priv (sched_ctls (demo i) q)"
  "ctl_pcpu_id (sched_ctls (demo i) q) = q" "curr q (demo i) = Some (Idle q)" "tsc (demo i) n = 1000 + 10 * of_nat n"
  "flags (sched_ctls (demo i) q) = 0" "pcpu_flag (demo i) q = 0" "ctl_priority_pending (sched_ctls (demo i) q) = False"
  "quiesce_request_vm_mask (sched_ctls (demo i) q) = 0"
  by (simp_all add: demo_def curr_def)

lemma demo_thread_simps [simp]:
  "pcpu_id (demo_thread p c st v vm q) = p" "sched_ctl (demo_thread p c st v vm q) = c" "status (demo_thread p c st v vm q) = st"
  "be_blocking (demo_thread p c st v vm q) = False" "is_vcpu (demo_thread p c st v vm q) = v" "vm_id (demo_thread p c st v vm q) = vm"
  "vcpu_id (demo_thread p c st v vm q) = 0" "priority_pending (demo_thread p c st v vm q) = False"
  "freeze_epoch (demo_thread p c st v vm q) = 0" "deferred_wake (demo_thread p c st v vm q) = False"
  by (simp_all add: demo_thread_def)

lemma demo_managed [simp]: "managed p t (demo i) \<longleftrightarrow> p = 0 \<and> (t = Thr 1 \<or> t = Thr 2)"
  by (cases t) (auto simp: managed_def)

lemma demo_eligible [simp]: "eligible p t (demo i) \<longleftrightarrow> p = 0 \<and> t = Thr 1"
  by (cases t) (auto simp: eligible_def is_blocked_def)

lemma demo_base: "base_inv 0 (demo i)"
proof -
  have "is_vcpu (demo_threads t) \<and> pcpu_id (demo_threads t) = 0 \<longrightarrow> managed 0 t (demo i)"
    "pcpu_id (demo_threads t) = 0 \<longrightarrow> is_running t (demo i) = (Idle 0 = t)" "\<not> be_blocking (demo_threads t)" for t
    by (cases t; auto simp: is_running_def)+
  then show ?thesis by (auto simp: base_inv_def)
qed

lemma demo_rq: "policy_rq i 0 (demo i) = (if i = Sched_arinc653 then [] else [Thr 1])"
  by (cases i) (simp_all add: policy_rq_def noop_rq_def iorr_rq_def bvt_rq_def rtds_rq_def rtds_ready_def rtds_depleted_def
      cbs_rq_def prio_rq_def arinc_rq_def bfp_rq_def bfp_ready_def bfp_depleted_def demo_def)

lemma demo_timer: "timer_ok (demo i)"
  by (simp add: timer_ok_def timer_inv_def timer_is_started_def)

lemma demo_arinc_ok: "arinc_ok demo_arinc"
proof -
  have "arinc_offset demo_arinc 2 = 80" by (simp add: arinc_offset_def demo_arinc_def upt_rec)
  moreover have "i < 2 \<Longrightarrow> ent_runtime_ticks (entries demo_arinc ! i) \<noteq> 0" for i
    by (cases "i = 0"; cases "i = 1") (auto simp: demo_arinc_def)
  ultimately show ?thesis by (simp add: arinc_ok_def arinc_table_def SCHED_ARINC653_MAX_ENTRIES_def) (simp add: demo_arinc_def)
qed

lemma demo_queues [simp]:
  "rtds_ready 0 (demo i) = [Thr 1]" "rtds_depleted 0 (demo i) = []" "cbs_rq 0 (demo i) = [Thr 1]"
  "bfp_ready 0 (demo i) = [Thr 1]" "bfp_depleted 0 (demo i) = []"
  by (simp_all add: rtds_ready_def rtds_depleted_def cbs_rq_def bfp_ready_def bfp_depleted_def demo_def)

lemma demo_rtds: "rtds_wf 0 (demo i)"
proof -
  have "sched_ctl (demo_threads t) = Some 0 \<longrightarrow>
      rtds_queue (rtds_data (demo_threads t)) = (if t = Thr 1 then RTDS_QUEUE_READY else RTDS_QUEUE_NONE)"
    "rtds_server (rtds_data (demo_threads t))" "rtds_remaining_ticks (rtds_data (demo_threads t)) = 200" for t
    by (cases t; auto simp: demo_thread_def rtds_server_def)+
  then show ?thesis by (auto simp: rtds_wf_def rtds_linked_def rtds_rq_def simp del: demo_threads.simps)
qed

lemma demo_cbs: "cbs_wf 0 (demo i)"
proof -
  have "cbs_server (cbs_data (demo_threads t))" for t by (cases t) (auto simp: demo_thread_def cbs_server_def)
  then show ?thesis by (auto simp: cbs_wf_def)
qed

lemma demo_bfp: "bfp_wf 0 (demo i)"
proof -
  have "pcpu_id (demo_threads t) = 0 \<longrightarrow>
      bfp_queue (bfp_data (demo_threads t)) = (if t = Thr 1 then BFP_QUEUE_READY else BFP_QUEUE_NONE)"
    "bfp_server (bfp_data (demo_threads t))" "bfp_token (bfp_data (demo_threads t))" for t
    by (cases t; auto simp: demo_thread_def bfp_server_def bfp_token_def)+
  then show ?thesis by (auto simp: bfp_wf_but_def bfp_linked_def bfp_rq_def in_order_def simp del: demo_threads.simps)
qed

lemma demo_wf: "policy_wf i 0 (demo i)"
  by (cases i) (simp_all add: policy_wf_def demo_rtds demo_cbs demo_bfp arinc_wf_def demo_arinc_ok)

lemma demo_registry: "registry_inv 0 (demo i)"
  by (simp add: registry_inv_def)

lemma demo_inv: "step_inv i 0 (demo i)"
  using demo_base demo_rq demo_timer demo_wf demo_registry by (simp add: step_inv_def pcpu_inv_def queue_inv_def)

text \<open>The same system a little later: \<open>Thr 1\<close> runs, off the queue, and a VM has asked to be quiesced.\<close>

definition demo_busy :: sched_sys where
  "demo_busy = (demo Sched_rtds)\<lparr>
     threads := demo_threads(Thr 1 := demo_thread 0 (Some 0) THREAD_STS_RUNNING True 0 False,
                             Idle 0 := demo_thread 0 None THREAD_STS_RUNNABLE False 0 False),
     sched_ctls := (sched_ctls (demo Sched_rtds))(0 := (sched_ctls (demo Sched_rtds) 0)
       \<lparr>curr_obj := Some (Thr 1), quiesce_request_vm_mask := 2\<rparr>),
     rtds_ctl := (\<lambda>p. \<lparr>rtds_ready_queue = [], rtds_depleted_queue = []\<rparr>)\<rparr>"

text \<open>\<open>Thr 2\<close> is behind both gates.\<close>

definition demo_gated :: "sched_id \<Rightarrow> sched_sys" where
  "demo_gated i = upd_slot 0 1 (\<lambda>sl. sl\<lparr>slot_obj := Some (Thr 2), request_generation := 5\<rparr>)
     (upd_thread (Thr 2) (\<lambda>th. th\<lparr>freeze_epoch := 7, deferred_wake := False\<rparr>) (demo i))"

lemma demo_gated_inv: "step_inv i 0 (demo_gated i)"
  by (rule step_inv_quiet [OF demo_inv]) (auto simp: demo_gated_def policy_same_def upd_slot_def curr_def)

text \<open>\<open>Thr 1\<close> runs, is the last thread of the registry and the only one that can run; a reschedule is requested.\<close>

definition demo_last :: sched_sys where
  "demo_last = upd_ctl 0 (\<lambda>c. c\<lparr>flags := bitmap_set NEED_RESCHEDULE 0, quiesce_request_vm_mask := 0\<rparr>) (demo_busy\<lparr>thread_list := [Idle 0, Thr 2, Thr 1]\<rparr>)"

text \<open>A table for the ARINC653 interface and VM configurations for the two admission tests.\<close>

definition demo_config :: sched_arinc653_config where
  "demo_config = \<lparr>cfg_major_frame_us = 100, cfg_entry_count = 2, cfg_reserved = 0,
     cfg_entries = \<lparr>cfg_vm_id = 0, cfg_vcpu_id = 0, cfg_runtime_us = 60\<rparr> # \<lparr>cfg_vm_id = 1, cfg_vcpu_id = 0, cfg_runtime_us = 20\<rparr>
       # replicate 62 \<lparr>cfg_vm_id = 0, cfg_vcpu_id = 0, cfg_runtime_us = 0\<rparr>\<rparr>"

definition demo_vms :: "nat \<Rightarrow> acrn_vm_config" where
  "demo_vms v =
     (if v = 0 then \<lparr>load_order = PRE_LAUNCHED_VM, vm_name = ''a'', cpu_affinity = 0, cpu_affinity_order = [0],
        vm_sched_params = zero_params\<lparr>prio := 2, bfp_period_us := 10000, bfp_budget_us := 3000\<rparr>\<rparr>
      else if v = 1 then \<lparr>load_order = PRE_LAUNCHED_VM, vm_name = ''b'', cpu_affinity = 0, cpu_affinity_order = [0],
        vm_sched_params = zero_params\<lparr>prio := 1, bfp_period_us := 20000, bfp_budget_us := 5000\<rparr>\<rparr>
      else \<lparr>load_order = PRE_LAUNCHED_VM, vm_name = [], cpu_affinity = 0, cpu_affinity_order = [], vm_sched_params = zero_params\<rparr>)"

lemma zero_params_simps [simp]:
  "cbs_period_us zero_params = 0" "cbs_budget_us zero_params = 0" "bfp_period_us zero_params = 0" "bfp_budget_us zero_params = 0"
  by (simp_all add: zero_params_def)

lemma demo_pool_config:
  assumes "platform_config s = platform_config (demo i)"
  shows "sched_get_pcpu_pool_config 0 s = Some (demo_pool SCHED_POLICY_BVT)" and "policy (demo_pool SCHED_POLICY_BVT) = SCHED_POLICY_BVT"
  using assms by (simp_all add: sched_get_pcpu_pool_config_def sched_cpupool_contains_def demo_pool_def demo_def Let_def AFFINITY_CPU_def)

lemma demo_normalize:
  assumes "platform_config s = platform_config (demo i)"
  shows "cbs_period_us ps = 0 \<Longrightarrow> cbs_budget_us ps = 0 \<Longrightarrow> cbs_normalize_us 0 ps s = (4000, 2000, s)"
    and "bfp_period_us ps = 0 \<Longrightarrow> bfp_budget_us ps = 0 \<Longrightarrow> bfp_normalize_us 0 ps s = (4000, 2000, s)"
    and "500 \<le> bfp_budget_us ps \<Longrightarrow> bfp_budget_us ps \<le> bfp_period_us ps \<Longrightarrow> bfp_normalize_us 0 ps s = (bfp_period_us ps, bfp_budget_us ps, s)"
  using demo_pool_config [OF assms]
  by (auto simp: cbs_normalize_us_def bfp_normalize_us_def Let_def CBS_DEFAULT_PERIOD_US_def CBS_DEFAULT_BUDGET_US_def CBS_MIN_PERIOD_US_def
      CBS_MIN_BUDGET_US_def BFP_DEFAULT_PERIOD_US_def BFP_DEFAULT_BUDGET_US_def BFP_MIN_PERIOD_US_def BFP_MIN_BUDGET_US_def)

text \<open>The softirqs of \<open>Softirq\<close> over the example system, with the timer softirq registered.\<close>

definition demo_softirq :: softirq_sys where
  "demo_softirq = \<lparr>sys = demo Sched_bfp, softirq_pending = (\<lambda>_. 0), softirq_servicing = (\<lambda>_. False),
     softirq_handlers = (\<lambda>_. None)(SOFTIRQ_TIMER := Some Timer_softirq)\<rparr>"

lemma demo_prio_runs:
  "curr 0 (schedule_with (sched_ops Sched_prio) (demo Sched_prio)) = Some (Thr 1)"
  "cur_pcpu (schedule_with (sched_ops Sched_prio) (demo Sched_prio)) = 0"
proof -
  have q: "prio_queue (demo Sched_prio) 0 = [Thr 1]" using demo_rq [of Sched_prio] by (simp add: policy_rq_def prio_rq_def)
  have w: "\<not> sched_idle_work_pending_locked 0 (demo Sched_prio)"
    by (simp add: sched_idle_work_pending_locked_def has_system_suspend_request_def has_reset_vm_request_def bitmap_test_def)
  show "curr 0 (schedule_with (sched_ops Sched_prio) (demo Sched_prio)) = Some (Thr 1)"
    "cur_pcpu (schedule_with (sched_ops Sched_prio) (demo Sched_prio)) = 0"
    by (simp_all add: schedule_with_def consume_priority_def choose_next_def w q sched_ops_def sched_prio_def Let_def
        sched_prio_pick_next_def switch_threads_core(3,5) [OF refl])
qed

text \<open>A CBS pool with two VMs that admits proposals, and a proposal of its service VM that passes.\<close>

definition demo_ai :: sched_sys where
  "demo_ai = (demo Sched_cbs)\<lparr>platform_config := \<lparr>plat_configured = True, strict_placement = False,
       exclusive = (demo_pool SCHED_POLICY_CBS)\<lparr>pool_period_us := 10000, pool_budget_us := 3000, ai_assist := True,
         ai_min_budget_us := 1000, ai_max_budget_us := 5000, ai_max_step_us := 500, ai_min_update_ms := 100\<rparr>, shared = zero_pool\<rparr>,
     vm_configs := (\<lambda>v. \<lparr>load_order = (if v = 0 then SERVICE_VM else PRE_LAUNCHED_VM), vm_name = (if v < 2 then ''vm'' else []),
       cpu_affinity = 0, cpu_affinity_order = [0], vm_sched_params = zero_params\<rparr>)\<rparr>"

definition demo_ioc :: acrn_ai_sched_ioc where
  "demo_ioc = \<lparr>op = ACRN_AI_SCHED_OP_PROPOSE, ai_status = 0, abi_version = ACRN_AI_SCHED_ABI_VERSION, ioc_size = sizeof_ai_sched_ioc,
     ai_capability = 7, sequence = 1, ai_pcpu_id = 0, ai_entry_count = 2, reserved0 = 0, sample_ticks = 0, ai_policy = 0,
     ai_period_us = 0, ai_pool_budget_us = 0, min_budget_us = 0, max_budget_us = 0, max_step_us = 0, min_update_ms = 0,
     active_vm_mask = 0, utilization_ppm = 0,
     ai_entries = \<lparr>ai_vmid = 1, ai_reserved = 0, ai_budget_us = 3400\<rparr> # \<lparr>ai_vmid = 0, ai_reserved = 0, ai_budget_us = 2600\<rparr>
       # replicate 14 \<lparr>ai_vmid = 0, ai_reserved = 0, ai_budget_us = 0\<rparr>\<rparr>"

lemma demo_ai_valid:
  "ai_sched_validate_proposal demo_ioc demo_ai = (0, demo_ioc\<lparr>active_vm_mask := 3, utilization_ppm := 600000\<rparr>)"
proof -
  have u: "ai_sched_vm_uses_pcpu (vm_configs demo_ai v) 0 = (v < 2)" for v by (simp add: ai_sched_vm_uses_pcpu_def demo_ai_def)
  have p: "ai_sched_pool demo_ioc demo_ai = Inr (exclusive (platform_config demo_ai))"
    by (simp add: ai_sched_pool_def demo_ioc_def demo_ai_def sched_get_pcpu_pool_config_def sched_cpupool_contains_def
        demo_pool_def AFFINITY_CPU_def zero_pool_def Let_def)
  have m: "ai_active_mask demo_ai 0 [0..<CONFIG_MAX_VM_NUM] 0 = Some 3" by (simp add: CONFIG_MAX_VM_NUM_def upt_rec u)
  have f: "ai_pcpu_id demo_ioc = 0" "sequence demo_ioc = 1" "ai_entry_count demo_ioc = 2"
    "take 2 (ai_entries demo_ioc) = [\<lparr>ai_vmid = 1, ai_reserved = 0, ai_budget_us = 3400\<rparr>, \<lparr>ai_vmid = 0, ai_reserved = 0, ai_budget_us = 2600\<rparr>]"
    by (simp_all add: demo_ioc_def)
  have c: "ai_check_entries (exclusive (platform_config demo_ai)) demo_ai 3 (take 2 (ai_entries demo_ioc)) 0 0 = Inr (3, 600000)"
    by (simp add: f demo_ai_def ai_entry_refused_def CONFIG_MAX_VM_NUM_def ai_current_budget_def zero_params_simps Let_def)
  show ?thesis using p m c by (simp add: ai_sched_validate_proposal_def f ACRN_AI_SCHED_MAX_ENTRIES_def)
qed

text \<open>VMs over the example system: VM 0 runs on \<open>Thr 1\<close>, the vCPU of VM 1 (\<open>Thr 2\<close>) is in the state \<open>st\<close>, the others have none.\<close>

definition demo_host :: "sched_id \<Rightarrow> vcpu_state \<Rightarrow> vm_sys" where
  "demo_host i st = \<lparr>ssys = demo i,
     vm_array = (\<lambda>vm. \<lparr>vm_vm_id = vm,
       hw_vcpu_array = (\<lambda>k. zero_vcpu\<lparr>vc_vcpu_id := k, vc_vm := vm, vc_state := (if vm = 0 then VCPU_RUNNING else st)\<rparr>),
       created_vcpus = (if vm < 2 then 1 else 0)\<rparr>),
     pcpu_vcpu_array = (\<lambda>p vm. if p = 0 \<and> vm < 2 then Some (vm, 0) else None),
     ever_run_vcpu = (\<lambda>p. if p = 0 then Some (0, 0) else None), boot_log_vms = 1\<rparr>"

lemma demo_host_simps [simp]:
  "ssys (demo_host i st) = demo i" "vc_state (vcpu_of (Suc 0, 0) (demo_host i st)) = st" "vc_state (vcpu_of (0, 0) (demo_host i st)) = VCPU_RUNNING"
  "thread_obj (0, 0) = Thr 1" "thread_obj (Suc 0, 0) = Thr 2" "vm_vm_id (vm_array (demo_host i st) vm) = vm"
  by (simp_all add: demo_host_def vcpu_of_def thread_obj_def zero_vcpu_def)

lemma demo_hosts: "hosts i 0 (0, 0) (demo_host i st)" "hosts i 0 (1, 0) (demo_host i st)"
  using demo_inv by (simp_all add: hosts_def)

text \<open>The vCPU of VM 1 has been asked to quiesce and its pCPU has acknowledged it.\<close>

definition demo_quiesced :: sched_sys where
  "demo_quiesced = snd (sched_ack_quiesce_from_idle 0 (snd (request_thread_quiesce (Some (Thr 2)) 5 (demo Sched_rtds))))"

end
