(* ===== verification/Sbuf.thy ===== *)
theory Sbuf
  imports Sched_Types
begin

text \<open>
  The shared ring buffer: the writer \<open>core/sbuf.c\<close> in the hypervisor, \<open>core/vm_event.c\<close> that sends through it,
  and the reader \<open>sdk/ube/core/sbuf.c\<close> in the device model. \<open>raw\<close> has the bytes after the header, by their
  offset. The argument \<open>apart\<close> of a copy is the test of \<open>memcpy_s\<close> that source and destination do not overlap,
  and a source of \<open>n\<close> bytes is a list of length \<open>n\<close>. Buffers are named by their address in the hypervisor.
\<close>

section \<open>Model\<close>

definition SBUF_MAGIC :: u64 where "SBUF_MAGIC = 0x5aa57aa71aa13aa3"
definition SBUF_HEAD_SIZE :: u32 where "SBUF_HEAD_SIZE = 64"
definition OVERRUN_CNT_EN :: u32 where "OVERRUN_CNT_EN = 1"
definition OVERWRITE_EN :: u32 where "OVERWRITE_EN = 2"
definition ACRN_TRACE :: nat where "ACRN_TRACE = 0"
definition ACRN_HVLOG :: nat where "ACRN_HVLOG = 1"
definition ACRN_SEP :: nat where "ACRN_SEP = 2"
definition ACRN_SOCWATCH :: nat where "ACRN_SOCWATCH = 3"
definition ACRN_SBUF_PER_PCPU_ID_MAX :: nat where "ACRN_SBUF_PER_PCPU_ID_MAX = 4"
definition ACRN_ASYNCIO :: nat where "ACRN_ASYNCIO = 64"
definition ACRN_VM_EVENT :: nat where "ACRN_VM_EVENT = 65"
definition UINT32_MAX :: u32 where "UINT32_MAX = - 1"

record shared_buf =
  sb_magic :: u64
  ele_num :: u32
  ele_size :: u32
  sb_head :: u32
  sb_tail :: u32
  sb_flags :: u32
  overrun_cnt :: u32
  sb_size :: u32
  raw :: "nat \<Rightarrow> u8"

definition sbuf_next_ptr :: "u32 \<Rightarrow> u32 \<Rightarrow> u32 \<Rightarrow> u32" where
  "sbuf_next_ptr pos_arg span scope =
     (let pos = pos_arg + span in if pos \<ge> scope then pos - scope else pos)"

definition mem_write :: "nat \<Rightarrow> u8 list \<Rightarrow> (nat \<Rightarrow> u8) \<Rightarrow> nat \<Rightarrow> u8" where
  "mem_write d bs m = (\<lambda>k. if d \<le> k \<and> k < d + length bs then bs ! (k - d) else m k)"

definition memcpy_s :: "bool \<Rightarrow> nat \<Rightarrow> nat \<Rightarrow> u8 list \<Rightarrow> nat \<Rightarrow> (nat \<Rightarrow> u8) \<Rightarrow> int \<times> (nat \<Rightarrow> u8)" where
  "memcpy_s apart d dmax src slen m =
     (if dmax \<ge> slen \<and> apart then (0, mem_write d (take slen src) m)
      else (- 1, mem_write d (replicate dmax 0) m))"

definition sbuf_put :: "bool \<Rightarrow> shared_buf \<Rightarrow> u8 list \<Rightarrow> u32 \<Rightarrow> u32 \<times> shared_buf" where
  "sbuf_put apart sb data max_len =
     (let next_tail = sbuf_next_ptr (sb_tail sb) (ele_size sb) (sb_size sb)
      in if next_tail = sb_head sb \<and> sb_flags sb AND OVERWRITE_EN = 0 then (0, sb)
         else if ele_size sb \<le> max_len then
           let trigger_overwrite = (next_tail = sb_head sb);
               sb = (if trigger_overwrite then sb\<lparr>overrun_cnt := overrun_cnt sb + (sb_flags sb AND OVERRUN_CNT_EN)\<rparr> else sb);
               sb = sb\<lparr>raw := snd (memcpy_s apart (unat (sb_tail sb)) (unat (ele_size sb)) data (unat max_len) (raw sb))\<rparr>;
               sb = (if trigger_overwrite then sb\<lparr>sb_head := sbuf_next_ptr (sb_head sb) (ele_size sb) (sb_size sb)\<rparr> else sb);
               sb = sb\<lparr>sb_tail := next_tail\<rparr>
           in (ele_size sb, sb)
         else (UINT32_MAX, sb))"

fun put_many_loop :: "bool \<Rightarrow> shared_buf \<Rightarrow> u32 \<Rightarrow> u8 list \<Rightarrow> nat \<Rightarrow> u32 \<Rightarrow> u32 \<times> shared_buf" where
  "put_many_loop apart sb elem_size data 0 sent = (sent, sb)"
| "put_many_loop apart sb elem_size data (Suc n) sent =
     (let (ret, sb) = sbuf_put apart sb (take (unat elem_size) data) elem_size
      in if ret = elem_size then put_many_loop apart sb elem_size (drop (unat elem_size) data) n (sent + ret)
         else (if ret = UINT32_MAX then UINT32_MAX else sent, sb))"

text \<open>\<open>data\<close> has \<open>data_size\<close> bytes; \<open>elem_size\<close> is the divisor of the bound and not 0.\<close>

definition sbuf_put_many :: "bool \<Rightarrow> shared_buf \<Rightarrow> u32 \<Rightarrow> u8 list \<Rightarrow> u32 \<Rightarrow> u32 \<times> shared_buf" where
  "sbuf_put_many apart sb elem_size data data_size =
     put_many_loop apart sb elem_size data (unat (data_size div elem_size)) 0"

text \<open>The reader.\<close>

definition sbuf_is_empty :: "shared_buf \<Rightarrow> bool" where
  "sbuf_is_empty sb \<longleftrightarrow> sb_head sb = sb_tail sb"

definition sbuf_get :: "shared_buf \<Rightarrow> u32 \<times> u8 list \<times> shared_buf" where
  "sbuf_get sb =
     (if sbuf_is_empty sb then (0, [], sb)
      else (ele_size sb, map (\<lambda>j. raw sb (unat (sb_head sb) + j)) [0..<unat (ele_size sb)],
            sb\<lparr>sb_head := sbuf_next_ptr (sb_head sb) (ele_size sb) (sb_size sb)\<rparr>))"

definition sbuf_clear_buffered :: "shared_buf \<Rightarrow> int \<times> shared_buf" where
  "sbuf_clear_buffered sb = (0, sb\<lparr>sb_head := sb_tail sb\<rparr>)"

definition sbuf_init :: "shared_buf \<Rightarrow> u32 \<Rightarrow> u32 \<Rightarrow> shared_buf" where
  "sbuf_init sb total_size es =
     (let sb = sb\<lparr>sb_magic := SBUF_MAGIC, ele_size := es, ele_num := (total_size - SBUF_HEAD_SIZE) div es\<rparr>
      in sb\<lparr>sb_size := ele_size sb * ele_num sb, sb_flags := 0, overrun_cnt := 0, sb_head := 0, sb_tail := 0\<rparr>)"

text \<open>The loop of \<open>vm_event_thread\<close> over a buffer, with the records that it hands on.\<close>

partial_function (option) sbuf_drain :: "shared_buf \<Rightarrow> u8 list list \<Rightarrow> (u8 list list \<times> shared_buf) option" where
  "sbuf_drain sb acc =
     (if sbuf_is_empty sb then Some (acc, sb)
      else let (ret, data, sb) = sbuf_get sb in sbuf_drain sb (acc @ [data]))"

section \<open>Binding\<close>

record sbuf_sys =
  sb_sys :: sched_sys
  shm :: "nat \<Rightarrow> shared_buf"
  pcpu_sbuf :: "nat \<Rightarrow> nat \<Rightarrow> nat option"
  vm_event_sbuf :: "nat \<Rightarrow> nat option"
  asyncio_sbuf :: "nat \<Rightarrow> nat option"
  aiodesc_queue :: "nat \<Rightarrow> nat list"

definition sbuf_share_setup :: "nat \<Rightarrow> nat \<Rightarrow> nat option \<Rightarrow> sbuf_sys \<Rightarrow> int \<times> sbuf_sys" where
  "sbuf_share_setup p sbuf_id hva st =
     (if p < pcpu_nums (sb_sys st) \<and> sbuf_id < ACRN_SBUF_PER_PCPU_ID_MAX then
        (0, st\<lparr>pcpu_sbuf := (pcpu_sbuf st)(p := (pcpu_sbuf st p)(sbuf_id := hva))\<rparr>)
      else (- EINVAL, st))"

definition sbuf_reset :: "sbuf_sys \<Rightarrow> sbuf_sys" where
  "sbuf_reset st =
     st\<lparr>pcpu_sbuf := (\<lambda>p k. if p < pcpu_nums (sb_sys st) \<and> k < ACRN_SBUF_PER_PCPU_ID_MAX then None else pcpu_sbuf st p k)\<rparr>"

definition init_vm_event :: "nat \<Rightarrow> nat option \<Rightarrow> sbuf_sys \<Rightarrow> int \<times> sbuf_sys" where
  "init_vm_event vm hva st =
     (case hva of
        None \<Rightarrow> (- 1, st)
      | Some a \<Rightarrow>
          if sb_magic (shm st a) = SBUF_MAGIC then (0, st\<lparr>vm_event_sbuf := (vm_event_sbuf st)(vm := Some a)\<rparr>)
          else (- 1, st))"

text \<open>\<open>has_hsm\<close> is the build option \<open>CONFIG_HAS_HSM\<close>.\<close>

definition init_asyncio :: "bool \<Rightarrow> nat \<Rightarrow> nat option \<Rightarrow> sbuf_sys \<Rightarrow> int \<times> sbuf_sys" where
  "init_asyncio has_hsm vm hva st =
     (if has_hsm then
        case hva of
          None \<Rightarrow> (- 1, st)
        | Some a \<Rightarrow>
            if sb_magic (shm st a) = SBUF_MAGIC then
              (0, st\<lparr>asyncio_sbuf := (asyncio_sbuf st)(vm := Some a), aiodesc_queue := (aiodesc_queue st)(vm := [])\<rparr>)
            else (- 1, st)
      else (- ENODEV, st))"

definition sbuf_setup_common :: "bool \<Rightarrow> nat \<Rightarrow> nat \<Rightarrow> nat \<Rightarrow> nat option \<Rightarrow> sbuf_sys \<Rightarrow> int \<times> sbuf_sys" where
  "sbuf_setup_common has_hsm vm cpu sbuf_id hva st =
     (if sbuf_id \<in> {ACRN_TRACE, ACRN_HVLOG, ACRN_SEP, ACRN_SOCWATCH} then sbuf_share_setup cpu sbuf_id hva st
      else if sbuf_id = ACRN_ASYNCIO then init_asyncio has_hsm vm hva st
      else if sbuf_id = ACRN_VM_EVENT then init_vm_event vm hva st
      else (- 1, st))"

text \<open>An event is its 32 bytes, \<open>type\<close> and \<open>event_data\<close>.\<close>

definition sizeof_vm_event :: u32 where "sizeof_vm_event = 32"

definition send_vm_event :: "bool \<Rightarrow> nat \<Rightarrow> u8 list \<Rightarrow> sbuf_sys \<Rightarrow> int \<times> sbuf_sys" where
  "send_vm_event apart vm event st =
     (case vm_event_sbuf st vm of
        None \<Rightarrow> (- ENODEV, st)
      | Some a \<Rightarrow>
          let (size_sent, sb) = sbuf_put apart (shm st a) event sizeof_vm_event;
              st = st\<lparr>shm := (shm st)(a := sb)\<rparr>
          in if size_sent = sizeof_vm_event then (0, st\<lparr>sb_sys := log_event FireHsmInterrupt (sb_sys st)\<rparr>)
             else (- ENODEV, st))"

section \<open>Rings\<close>

text \<open>The records of a ring of \<open>n\<close> slots between the slots \<open>h\<close> and \<open>t\<close>.\<close>

definition ring_len :: "nat \<Rightarrow> nat \<Rightarrow> nat \<Rightarrow> nat" where
  "ring_len n h t = (t + n - h) mod n"

definition ring_contents :: "nat \<Rightarrow> nat \<Rightarrow> nat \<Rightarrow> (nat \<Rightarrow> 'a) \<Rightarrow> 'a list" where
  "ring_contents n h t r = map (\<lambda>k. r ((h + k) mod n)) [0..<ring_len n h t]"

lemma ring_len_cases:
  assumes "h < n" and "t < n"
  shows "ring_len n h t = (if h \<le> t then t - h else t + n - h)"
  using assms by (auto simp: ring_len_def mod_if)

lemma suc_mod: "t < n \<Longrightarrow> Suc t mod n = (if Suc t = n then 0 else Suc t)"
  by auto

lemma ring_full:
  assumes "h < n" and "t < n"
  shows "Suc t mod n = h \<longleftrightarrow> ring_len n h t = n - 1"
  using assms by (auto simp: ring_len_cases suc_mod)

lemma ring_len_put:
  assumes "h < n" and "t < n" and "Suc t mod n \<noteq> h"
  shows "ring_len n h (Suc t mod n) = Suc (ring_len n h t)"
  using assms by (auto simp: ring_len_cases suc_mod split: if_splits)

lemma ring_len_get:
  assumes "h < n" and "t < n" and "h \<noteq> t"
  shows "ring_len n h t = Suc (ring_len n (Suc h mod n) t)"
  using assms by (auto simp: ring_len_cases suc_mod split: if_splits)

lemma ring_slot:
  assumes "h < n" and "t < n" and "k < ring_len n h t"
  shows "(h + k) mod n \<noteq> t"
proof -
  have "(h + k) mod n = (if h + k < n then h + k else h + k - n)"
    using assms ring_len_cases [OF assms(1,2)] by (auto simp: le_mod_geq split: if_splits)
  then show ?thesis using assms ring_len_cases [OF assms(1,2)] by (auto split: if_splits)
qed

lemma ring_put:
  assumes "h < n" and "t < n" and "Suc t mod n \<noteq> h" and "\<And>k. k < n \<Longrightarrow> k \<noteq> t \<Longrightarrow> r' k = r k" and "r' t = x"
  shows "ring_contents n h (Suc t mod n) r' = ring_contents n h t r @ [x]"
proof -
  have "(h + ring_len n h t) mod n = t" using assms(1,2) by (auto simp: ring_len_cases)
  moreover have "r' ((h + k) mod n) = r ((h + k) mod n)" if "k < ring_len n h t" for k
    using ring_slot [OF assms(1,2) that] assms(1,4) by simp
  ultimately show ?thesis using assms(5) by (simp add: ring_contents_def ring_len_put [OF assms(1-3)])
qed

lemma ring_get:
  assumes "h < n" and "t < n" and "h \<noteq> t"
  shows "ring_contents n h t r = r h # ring_contents n (Suc h mod n) t r"
proof -
  have "(h + Suc k) mod n = (Suc h mod n + k) mod n" for k by (simp add: mod_add_left_eq)
  then show ?thesis using assms(1)
    by (simp add: ring_contents_def ring_len_get [OF assms] map_upt_Suc del: upt_Suc)
qed

section \<open>The buffer as a ring\<close>

definition sbuf_wf :: "shared_buf \<Rightarrow> bool" where
  "sbuf_wf sb \<longleftrightarrow>
     0 < unat (ele_size sb) \<and> 2 \<le> unat (ele_num sb) \<and> unat (sb_size sb) = unat (ele_num sb) * unat (ele_size sb)
     \<and> unat (sb_head sb) < unat (sb_size sb) \<and> unat (ele_size sb) dvd unat (sb_head sb)
     \<and> unat (sb_tail sb) < unat (sb_size sb) \<and> unat (ele_size sb) dvd unat (sb_tail sb)"

definition head_slot :: "shared_buf \<Rightarrow> nat" where
  "head_slot sb = unat (sb_head sb) div unat (ele_size sb)"

definition tail_slot :: "shared_buf \<Rightarrow> nat" where
  "tail_slot sb = unat (sb_tail sb) div unat (ele_size sb)"

definition record_at :: "shared_buf \<Rightarrow> nat \<Rightarrow> u8 list" where
  "record_at sb k = map (\<lambda>j. raw sb (k * unat (ele_size sb) + j)) [0..<unat (ele_size sb)]"

definition sbuf_contents :: "shared_buf \<Rightarrow> u8 list list" where
  "sbuf_contents sb = ring_contents (unat (ele_num sb)) (head_slot sb) (tail_slot sb) (record_at sb)"

definition sbuf_full :: "shared_buf \<Rightarrow> bool" where
  "sbuf_full sb \<longleftrightarrow> length (sbuf_contents sb) = unat (ele_num sb) - 1"

lemma length_contents: "length (sbuf_contents sb) = ring_len (unat (ele_num sb)) (head_slot sb) (tail_slot sb)"
  by (simp add: sbuf_contents_def ring_contents_def)

lemma slots:
  assumes "sbuf_wf sb"
  shows "head_slot sb < unat (ele_num sb)" and "tail_slot sb < unat (ele_num sb)"
    and "unat (sb_head sb) = head_slot sb * unat (ele_size sb)" and "unat (sb_tail sb) = tail_slot sb * unat (ele_size sb)"
  using assms by (simp_all add: sbuf_wf_def head_slot_def tail_slot_def less_mult_imp_div_less)

lemma capacity: "sbuf_wf sb \<Longrightarrow> length (sbuf_contents sb) \<le> unat (ele_num sb) - 1"
  using slots [of sb] by (auto simp: length_contents ring_len_cases)

lemma empty_contents: "sbuf_wf sb \<Longrightarrow> sbuf_is_empty sb \<longleftrightarrow> sbuf_contents sb = []"
proof -
  assume wf: "sbuf_wf sb"
  have "0 < unat (ele_size sb)" using wf by (simp add: sbuf_wf_def)
  then have "sbuf_is_empty sb \<longleftrightarrow> head_slot sb = tail_slot sb"
    using slots(3,4) [OF wf] by (auto simp: sbuf_is_empty_def word_unat_eq_iff)
  then show ?thesis using slots(1,2) [OF wf] length_contents [of sb] by (auto simp: ring_len_cases split: if_splits)
qed

lemma next_slot:
  assumes "0 < unat es" and "unat scope = n * unat es" and "k < n" and "unat pos = k * unat es"
  shows "unat (sbuf_next_ptr pos es scope) = (Suc k mod n) * unat es"
proof -
  have le: "Suc k * unat es \<le> n * unat es" using assms(3) by (intro mult_right_mono) simp_all
  have "n * unat es < 2 ^ 32" using assms(2) unsigned_less [of scope, where 'a = nat] by simp
  then have p: "unat (pos + es) = Suc k * unat es" using le assms(4) by (simp add: unat_plus_if_size word_size)
  have "pos + es \<ge> scope \<longleftrightarrow> n * unat es \<le> Suc k * unat es" by (simp only: word_le_nat_alt p assms(2))
  then have c: "pos + es \<ge> scope \<longleftrightarrow> Suc k = n" using assms(1,3) by (auto simp del: mult_Suc)
  show ?thesis
  proof (cases "Suc k = n")
    case True
    then have "pos + es = scope" using p assms(2) by (simp add: word_unat_eq_iff)
    then show ?thesis using True by (simp add: sbuf_next_ptr_def)
  next
    case False
    then show ?thesis using c p assms(3) by (simp add: sbuf_next_ptr_def)
  qed
qed

lemma next_full:
  assumes "sbuf_wf sb"
  shows "sbuf_next_ptr (sb_tail sb) (ele_size sb) (sb_size sb) = sb_head sb \<longleftrightarrow> sbuf_full sb"
proof -
  have e: "0 < unat (ele_size sb)" "unat (sb_size sb) = unat (ele_num sb) * unat (ele_size sb)" using assms by (simp_all add: sbuf_wf_def)
  show ?thesis
    using next_slot [OF e slots(2,4) [OF assms]] slots(1-3) [OF assms] e(1) ring_full
    by (simp add: word_unat_eq_iff sbuf_full_def length_contents)
qed

lemma mem_write_record:
  assumes "length bs = e" and "j < e"
  shows "mem_write (t * e) bs m (k * e + j) = (if k = t then bs ! j else m (k * e + j))"
proof (cases "k = t")
  case False
  have "\<not> (t * e \<le> k * e + j \<and> k * e + j < t * e + e)"
  proof
    assume a: "t * e \<le> k * e + j \<and> k * e + j < t * e + e"
    have "(k * e + j) div e = k" using assms(2) by simp
    moreover have "(k * e + j) div e = t" using a by (intro div_nat_eqI) (simp_all add: mult.commute)
    ultimately show False using False by simp
  qed
  then show ?thesis using assms(1) False by (auto simp: mem_write_def)
qed (use assms in \<open>simp add: mem_write_def\<close>)

text \<open>A write of one record at the tail, and the reads of the slots after it.\<close>

lemma record_at_write:
  assumes "sbuf_wf sb" and "length bs = unat (ele_size sb)" and "ele_size sb' = ele_size sb"
    and "raw sb' = mem_write (unat (sb_tail sb)) bs (raw sb)"
  shows "record_at sb' k = (if k = tail_slot sb then bs else record_at sb k)"
  using assms(2) slots(4) [OF assms(1)]
  by (auto simp: record_at_def assms(3,4) mem_write_record intro!: nth_equalityI)

section \<open>Writing and reading\<close>

lemma put_appends:
  assumes wf: "sbuf_wf sb" and n: "\<not> sbuf_full sb" and len: "length data = unat (ele_size sb)"
  defines "sb' \<equiv> sb\<lparr>raw := mem_write (unat (sb_tail sb)) data (raw sb),
      sb_tail := sbuf_next_ptr (sb_tail sb) (ele_size sb) (sb_size sb)\<rparr>"
  shows "sbuf_wf sb'" and "sbuf_contents sb' = sbuf_contents sb @ [data]"
proof -
  let ?N = "unat (ele_num sb)" and ?E = "unat (ele_size sb)"
  have e: "0 < ?E" "unat (sb_size sb) = ?N * ?E" using wf by (simp_all add: sbuf_wf_def)
  note nx = next_slot [OF e slots(2,4) [OF wf]]
  have lt: "Suc (tail_slot sb) mod ?N < ?N" using slots(2) [OF wf] by simp
  then show "sbuf_wf sb'" using wf nx e by (simp add: sbuf_wf_def sb'_def)
  have t: "tail_slot sb' = Suc (tail_slot sb) mod ?N" using nx e(1) by (subst tail_slot_def) (simp add: sb'_def)
  have h: "head_slot sb' = head_slot sb" by (simp add: head_slot_def sb'_def)
  have f: "Suc (tail_slot sb) mod ?N \<noteq> head_slot sb"
    using n ring_full [OF slots(1,2) [OF wf]] by (simp add: sbuf_full_def length_contents)
  have r: "record_at sb' k = (if k = tail_slot sb then data else record_at sb k)" for k
    by (rule record_at_write [OF wf len]) (simp_all add: sb'_def)
  show "sbuf_contents sb' = sbuf_contents sb @ [data]"
    unfolding sbuf_contents_def t h using ring_put [OF slots(1,2) [OF wf] f, of "record_at sb'" "record_at sb" data] r
    by (simp add: sb'_def)
qed

lemma drop_first:
  assumes wf: "sbuf_wf sb" and n: "sbuf_contents sb \<noteq> []"
  defines "sb' \<equiv> sb\<lparr>sb_head := sbuf_next_ptr (sb_head sb) (ele_size sb) (sb_size sb)\<rparr>"
  shows "sbuf_wf sb'" and "sbuf_contents sb = record_at sb (head_slot sb) # sbuf_contents sb'"
proof -
  let ?N = "unat (ele_num sb)" and ?E = "unat (ele_size sb)"
  have e: "0 < ?E" "unat (sb_size sb) = ?N * ?E" using wf by (simp_all add: sbuf_wf_def)
  note nx = next_slot [OF e slots(1,3) [OF wf]]
  have "Suc (head_slot sb) mod ?N < ?N" using slots(1) [OF wf] by simp
  then show "sbuf_wf sb'" using wf nx e by (simp add: sbuf_wf_def sb'_def)
  have h: "head_slot sb' = Suc (head_slot sb) mod ?N" using nx e(1) by (subst head_slot_def) (simp add: sb'_def)
  have "head_slot sb \<noteq> tail_slot sb"
    using n slots(1,2) [OF wf] length_contents [of sb] by (auto simp: ring_len_cases)
  note G = ring_get [OF slots(1,2) [OF wf] this, of "record_at sb"]
  have "tail_slot sb' = tail_slot sb" "record_at sb' = record_at sb" "ele_num sb' = ele_num sb"
    by (simp_all add: tail_slot_def record_at_def sb'_def fun_eq_iff)
  then show "sbuf_contents sb = record_at sb (head_slot sb) # sbuf_contents sb'"
    using G by (simp add: sbuf_contents_def h)
qed

text \<open>\<open>sbuf_put\<close> of a whole record that lies apart from its slot.\<close>

lemma sbuf_put_cases:
  assumes wf: "sbuf_wf sb" and len: "length data = unat (ele_size sb)"
  shows "\<not> sbuf_full sb \<Longrightarrow> \<exists>sb'. sbuf_put True sb data (ele_size sb) = (ele_size sb, sb') \<and> sbuf_wf sb'
      \<and> sbuf_contents sb' = sbuf_contents sb @ [data] \<and> ele_size sb' = ele_size sb \<and> ele_num sb' = ele_num sb
      \<and> overrun_cnt sb' = overrun_cnt sb \<and> sb_flags sb' = sb_flags sb"
    and "sbuf_full sb \<Longrightarrow> sb_flags sb AND OVERWRITE_EN = 0 \<Longrightarrow> sbuf_put True sb data (ele_size sb) = (0, sb)"
    and "sbuf_full sb \<Longrightarrow> sb_flags sb AND OVERWRITE_EN \<noteq> 0 \<Longrightarrow> \<exists>sb'. sbuf_put True sb data (ele_size sb) = (ele_size sb, sb')
      \<and> sbuf_wf sb' \<and> sbuf_contents sb' = tl (sbuf_contents sb) @ [data] \<and> ele_size sb' = ele_size sb \<and> ele_num sb' = ele_num sb
      \<and> overrun_cnt sb' = overrun_cnt sb + (sb_flags sb AND OVERRUN_CNT_EN) \<and> sb_flags sb' = sb_flags sb"
proof -
  let ?nx = "sbuf_next_ptr (sb_tail sb) (ele_size sb) (sb_size sb)"
  let ?raw = "mem_write (unat (sb_tail sb)) data (raw sb)"
  note F = next_full [OF wf]
  show "sbuf_put True sb data (ele_size sb) = (0, sb)" if "sbuf_full sb" "sb_flags sb AND OVERWRITE_EN = 0"
    using that F by (simp add: sbuf_put_def)
  show "\<exists>sb'. sbuf_put True sb data (ele_size sb) = (ele_size sb, sb') \<and> sbuf_wf sb'
      \<and> sbuf_contents sb' = sbuf_contents sb @ [data] \<and> ele_size sb' = ele_size sb \<and> ele_num sb' = ele_num sb
      \<and> overrun_cnt sb' = overrun_cnt sb \<and> sb_flags sb' = sb_flags sb" if n: "\<not> sbuf_full sb"
    using F n len put_appends [OF wf n len] by (simp add: sbuf_put_def memcpy_s_def Let_def)
  assume full: "sbuf_full sb" and ov: "sb_flags sb AND OVERWRITE_EN \<noteq> 0"
  define sb1 where "sb1 = sb\<lparr>sb_head := sbuf_next_ptr (sb_head sb) (ele_size sb) (sb_size sb)\<rparr>"
  define cnt where "cnt = overrun_cnt sb + (sb_flags sb AND OVERRUN_CNT_EN)"
  define sb2 where "sb2 = sb1\<lparr>overrun_cnt := cnt\<rparr>"
  have ne: "sbuf_contents sb \<noteq> []" using full wf by (auto simp: sbuf_full_def sbuf_wf_def)
  note D = drop_first [OF wf ne, folded sb1_def]
  have same: "sbuf_contents sb2 = sbuf_contents sb1" "sbuf_wf sb2 = sbuf_wf sb1"
    by (simp_all add: sb2_def sbuf_contents_def head_slot_def tail_slot_def record_at_def fun_eq_iff sbuf_wf_def ring_contents_def)
  have l2: "length data = unat (ele_size sb2)" using len by (simp add: sb2_def sb1_def)
  have n2: "\<not> sbuf_full sb2"
    using D(2) full same by (auto simp: sbuf_full_def sb2_def sb1_def)
  have w2: "sbuf_wf sb2" using D(1) same by simp
  note P = put_appends [OF w2 n2 l2]
  have "sbuf_put True sb data (ele_size sb) = (ele_size sb, sb2\<lparr>raw := ?raw, sb_tail := ?nx\<rparr>)"
    using F full ov len by (simp add: sbuf_put_def memcpy_s_def Let_def sb2_def sb1_def cnt_def)
  then show "\<exists>sb'. sbuf_put True sb data (ele_size sb) = (ele_size sb, sb')
      \<and> sbuf_wf sb' \<and> sbuf_contents sb' = tl (sbuf_contents sb) @ [data] \<and> ele_size sb' = ele_size sb \<and> ele_num sb' = ele_num sb
      \<and> overrun_cnt sb' = overrun_cnt sb + (sb_flags sb AND OVERRUN_CNT_EN) \<and> sb_flags sb' = sb_flags sb"
    using P D(2) same by (simp add: sb2_def sb1_def cnt_def)
qed

lemma sbuf_get_first:
  assumes wf: "sbuf_wf sb" and ne: "sbuf_contents sb \<noteq> []"
  shows "\<exists>sb'. sbuf_get sb = (ele_size sb, hd (sbuf_contents sb), sb') \<and> sbuf_wf sb' \<and> sbuf_contents sb' = tl (sbuf_contents sb)"
proof -
  have "record_at sb (head_slot sb) = map (\<lambda>j. raw sb (unat (sb_head sb) + j)) [0..<unat (ele_size sb)]"
    using slots(3) [OF wf] by (simp add: record_at_def)
  then show ?thesis using drop_first [OF wf ne] empty_contents [OF wf] ne by (simp add: sbuf_get_def)
qed

lemma sbuf_drain_all:
  assumes "sbuf_wf sb"
  shows "\<exists>sb'. sbuf_drain sb acc = Some (acc @ sbuf_contents sb, sb') \<and> sbuf_wf sb' \<and> sbuf_contents sb' = []"
  using assms
proof (induction "sbuf_contents sb" arbitrary: sb acc)
  case Nil
  then show ?case using empty_contents by (subst sbuf_drain.simps) simp
next
  case (Cons x xs)
  then obtain sb1 where 1: "sbuf_get sb = (ele_size sb, x, sb1)" "sbuf_wf sb1" "sbuf_contents sb1 = xs"
    using sbuf_get_first [of sb] by (metis list.sel(1,3) list.discI)
  have "\<not> sbuf_is_empty sb" using Cons.hyps(2) empty_contents [OF Cons.prems] by auto
  then show ?case using Cons.hyps(1) [of sb1 "acc @ [x]"] 1 Cons.hyps(2) [symmetric] by (subst sbuf_drain.simps) auto
qed

text \<open>\<open>sbuf_init\<close> of the device model makes a well-formed buffer where two records fit.\<close>

lemma sbuf_init_wf:
  assumes "0 < unat es" and "2 * unat es \<le> unat (total_size - SBUF_HEAD_SIZE)"
  shows "sbuf_wf (sbuf_init sb total_size es)" and "sbuf_contents (sbuf_init sb total_size es) = []"
proof -
  let ?t = "total_size - SBUF_HEAD_SIZE"
  have "unat ?t < 2 ^ 32" using unsigned_less [of ?t, where 'a = nat] by simp
  with times_div_less_eq_dividend [of "unat es" "unat ?t"] have "unat es * (unat ?t div unat es) < 2 ^ 32"
    by (rule le_less_trans)
  then have m: "unat (es * (?t div es)) = unat es * (unat ?t div unat es)" by (simp add: unat_mult_lem unat_div unat_word_ariths)
  have "2 \<le> unat ?t div unat es" using assms by (simp add: div_greater_zero_iff less_eq_div_iff_mult_less_eq)
  then show wf: "sbuf_wf (sbuf_init sb total_size es)"
    using assms(1) m by (simp add: sbuf_wf_def sbuf_init_def Let_def unat_div mult.commute)
  show "sbuf_contents (sbuf_init sb total_size es) = []"
    using empty_contents [OF wf] by (simp add: sbuf_is_empty_def sbuf_init_def Let_def)
qed

section \<open>Properties\<close>

text \<open>
  Claim C31. A well-formed buffer is a queue of at most \<open>ele_num - 1\<close> records: \<open>sbuf_put\<close> appends a record of
  the buffer's size where there is room; where there is none it refuses and changes nothing, or, with
  \<open>OVERWRITE_EN\<close>, drops the oldest record and counts the overrun if that is asked for.
\<close>

theorem sbuf_put_refines:
  assumes "sbuf_wf sb" and "length data = unat (ele_size sb)"
  defines "q \<equiv> sbuf_contents sb" and "r \<equiv> sbuf_put True sb data (ele_size sb)"
  shows "length q \<le> unat (ele_num sb) - 1 \<and> sbuf_wf (snd r)
    \<and> (if length q < unat (ele_num sb) - 1 then fst r = ele_size sb \<and> sbuf_contents (snd r) = q @ [data]
       else if sb_flags sb AND OVERWRITE_EN = 0 then r = (0, sb)
       else fst r = ele_size sb \<and> sbuf_contents (snd r) = tl q @ [data]
         \<and> overrun_cnt (snd r) = overrun_cnt sb + (sb_flags sb AND OVERRUN_CNT_EN))"
proof -
  have "sbuf_full sb \<longleftrightarrow> \<not> length q < unat (ele_num sb) - 1"
    using capacity [OF assms(1)] by (auto simp: sbuf_full_def q_def)
  then show ?thesis using sbuf_put_cases [OF assms(1,2)] capacity [OF assms(1)] assms(1)
    unfolding q_def r_def by (cases "sbuf_full sb"; cases "sb_flags sb AND OVERWRITE_EN = 0") auto
qed

text \<open>A buffer for three records of two bytes.\<close>

definition demo_sbuf :: shared_buf where
  "demo_sbuf = sbuf_init \<lparr>sb_magic = 0, ele_num = 0, ele_size = 0, sb_head = 0, sb_tail = 0, sb_flags = 0, overrun_cnt = 0,
     sb_size = 0, raw = (\<lambda>_. 0)\<rparr> 72 2"

lemma demo_sbuf_wf: "sbuf_wf demo_sbuf" "sbuf_contents demo_sbuf = []" "ele_size demo_sbuf = 2" "ele_num demo_sbuf = 4"
  unfolding demo_sbuf_def by (intro sbuf_init_wf; simp add: SBUF_HEAD_SIZE_def)+ (simp_all add: sbuf_init_def Let_def SBUF_HEAD_SIZE_def)

theorem sbuf_put_refines_witness: "sbuf_contents (snd (sbuf_put True demo_sbuf [1, 2] 2)) = [[1, 2]]"
  using sbuf_put_refines [OF demo_sbuf_wf(1), of "[1, 2]"] by (simp add: demo_sbuf_wf)

lemma put_many_appends:
  assumes "sbuf_wf sb" and "length data = n * unat (ele_size sb)" and "length (sbuf_contents sb) + n < unat (ele_num sb)"
  shows "\<exists>sb'. put_many_loop True sb (ele_size sb) data n sent = (sent + of_nat n * ele_size sb, sb') \<and> sbuf_wf sb'
    \<and> sbuf_contents sb' = sbuf_contents sb @ map (\<lambda>k. take (unat (ele_size sb)) (drop (k * unat (ele_size sb)) data)) [0..<n]"
  using assms
proof (induction n arbitrary: sb data sent)
  case (Suc n)
  let ?E = "unat (ele_size sb)"
  have "\<not> sbuf_full sb" "length (take ?E data) = ?E" using Suc.prems by (auto simp: sbuf_full_def)
  then obtain sb1 where 1: "sbuf_put True sb (take ?E data) (ele_size sb) = (ele_size sb, sb1)" "sbuf_wf sb1"
    "sbuf_contents sb1 = sbuf_contents sb @ [take ?E data]" "ele_size sb1 = ele_size sb" "ele_num sb1 = ele_num sb"
    using sbuf_put_cases(1) [OF Suc.prems(1), of "take ?E data"] by auto
  have "length (drop ?E data) = n * unat (ele_size sb1)" "length (sbuf_contents sb1) + n < unat (ele_num sb1)"
    using Suc.prems 1 by simp_all
  from Suc.IH [OF 1(2) this, of "sent + ele_size sb"] show ?case
    using 1 by (auto simp: Let_def map_upt_Suc algebra_simps simp del: upt_Suc)
qed simp

text \<open>
  Claim C32. What the hypervisor puts, the device model gets: whole records written by \<open>sbuf_put_many\<close> into
  an empty buffer with room for them are all accepted, and the reader's loop returns and has handed on
  exactly these records, in order, leaving the buffer empty.
\<close>

theorem sbuf_round_trip:
  assumes "sbuf_wf sb" and "sbuf_contents sb = []" and "length data = n * unat (ele_size sb)" and "n < unat (ele_num sb)"
    and "length data = unat data_size"
  shows "\<exists>sb' sb''. sbuf_put_many True sb (ele_size sb) data data_size = (data_size, sb')
    \<and> sbuf_drain sb' [] = Some (map (\<lambda>k. take (unat (ele_size sb)) (drop (k * unat (ele_size sb)) data)) [0..<n], sb'')
    \<and> sbuf_contents sb'' = []"
proof -
  have e: "0 < unat (ele_size sb)" using assms(1) by (simp add: sbuf_wf_def)
  have n: "unat (data_size div ele_size sb) = n" using assms(3,5) e by (simp add: unat_div)
  have "of_nat n * ele_size sb = of_nat (n * unat (ele_size sb))" by simp
  then have d: "of_nat n * ele_size sb = data_size" using assms(3,5) by (metis of_nat_unat ucast_id)
  from put_many_appends [OF assms(1,3), of 0] assms(2,4) obtain sb' where
    1: "put_many_loop True sb (ele_size sb) data n 0 = (data_size, sb')" "sbuf_wf sb'"
    "sbuf_contents sb' = map (\<lambda>k. take (unat (ele_size sb)) (drop (k * unat (ele_size sb)) data)) [0..<n]"
    using d by auto
  from sbuf_drain_all [OF 1(2), of "[]"] 1 n show ?thesis by (auto simp: sbuf_put_many_def)
qed

theorem sbuf_round_trip_witness:
  "\<exists>sb' sb''. sbuf_put_many True demo_sbuf 2 [1, 2, 3, 4] 4 = (4, sb') \<and> sbuf_drain sb' [] = Some ([[1, 2], [3, 4]], sb'')"
  using sbuf_round_trip [OF demo_sbuf_wf(1,2), of "[1, 2, 3, 4]" 2 4] by (auto simp: demo_sbuf_wf upt_rec)

text \<open>
  A record of a buffer whose \<open>ele_size\<close> is less than the size of the caller's data is not copied: \<open>memcpy_s\<close>
  gets the larger size, refuses and clears the slot, and a record of zeros is published as written.
\<close>

theorem sbuf_put_short_zeroes:
  assumes "ele_size sb < max_len" and "sbuf_next_ptr (sb_tail sb) (ele_size sb) (sb_size sb) \<noteq> sb_head sb"
  shows "fst (sbuf_put True sb data max_len) = ele_size sb
    \<and> (\<forall>j < unat (ele_size sb). raw (snd (sbuf_put True sb data max_len)) (unat (sb_tail sb) + j) = 0)
    \<and> sb_tail (snd (sbuf_put True sb data max_len)) = sbuf_next_ptr (sb_tail sb) (ele_size sb) (sb_size sb)"
  using assms by (auto simp: sbuf_put_def memcpy_s_def mem_write_def Let_def word_less_nat_alt word_le_nat_alt)

text \<open>
  The offset that the buffer's owner has written into \<open>tail\<close> is not compared with \<open>size\<close>: a tail outside of
  the ring puts the record outside of it.
\<close>

theorem sbuf_put_tail_unchecked:
  assumes "length data = unat (ele_size sb)" and "unat (sb_size sb) \<le> unat (sb_tail sb)"
    and "sbuf_next_ptr (sb_tail sb) (ele_size sb) (sb_size sb) \<noteq> sb_head sb"
  shows "fst (sbuf_put True sb data (ele_size sb)) = ele_size sb
    \<and> (\<forall>j < length data. unat (sb_size sb) \<le> unat (sb_tail sb) + j
         \<and> raw (snd (sbuf_put True sb data (ele_size sb))) (unat (sb_tail sb) + j) = data ! j)"
  using assms by (auto simp: sbuf_put_def memcpy_s_def mem_write_def Let_def)

end
