(* ===== verification/Notify.thy ===== *)
theory Notify
  imports Sched_Types
begin

text \<open>
  Calls of a function on other pCPUs, \<open>core/notify.c\<close>. Callers and handlers on all pCPUs run at the same
  time: \<open>caller_step\<close> and \<open>handler_step\<close> do the next access of one of them to the shared variables, and a run
  is any list of such actions. The place that a pCPU has reached in the code is a value of \<open>caller_pc\<close> and of
  \<open>handler_pc\<close>, with its local variables. Memory is sequentially consistent. A callback is a name and its
  run an entry of \<open>ran\<close>, with the generation that it ran for; what it does is not modelled. A handler may be entered at any time, as kicks are also sent for softirqs.
\<close>

section \<open>Model\<close>

definition ETIMEDOUT :: int where "ETIMEDOUT = 110"

record smp_call_info_data =
  info_func :: "nat option"
  info_data :: nat
  generation :: u64

record smp_call =
  call_mask :: u64
  call_func :: nat
  call_data :: nat
  deadline :: u64
  try_acquire :: bool

datatype caller_pc =
    C_out
  | C_acquire smp_call
  | C_owner smp_call
  | C_generation smp_call
  | C_active smp_call u64
  | C_mask smp_call u64
  | C_send smp_call u64 u64
  | C_load smp_call u64 u64 nat
  | C_store smp_call u64 u64 nat u64
  | C_func smp_call u64 u64 nat
  | C_data smp_call u64 u64 nat
  | C_publish smp_call u64 u64 nat
  | C_wait smp_call u64
  | C_revoke smp_call u64 bool
  | C_wipe smp_call u64 bool u64
  | C_wipe_func smp_call u64 bool u64 nat
  | C_wipe_data smp_call u64 bool u64 nat
  | C_wiped smp_call u64 bool
  | C_release smp_call u64 bool

datatype handler_pc =
    H_out
  | H_generation
  | H_func u64
  | H_data u64 "nat option"
  | H_check u64 "nat option" nat
  | H_call u64 "nat option" nat
  | H_ack u64
  | H_ack_info u64
  | H_clear u64

record smp_sys =
  smp_call_mask :: u64
  smp_call_owner :: u64
  smp_call_next_generation :: u64
  smp_call_active_generation :: u64
  smp_call_info :: "nat \<Rightarrow> smp_call_info_data"
  pcpu_active :: "nat \<Rightarrow> bool"
  callers :: "nat \<Rightarrow> caller_pc"
  handlers :: "nat \<Rightarrow> handler_pc"
  call_ret :: "nat \<Rightarrow> int"
  kicked :: "nat list"
  ran :: "(nat \<times> u64 \<times> nat \<times> nat) list"
  timed_out :: bool

text \<open>\<open>timed_out\<close> notes that some call gave up waiting for the handlers; the code does not keep it.\<close>

definition set_caller :: "nat \<Rightarrow> caller_pc \<Rightarrow> smp_sys \<Rightarrow> smp_sys" where
  "set_caller p pc s = s\<lparr>callers := (callers s)(p := pc)\<rparr>"

definition set_handler :: "nat \<Rightarrow> handler_pc \<Rightarrow> smp_sys \<Rightarrow> smp_sys" where
  "set_handler q pc s = s\<lparr>handlers := (handlers s)(q := pc)\<rparr>"

definition upd_info :: "nat \<Rightarrow> (smp_call_info_data \<Rightarrow> smp_call_info_data) \<Rightarrow> smp_sys \<Rightarrow> smp_sys" where
  "upd_info q f s = s\<lparr>smp_call_info := (smp_call_info s)(q := f (smp_call_info s q))\<rparr>"

definition smp_return :: "nat \<Rightarrow> int \<Rightarrow> smp_sys \<Rightarrow> smp_sys" where
  "smp_return p ret s = (set_caller p C_out s)\<lparr>call_ret := (call_ret s)(p := ret)\<rparr>"

definition smp_call_deadline_expired :: "u64 \<Rightarrow> u64 \<Rightarrow> bool" where
  "smp_call_deadline_expired now dl \<longleftrightarrow> sint (now - dl) \<ge> 0"

text \<open>The entry of \<open>smp_call_function_common\<close>, up to the first access to a shared variable.\<close>

definition smp_call_begin :: "nat \<Rightarrow> u64 \<Rightarrow> nat option \<Rightarrow> nat \<Rightarrow> u32 \<Rightarrow> bool \<Rightarrow> u32 \<Rightarrow> u64 \<Rightarrow> smp_sys \<Rightarrow> smp_sys" where
  "smp_call_begin p msk fn data timeout_us try rate now s =
     (case fn of
        None \<Rightarrow> smp_return p (- EINVAL) s
      | Some f \<Rightarrow>
          if msk = 0 \<or> timeout_us = 0 then smp_return p (- EINVAL) s
          else set_caller p (C_acquire \<lparr>call_mask = msk, call_func = f, call_data = data,
                 deadline = now + us_to_ticks rate timeout_us, try_acquire = try\<rparr>) s)"

definition SMP_CALL_DEFAULT_TIMEOUT_US :: u32 where "SMP_CALL_DEFAULT_TIMEOUT_US = 100000"

definition smp_call_function :: "nat \<Rightarrow> u64 \<Rightarrow> nat option \<Rightarrow> nat \<Rightarrow> u32 \<Rightarrow> u64 \<Rightarrow> smp_sys \<Rightarrow> smp_sys" where
  "smp_call_function p msk fn data = smp_call_begin p msk fn data SMP_CALL_DEFAULT_TIMEOUT_US False"

definition smp_call_function_timeout :: "nat \<Rightarrow> u64 \<Rightarrow> nat option \<Rightarrow> nat \<Rightarrow> u32 \<Rightarrow> u32 \<Rightarrow> u64 \<Rightarrow> smp_sys \<Rightarrow> smp_sys" where
  "smp_call_function_timeout p msk fn data timeout_us = smp_call_begin p msk fn data timeout_us False"

definition smp_try_call_function_timeout :: "nat \<Rightarrow> u64 \<Rightarrow> nat option \<Rightarrow> nat \<Rightarrow> u32 \<Rightarrow> u32 \<Rightarrow> u64 \<Rightarrow> smp_sys \<Rightarrow> smp_sys" where
  "smp_try_call_function_timeout p msk fn data timeout_us = smp_call_begin p msk fn data timeout_us True"

text \<open>
  \<open>smp_call_acquire\<close>: the compare-and-exchange, and after a failed one the test of the deadline, which
  is no access to a shared variable.
\<close>

definition smp_call_acquire :: "nat \<Rightarrow> u64 \<Rightarrow> smp_call \<Rightarrow> smp_sys \<Rightarrow> smp_sys" where
  "smp_call_acquire p now c s =
     (if smp_call_owner s = 0 then set_caller p (C_owner c) (s\<lparr>smp_call_owner := 1\<rparr>)
      else if try_acquire c then smp_return p (- EBUSY) s
      else if smp_call_deadline_expired now (deadline c) then smp_return p (- ETIMEDOUT) s
      else s)"

text \<open>The next pCPU of the loop: the call on the own pCPU, the mailbox of an active one, or none.\<close>

definition smp_send :: "nat \<Rightarrow> smp_call \<Rightarrow> u64 \<Rightarrow> u64 \<Rightarrow> smp_sys \<Rightarrow> smp_sys" where
  "smp_send p c g todo s =
     (let q = ffs64 todo; rest = bitmap_clear q todo
      in if q < MAX_PCPU_NUM then
           if q = p then set_caller p (C_load c g rest q) (s\<lparr>ran := (q, g, call_func c, call_data c) # ran s\<rparr>)
           else if pcpu_active s q then
             set_caller p (C_func c g rest q) (upd_info q (\<lambda>i. i\<lparr>info_func := Some (call_func c)\<rparr>) s)
           else set_caller p (C_load c g rest q) s
         else set_caller p (C_wait c g) s)"

text \<open>\<open>wait_smp_call_done\<close>\<close>

definition wait_smp_call_done :: "nat \<Rightarrow> u64 \<Rightarrow> smp_call \<Rightarrow> u64 \<Rightarrow> smp_sys \<Rightarrow> smp_sys" where
  "wait_smp_call_done p now c g s =
     (if smp_call_mask s = 0 then set_caller p (C_revoke c g True) s
      else if smp_call_deadline_expired now (deadline c) then set_caller p (C_revoke c g False) (s\<lparr>timed_out := True\<rparr>)
      else s)"

text \<open>The next pCPU of \<open>clear_smp_call_info\<close>.\<close>

definition clear_smp_call_info :: "nat \<Rightarrow> smp_call \<Rightarrow> u64 \<Rightarrow> bool \<Rightarrow> u64 \<Rightarrow> smp_sys \<Rightarrow> smp_sys" where
  "clear_smp_call_info p c g ok todo s =
     (let q = ffs64 todo
      in if q < MAX_PCPU_NUM then
           set_caller p (C_wipe_func c g ok (bitmap_clear q todo) q) (upd_info q (\<lambda>i. i\<lparr>generation := 0\<rparr>) s)
         else set_caller p (C_wiped c g ok) s)"

definition caller_step :: "nat \<Rightarrow> u64 \<Rightarrow> smp_sys \<Rightarrow> smp_sys" where
  "caller_step p now s =
     (case callers s p of
        C_out \<Rightarrow> s
      | C_acquire c \<Rightarrow> smp_call_acquire p now c s
      | C_owner c \<Rightarrow>
          if smp_call_deadline_expired now (deadline c) then smp_return p (- ETIMEDOUT) (s\<lparr>smp_call_owner := 0\<rparr>)
          else set_caller p (C_generation c) s
      | C_generation c \<Rightarrow>
          let g = smp_call_next_generation s + 1; s = s\<lparr>smp_call_next_generation := g\<rparr>
          in if g = 0 then s else set_caller p (C_active c g) s
      | C_active c g \<Rightarrow> set_caller p (C_mask c g) (s\<lparr>smp_call_active_generation := g\<rparr>)
      | C_mask c g \<Rightarrow> set_caller p (C_send c g (call_mask c)) (s\<lparr>smp_call_mask := call_mask c\<rparr>)
      | C_send c g todo \<Rightarrow> smp_send p c g todo s
      | C_load c g todo q \<Rightarrow> set_caller p (C_store c g todo q (smp_call_mask s)) s
      | C_store c g todo q m \<Rightarrow> set_caller p (C_send c g todo) (s\<lparr>smp_call_mask := bitmap_clear q m\<rparr>)
      | C_func c g todo q \<Rightarrow> set_caller p (C_data c g todo q) (upd_info q (\<lambda>i. i\<lparr>info_data := call_data c\<rparr>) s)
      | C_data c g todo q \<Rightarrow> set_caller p (C_publish c g todo q) (upd_info q (\<lambda>i. i\<lparr>generation := g\<rparr>) s)
      | C_publish c g todo q \<Rightarrow> set_caller p (C_send c g todo) (s\<lparr>kicked := q # kicked s\<rparr>)
      | C_wait c g \<Rightarrow> wait_smp_call_done p now c g s
      | C_revoke c g ok \<Rightarrow> set_caller p (C_wipe c g ok (call_mask c)) (s\<lparr>smp_call_active_generation := 0\<rparr>)
      | C_wipe c g ok todo \<Rightarrow> clear_smp_call_info p c g ok todo s
      | C_wipe_func c g ok todo q \<Rightarrow> set_caller p (C_wipe_data c g ok todo q) (upd_info q (\<lambda>i. i\<lparr>info_func := None\<rparr>) s)
      | C_wipe_data c g ok todo q \<Rightarrow> set_caller p (C_wipe c g ok todo) (upd_info q (\<lambda>i. i\<lparr>info_data := 0\<rparr>) s)
      | C_wiped c g ok \<Rightarrow> set_caller p (C_release c g ok) (if ok then s else s\<lparr>smp_call_mask := 0\<rparr>)
      | C_release c g ok \<Rightarrow> smp_return p (if ok then 0 else - ETIMEDOUT) (s\<lparr>smp_call_owner := 0\<rparr>))"

text \<open>\<open>kick_notification\<close> on pCPU \<open>q\<close>.\<close>

definition handler_step :: "nat \<Rightarrow> smp_sys \<Rightarrow> smp_sys" where
  "handler_step q s =
     (case handlers s q of
        H_out \<Rightarrow> if bitmap_test q (smp_call_mask s) then set_handler q H_generation s else s
      | H_generation \<Rightarrow> set_handler q (H_func (generation (smp_call_info s q))) s
      | H_func g \<Rightarrow> set_handler q (H_data g (info_func (smp_call_info s q))) s
      | H_data g f \<Rightarrow> set_handler q (H_check g f (info_data (smp_call_info s q))) s
      | H_check g f d \<Rightarrow>
          set_handler q (if g \<noteq> 0 \<and> g = smp_call_active_generation s \<and> f \<noteq> None then H_call g f d else H_ack g) s
      | H_call g f d \<Rightarrow> set_handler q (H_ack g) (s\<lparr>ran := (q, g, the f, d) # ran s\<rparr>)
      | H_ack g \<Rightarrow> set_handler q (if g \<noteq> 0 \<and> g = smp_call_active_generation s then H_ack_info g else H_out) s
      | H_ack_info g \<Rightarrow> set_handler q (if g = generation (smp_call_info s q) then H_clear g else H_out) s
      | H_clear g \<Rightarrow> set_handler q H_out (s\<lparr>smp_call_mask := bitmap_clear q (smp_call_mask s)\<rparr>))"

datatype smp_action =
    Begin nat u64 "nat option" nat u32 bool u32 u64
  | Caller nat u64
  | Handler nat

text \<open>A pCPU that is in a call does not begin another one.\<close>

fun smp_act :: "smp_action \<Rightarrow> smp_sys \<Rightarrow> smp_sys" where
  "smp_act (Begin p msk fn data timeout_us try rate now) s =
     (if callers s p = C_out then smp_call_begin p msk fn data timeout_us try rate now s else s)"
| "smp_act (Caller p now) s = caller_step p now s"
| "smp_act (Handler q) s = handler_step q s"

fun smp_run :: "smp_action list \<Rightarrow> smp_sys \<Rightarrow> smp_sys" where
  "smp_run [] s = s"
| "smp_run (a # acts) s = smp_run acts (smp_act a s)"

definition smp_start :: "(nat \<Rightarrow> bool) \<Rightarrow> smp_sys" where
  "smp_start act = \<lparr>smp_call_mask = 0, smp_call_owner = 0, smp_call_next_generation = 0, smp_call_active_generation = 0,
     smp_call_info = (\<lambda>_. \<lparr>info_func = None, info_data = 0, generation = 0\<rparr>), pcpu_active = act, callers = (\<lambda>_. C_out),
     handlers = (\<lambda>_. H_out), call_ret = (\<lambda>_. 0), kicked = [], ran = [], timed_out = False\<rparr>"

section \<open>Authorization\<close>

lemma set_simps [simp]:
  "callers (set_caller p pc s) = (callers s)(p := pc)" "handlers (set_caller p pc s) = handlers s"
  "smp_call_mask (set_caller p pc s) = smp_call_mask s" "smp_call_owner (set_caller p pc s) = smp_call_owner s"
  "smp_call_next_generation (set_caller p pc s) = smp_call_next_generation s"
  "smp_call_active_generation (set_caller p pc s) = smp_call_active_generation s"
  "smp_call_info (set_caller p pc s) = smp_call_info s" "ran (set_caller p pc s) = ran s"
  "timed_out (set_caller p pc s) = timed_out s" "pcpu_active (set_caller p pc s) = pcpu_active s"
  "callers (set_handler p h s) = callers s" "handlers (set_handler p h s) = (handlers s)(p := h)"
  "smp_call_mask (set_handler p h s) = smp_call_mask s" "smp_call_owner (set_handler p h s) = smp_call_owner s"
  "smp_call_next_generation (set_handler p h s) = smp_call_next_generation s"
  "smp_call_active_generation (set_handler p h s) = smp_call_active_generation s"
  "smp_call_info (set_handler p h s) = smp_call_info s" "ran (set_handler p h s) = ran s"
  "timed_out (set_handler p h s) = timed_out s" "pcpu_active (set_handler p h s) = pcpu_active s"
  "callers (upd_info q f s) = callers s" "handlers (upd_info q f s) = handlers s"
  "smp_call_mask (upd_info q f s) = smp_call_mask s" "smp_call_owner (upd_info q f s) = smp_call_owner s"
  "smp_call_next_generation (upd_info q f s) = smp_call_next_generation s"
  "smp_call_active_generation (upd_info q f s) = smp_call_active_generation s"
  "smp_call_info (upd_info q f s) = (smp_call_info s)(q := f (smp_call_info s q))" "ran (upd_info q f s) = ran s"
  "timed_out (upd_info q f s) = timed_out s" "pcpu_active (upd_info q f s) = pcpu_active s"
  "callers (smp_return p r s) = (callers s)(p := C_out)" "handlers (smp_return p r s) = handlers s"
  "smp_call_mask (smp_return p r s) = smp_call_mask s" "smp_call_owner (smp_return p r s) = smp_call_owner s"
  "smp_call_next_generation (smp_return p r s) = smp_call_next_generation s"
  "smp_call_active_generation (smp_return p r s) = smp_call_active_generation s"
  "smp_call_info (smp_return p r s) = smp_call_info s" "ran (smp_return p r s) = ran s"
  "timed_out (smp_return p r s) = timed_out s" "pcpu_active (smp_return p r s) = pcpu_active s"
  by (simp_all add: set_caller_def set_handler_def upd_info_def smp_return_def)

text \<open>A caller that owns the mailbox, and the call and generation that it has made active.\<close>

fun owns :: "caller_pc \<Rightarrow> bool" where
  "owns C_out = False"
| "owns (C_acquire c) = False"
| "owns pc = True"

fun live :: "caller_pc \<Rightarrow> (smp_call \<times> u64) option" where
  "live (C_mask c g) = Some (c, g)"
| "live (C_send c g todo) = Some (c, g)"
| "live (C_load c g todo q) = Some (c, g)"
| "live (C_store c g todo q m) = Some (c, g)"
| "live (C_func c g todo q) = Some (c, g)"
| "live (C_data c g todo q) = Some (c, g)"
| "live (C_publish c g todo q) = Some (c, g)"
| "live (C_wait c g) = Some (c, g)"
| "live (C_revoke c g ok) = Some (c, g)"
| "live pc = None"

text \<open>The pCPUs that the loop has yet to reach, and the mailbox that is being filled.\<close>

fun todo_of :: "caller_pc \<Rightarrow> u64" where
  "todo_of (C_mask c g) = call_mask c"
| "todo_of (C_send c g todo) = todo"
| "todo_of (C_load c g todo q) = todo"
| "todo_of (C_store c g todo q m) = todo"
| "todo_of (C_func c g todo q) = todo"
| "todo_of (C_data c g todo q) = todo"
| "todo_of (C_publish c g todo q) = todo"
| "todo_of pc = 0"

fun filling :: "caller_pc \<Rightarrow> nat option" where
  "filling (C_func c g todo q) = Some q"
| "filling (C_data c g todo q) = Some q"
| "filling pc = None"

fun held :: "handler_pc \<Rightarrow> u64 option" where
  "held H_out = None"
| "held H_generation = None"
| "held (H_func g) = Some g"
| "held (H_data g f) = Some g"
| "held (H_check g f d) = Some g"
| "held (H_call g f d) = Some g"
| "held (H_ack g) = Some g"
| "held (H_ack_info g) = Some g"
| "held (H_clear g) = Some g"

fun loaded_ok :: "smp_call \<Rightarrow> handler_pc \<Rightarrow> bool" where
  "loaded_ok c (H_data g f) \<longleftrightarrow> f = Some (call_func c)"
| "loaded_ok c (H_check g f d) \<longleftrightarrow> f = Some (call_func c) \<and> d = call_data c"
| "loaded_ok c (H_call g f d) \<longleftrightarrow> f = Some (call_func c) \<and> d = call_data c"
| "loaded_ok c h \<longleftrightarrow> True"

definition live_gen :: "caller_pc \<Rightarrow> u64" where
  "live_gen pc = (case live pc of None \<Rightarrow> 0 | Some (c, g) \<Rightarrow> g)"

text \<open>Generations are at most the last one given out, and a new one is in no mailbox and no handler.\<close>

definition gen_inv :: "nat \<Rightarrow> caller_pc \<Rightarrow> smp_sys \<Rightarrow> bool" where
  "gen_inv n pc s \<longleftrightarrow>
     smp_call_active_generation s = live_gen pc \<and> unat (smp_call_next_generation s) \<le> n
     \<and> (\<forall>q. generation (smp_call_info s q) \<le> smp_call_next_generation s)
     \<and> (\<forall>q g. held (handlers s q) = Some g \<longrightarrow> g \<le> smp_call_next_generation s)
     \<and> (\<forall>c g. pc = C_active c g \<longrightarrow> g \<noteq> 0 \<and> g \<le> smp_call_next_generation s
          \<and> (\<forall>q. generation (smp_call_info s q) \<noteq> g \<and> held (handlers s q) \<noteq> Some g))
     \<and> (\<forall>c g. live pc = Some (c, g) \<longrightarrow> g \<noteq> 0 \<and> g \<le> smp_call_next_generation s)"

text \<open>A mailbox or a handler with the generation of the live call has the callback of that call.\<close>

definition box_at :: "smp_call \<Rightarrow> u64 \<Rightarrow> smp_sys \<Rightarrow> nat \<Rightarrow> bool" where
  "box_at c g s q \<longleftrightarrow>
     (generation (smp_call_info s q) = g \<longrightarrow> bit (call_mask c) q
        \<and> info_func (smp_call_info s q) = Some (call_func c) \<and> info_data (smp_call_info s q) = call_data c)
     \<and> (held (handlers s q) = Some g \<longrightarrow> generation (smp_call_info s q) = g \<and> loaded_ok c (handlers s q))"

definition box_inv :: "caller_pc \<Rightarrow> smp_sys \<Rightarrow> bool" where
  "box_inv pc s \<longleftrightarrow>
     (\<forall>c g. live pc = Some (c, g) \<longrightarrow> (\<forall>k. bit (todo_of pc) k \<longrightarrow> bit (call_mask c) k)
        \<and> (\<forall>q. filling pc = Some q \<longrightarrow> bit (call_mask c) q \<and> info_func (smp_call_info s q) = Some (call_func c))
        \<and> (\<forall>q. box_at c g s q))
     \<and> (\<forall>c g todo q. pc = C_data c g todo q \<longrightarrow> info_data (smp_call_info s q) = call_data c)"

fun pc_of :: "smp_sys \<Rightarrow> nat option \<Rightarrow> caller_pc" where
  "pc_of s None = C_out"
| "pc_of s (Some p) = callers s p"

definition owner_is :: "smp_sys \<Rightarrow> nat option \<Rightarrow> bool" where
  "owner_is s own \<longleftrightarrow> (smp_call_owner s = 0 \<longleftrightarrow> own = None) \<and> (\<forall>p. owns (callers s p) \<longleftrightarrow> own = Some p)"

lemma handler_same [simp]:
  "smp_call_info (handler_step q s) = smp_call_info s" "callers (handler_step q s) = callers s"
  "smp_call_owner (handler_step q s) = smp_call_owner s"
  "smp_call_next_generation (handler_step q s) = smp_call_next_generation s"
  "smp_call_active_generation (handler_step q s) = smp_call_active_generation s"
  "timed_out (handler_step q s) = timed_out s" "pcpu_active (handler_step q s) = pcpu_active s"
  by (simp_all add: handler_step_def split: handler_pc.split)

text \<open>A handler gets its generation from its mailbox.\<close>

lemma held_handler:
  assumes "held (handlers (handler_step q s) k) = Some g"
  shows "held (handlers s k) = Some g \<or> generation (smp_call_info s k) = g"
  using assms by (cases "handlers s q") (auto simp: handler_step_def split: if_splits)

lemma gen_inv_handler:
  assumes "gen_inv n pc s"
  shows "gen_inv n pc (handler_step q s)"
  using assms held_handler [of q s] unfolding gen_inv_def handler_same by blast

lemma box_at_handler:
  assumes "box_at c g s q'"
  shows "box_at c g (handler_step q s) q'"
proof (cases "q' = q")
  case True
  then show ?thesis using assms by (cases "handlers s q") (auto simp: box_at_def handler_step_def)
next
  case False
  then have "handlers (handler_step q s) q' = handlers s q'" by (simp add: handler_step_def split: handler_pc.split)
  then show ?thesis using assms by (simp add: box_at_def)
qed

lemma box_inv_handler: "box_inv pc s \<Longrightarrow> box_inv pc (handler_step q s)"
  by (simp add: box_inv_def box_at_handler)

lemma gen_inv_caller:
  assumes G: "gen_inv n pc s" and p: "callers s p = pc" and o: "owns pc" and n: "Suc n < 2 ^ 64"
  shows "gen_inv (Suc n) (callers (caller_step p now s) p) (caller_step p now s)"
proof (cases pc)
  case (C_generation c)
  let ?g = "smp_call_next_generation s"
  have "unat ?g < 2 ^ 64 - 1" using G n by (simp add: gen_inv_def)
  then have u: "unat (?g + 1) = Suc (unat ?g)" by (simp add: unat_plus_if_size word_size)
  then have lt: "?g < ?g + 1" "?g + 1 \<noteq> 0" by (auto simp: word_less_nat_alt)
  then have "w \<noteq> ?g + 1" if "w \<le> ?g" for w using that by auto
  then show ?thesis using C_generation G p u lt
    by (auto simp: gen_inv_def caller_step_def Let_def live_gen_def intro: order_trans [OF _ less_imp_le [OF lt(1)]])
qed (use G p o in \<open>auto simp: gen_inv_def caller_step_def smp_call_acquire_def smp_send_def wait_smp_call_done_def
      clear_smp_call_info_def Let_def live_gen_def split: if_splits\<close>)

lemma ffs64_bit: "ffs64 w < MAX_PCPU_NUM \<Longrightarrow> bit w (ffs64 w)"
  using ffs64_least(1) [of w] ffs64_none [of w] by (auto simp: MAX_PCPU_NUM_def)

lemma box_inv_caller:
  assumes B: "box_inv pc s" and G: "gen_inv n pc s" and p: "callers s p = pc" and o: "owns pc"
  shows "box_inv (callers (caller_step p now s) p) (caller_step p now s)"
proof (cases pc)
  case (C_active c g)
  have "box_at c g s q" for q using G C_active by (simp add: gen_inv_def box_at_def)
  then show ?thesis using C_active p by (simp add: box_inv_def caller_step_def box_at_def)
next
  case (C_send c g todo)
  let ?q = "ffs64 todo"
  have t: "bit todo k \<Longrightarrow> bit (call_mask c) k" and b: "box_at c g s k" for k using B C_send by (simp_all add: box_inv_def)
  have sub: "bit (bitmap_clear ?q todo) k \<Longrightarrow> bit (call_mask c) k" for k using t by (simp add: bit_bitmap_clear)
  have q: "bit (call_mask c) ?q" if "?q < MAX_PCPU_NUM" using ffs64_bit [OF that] t by blast
  have "box_at c g (upd_info ?q (\<lambda>i. i\<lparr>info_func := Some (call_func c)\<rparr>) s) k" if "?q < MAX_PCPU_NUM" for k
    using q [OF that] b [of k] by (auto simp: box_at_def)
  then show ?thesis using C_send p b sub q
    by (auto simp: box_inv_def caller_step_def smp_send_def Let_def box_at_def)
next
  case (C_func c g todo q)
  then show ?thesis using B p by (auto simp: box_inv_def caller_step_def box_at_def)
next
  case (C_data c g todo q)
  then show ?thesis using B p by (auto simp: box_inv_def caller_step_def box_at_def)
qed (use B p o in \<open>auto simp: box_inv_def caller_step_def wait_smp_call_done_def clear_smp_call_info_def Let_def box_at_def
      split: if_splits\<close>)

section \<open>Runs\<close>

lemma caller_other: "k \<noteq> p \<Longrightarrow> callers (caller_step p now s) k = callers s k"
  by (cases "callers s p")
    (auto simp: caller_step_def smp_call_acquire_def smp_send_def wait_smp_call_done_def clear_smp_call_info_def Let_def)

lemma caller_owner:
  assumes "owns (callers s p)" and "smp_call_owner s \<noteq> 0"
  shows "smp_call_owner (caller_step p now s) = 0 \<longleftrightarrow> \<not> owns (callers (caller_step p now s) p)"
  using assms by (cases "callers s p")
    (auto simp: caller_step_def smp_send_def wait_smp_call_done_def clear_smp_call_info_def Let_def)

lemma caller_leaves:
  assumes "owns (callers s p)"
  shows "owns (callers (caller_step p now s) p) \<or> callers (caller_step p now s) p = C_out"
  using assms by (cases "callers s p")
    (auto simp: caller_step_def smp_send_def wait_smp_call_done_def clear_smp_call_info_def Let_def)

text \<open>The steps of a pCPU that does not own the mailbox.\<close>

lemma caller_idle:
  assumes "\<not> owns (callers s p)"
  shows "caller_step p now s = s \<or> (\<exists>r. caller_step p now s = smp_return p r s)
    \<or> (\<exists>c. smp_call_owner s = 0 \<and> caller_step p now s = set_caller p (C_owner c) (s\<lparr>smp_call_owner := 1\<rparr>))"
  using assms by (cases "callers s p") (auto simp: caller_step_def smp_call_acquire_def)

lemma begin_idle:
  "(\<exists>r. smp_call_begin p m f d t try rate now s = smp_return p r s)
   \<or> (\<exists>c. smp_call_begin p m f d t try rate now s = set_caller p (C_acquire c) s)"
  by (cases f) (auto simp: smp_call_begin_def)

text \<open>An invariant of the owner's place in the code and the shared state.\<close>

definition owner_inv :: "(caller_pc \<Rightarrow> smp_sys \<Rightarrow> bool) \<Rightarrow> smp_sys \<Rightarrow> bool" where
  "owner_inv P s \<longleftrightarrow> (\<exists>own. owner_is s own \<and> P (pc_of s own) s)"

text \<open>
  What has to be shown of it: that it does not depend on the other callers, and that it holds again
  after each step of the owner and of the handlers, and when the mailbox is acquired.
\<close>

lemma owner_inv_act:
  assumes I: "owner_inv P s"
    and idle: "\<And>pc p pc' r. P pc s \<Longrightarrow> P' pc s \<and> P' pc (set_caller p pc' s) \<and> P' pc (smp_return p r s)"
    and acquire: "\<And>p c. P C_out s \<Longrightarrow> P' (C_owner c) (set_caller p (C_owner c) (s\<lparr>smp_call_owner := 1\<rparr>))"
    and handler: "\<And>pc q. a = Handler q \<Longrightarrow> P pc s \<Longrightarrow> P' pc (handler_step q s)"
    and step: "\<And>p now. P (callers s p) s \<Longrightarrow> owns (callers s p) \<Longrightarrow> P' (callers (caller_step p now s) p) (caller_step p now s)"
  shows "owner_inv P' (smp_act a s)"
proof -
  obtain own where own: "owner_is s own" and P: "P (pc_of s own) s" using I by (auto simp: owner_inv_def)
  have keep: "owner_inv P' s'" if "callers s' = (callers s)(p := pc)" "\<not> owns (callers s p)" "\<not> owns pc"
      "smp_call_owner s' = smp_call_owner s" "P' (pc_of s own) s'" for s' p pc
  proof -
    have "own \<noteq> Some p" using own that(2) by (auto simp: owner_is_def)
    then have "owner_is s' own \<and> pc_of s' own = pc_of s own" using own that by (cases own) (auto simp: owner_is_def)
    then show ?thesis using that(5) by (auto simp: owner_inv_def)
  qed
  show ?thesis
  proof (cases a)
    case (Begin p m f d t tr rate now)
    have "owner_inv P' s" using own idle P by (auto simp: owner_inv_def)
    moreover have "owner_inv P' (smp_return p r s)" "owner_inv P' (set_caller p (C_acquire c) s)" if "callers s p = C_out" for r c
      using keep [of "smp_return p r s" p C_out] keep [of "set_caller p (C_acquire c) s" p "C_acquire c"] idle [OF P] that by simp_all
    ultimately show ?thesis using Begin begin_idle [of p m f d t tr rate now s] by auto
  next
    case (Caller p now)
    show ?thesis
    proof (cases "own = Some p")
      case True
      define s' where "s' = caller_step p now s"
      have o: "owns (callers s p)" "smp_call_owner s \<noteq> 0" using own True by (auto simp: owner_is_def)
      have st: "P' (callers s' p) s'" using step P True o by (simp add: s'_def)
      have ow: "smp_call_owner s' = 0 \<longleftrightarrow> \<not> owns (callers s' p)" unfolding s'_def by (rule caller_owner [OF o])
      have ot: "\<not> owns (callers s' k)" if "k \<noteq> p" for k
        using own True caller_other [OF that, of now s] that by (simp add: owner_is_def s'_def)
      show ?thesis
      proof (cases "owns (callers s' p)")
        case True
        have "owner_is s' (Some p)" unfolding owner_is_def using True ow ot by (metis option.inject option.distinct(1))
        then show ?thesis using st Caller by (auto simp: owner_inv_def s'_def)
      next
        case False
        have "owner_is s' None" unfolding owner_is_def using False ow ot by (metis option.distinct(1))
        moreover have "callers s' p = C_out"
          using False o(1) caller_leaves [OF o(1), of now] by (simp add: s'_def)
        ultimately show ?thesis using st Caller by (auto simp: owner_inv_def s'_def intro!: exI [of _ None])
      qed
    next
      case False
      then have no: "\<not> owns (callers s p)" using own by (auto simp: owner_is_def)
      consider "caller_step p now s = s" | r where "caller_step p now s = smp_return p r s"
        | c where "smp_call_owner s = 0" "caller_step p now s = set_caller p (C_owner c) (s\<lparr>smp_call_owner := 1\<rparr>)"
        using caller_idle [OF no, of now] by blast
      then show ?thesis
      proof cases
        case 1
        then show ?thesis using Caller own idle [OF P] by (auto simp: owner_inv_def)
      next
        case (2 r)
        then show ?thesis using Caller keep [of "smp_return p r s" p C_out] no idle [OF P] by simp
      next
        case (3 c)
        then have n: "own = None" using own by (auto simp: owner_is_def)
        then have "owner_is (caller_step p now s) (Some p)" using own 3 by (auto simp: owner_is_def)
        then show ?thesis using Caller acquire [of c p] P n 3 by (auto simp: owner_inv_def)
      qed
    qed
  next
    case (Handler q)
    have "owner_is (handler_step q s) own" "pc_of (handler_step q s) own = pc_of s own"
      using own by (cases own; simp add: owner_is_def)+
    then show ?thesis using Handler handler [OF Handler P] by (auto simp: owner_inv_def)
  qed
qed

definition auth_inv :: "nat \<Rightarrow> caller_pc \<Rightarrow> smp_sys \<Rightarrow> bool" where
  "auth_inv n pc s \<longleftrightarrow> gen_inv n pc s \<and> box_inv pc s"




section \<open>Completion\<close>

text \<open>The pCPU whose bit the caller clears itself, and the calls that have left the wait.\<close>

fun clearing :: "caller_pc \<Rightarrow> nat option" where
  "clearing (C_load c g todo q) = Some q"
| "clearing (C_store c g todo q m) = Some q"
| "clearing pc = None"

fun finished :: "caller_pc \<Rightarrow> (smp_call \<times> u64 \<times> bool) option" where
  "finished (C_revoke c g ok) = Some (c, g, ok)"
| "finished (C_wipe c g ok todo) = Some (c, g, ok)"
| "finished (C_wipe_func c g ok todo q) = Some (c, g, ok)"
| "finished (C_wipe_data c g ok todo q) = Some (c, g, ok)"
| "finished (C_wiped c g ok) = Some (c, g, ok)"
| "finished (C_release c g ok) = Some (c, g, ok)"
| "finished pc = None"

definition has_run :: "smp_call \<Rightarrow> u64 \<Rightarrow> smp_sys \<Rightarrow> nat \<Rightarrow> bool" where
  "has_run c g s q \<longleftrightarrow> (q, g, call_func c, call_data c) \<in> set (ran s)"

definition unsent :: "caller_pc \<Rightarrow> nat \<Rightarrow> bool" where
  "unsent pc q \<longleftrightarrow> bit (todo_of pc) q \<or> filling pc = Some q"

text \<open>
  One pCPU in a live call: its bit of the mask stands until its callback has run, and a handler that is
  going to clear it has run the callback.
\<close>

definition done_at :: "caller_pc \<Rightarrow> smp_call \<Rightarrow> u64 \<Rightarrow> smp_sys \<Rightarrow> nat \<Rightarrow> bool" where
  "done_at pc c g s q \<longleftrightarrow>
     (unsent pc q \<longrightarrow> generation (smp_call_info s q) \<noteq> g \<and> (pc = C_mask c g \<or> bit (smp_call_mask s) q))
     \<and> (generation (smp_call_info s q) = g \<longrightarrow> bit (smp_call_mask s) q \<or> has_run c g s q)
     \<and> (held (handlers s q) = Some g \<longrightarrow> bit (smp_call_mask s) q)
     \<and> (handlers s q = H_generation \<and> generation (smp_call_info s q) = g \<longrightarrow> bit (smp_call_mask s) q)
     \<and> (handlers s q \<in> {H_ack g, H_ack_info g, H_clear g} \<longrightarrow> has_run c g s q)
     \<and> (bit (call_mask c) q \<and> \<not> unsent pc q \<and> pcpu_active s q \<longrightarrow> has_run c g s q \<or> generation (smp_call_info s q) = g)
     \<and> (clearing pc = Some q \<longrightarrow> \<not> unsent pc q \<and> generation (smp_call_info s q) \<noteq> g \<and> (pcpu_active s q \<longrightarrow> has_run c g s q))"

definition done_inv :: "caller_pc \<Rightarrow> smp_sys \<Rightarrow> bool" where
  "done_inv pc s \<longleftrightarrow>
     (\<forall>c g q. live pc = Some (c, g) \<and> q < MAX_PCPU_NUM \<longrightarrow> done_at pc c g s q)
     \<and> (\<forall>c g todo q m. pc = C_store c g todo q m \<longrightarrow> (\<forall>k. bit (smp_call_mask s) k \<longrightarrow> bit m k))
     \<and> (\<forall>c g ok. pc = C_revoke c g ok \<longrightarrow> ok \<and> smp_call_mask s = 0)
     \<and> (\<forall>q. clearing pc = Some q \<longrightarrow> q < MAX_PCPU_NUM)
     \<and> (\<forall>q. filling pc = Some q \<longrightarrow> \<not> bit (todo_of pc) q)
     \<and> (\<forall>q g. q < MAX_PCPU_NUM \<and> handlers s q \<in> {H_ack_info g, H_clear g} \<longrightarrow> g \<noteq> 0 \<and> live_gen pc = g)
     \<and> (\<forall>c g q. finished pc = Some (c, g, True) \<and> q < MAX_PCPU_NUM \<and> bit (call_mask c) q \<and> pcpu_active s q \<longrightarrow> has_run c g s q)"

lemma bit_clear_pcpu: "q < MAX_PCPU_NUM \<Longrightarrow> bit (bitmap_clear q w) k \<longleftrightarrow> bit (w :: u64) k \<and> k \<noteq> q"
  by (simp add: bit_bitmap_clear MAX_PCPU_NUM_def)

lemma has_run_mono: "has_run c g s q \<Longrightarrow> set (ran s) \<subseteq> set (ran s') \<Longrightarrow> has_run c g s' q"
  by (auto simp: has_run_def)

lemma done_at_handler_other:
  assumes D: "done_at pc c g s k" and "k \<noteq> q" and "q < MAX_PCPU_NUM"
  shows "done_at pc c g (handler_step q s) k"
proof -
  have h: "handlers (handler_step q s) k = handlers s k"
    using assms(2) by (cases "handlers s q") (simp_all add: handler_step_def)
  have m: "bit (smp_call_mask (handler_step q s)) k = bit (smp_call_mask s) k"
    using assms(2,3) by (cases "handlers s q") (simp_all add: handler_step_def bit_clear_pcpu)
  have r: "has_run c g (handler_step q s) k = has_run c g s k"
    using assms(2) by (cases "handlers s q") (auto simp: handler_step_def has_run_def)
  show ?thesis using D unfolding done_at_def handler_same h m r .
qed

text \<open>The handler of the pCPU itself: its next place \<open>h\<close>, its bit of the mask and its callback.\<close>

lemma done_at_next:
  assumes D: "done_at pc c g s q" and "handlers s' q = h" and "smp_call_info s' = smp_call_info s" and "pcpu_active s' = pcpu_active s"
    and m: "bit (smp_call_mask s') q = bit (smp_call_mask s) q" and "has_run c g s q \<Longrightarrow> has_run c g s' q"
    and "held h = Some g \<Longrightarrow> bit (smp_call_mask s) q" and "h = H_generation \<Longrightarrow> bit (smp_call_mask s) q"
    and "h \<in> {H_ack g, H_ack_info g, H_clear g} \<Longrightarrow> has_run c g s' q"
  shows "done_at pc c g s' q"
  using D assms(6-) unfolding done_at_def assms(2-4) m by blast

lemma done_at_handler:
  assumes D: "done_at pc c g s q" and q: "q < MAX_PCPU_NUM" and B: "box_at c g s q" and g: "g \<noteq> 0" "smp_call_active_generation s = g"
    and E: "\<And>h. handlers s q = H_clear h \<Longrightarrow> h = g"
  shows "done_at pc c g (handler_step q s) q"
proof -
  note nx = done_at_next [OF D refl handler_same(1,7)]
  have held: "held (handlers s q) = Some g \<Longrightarrow> bit (smp_call_mask s) q"
    and gen: "handlers s q = H_generation \<Longrightarrow> generation (smp_call_info s q) = g \<Longrightarrow> bit (smp_call_mask s) q"
    and ack: "handlers s q \<in> {H_ack g, H_ack_info g, H_clear g} \<Longrightarrow> has_run c g s q" using D by (auto simp: done_at_def)
  have load: "held (handlers s q) = Some g \<Longrightarrow> loaded_ok c (handlers s q)" using B by (simp add: box_at_def)
  show ?thesis
  proof (cases "handlers s q")
    case H_out
    then show ?thesis using q by (intro nx) (auto simp: handler_step_def bitmap_test_bit MAX_PCPU_NUM_def has_run_def split: if_splits)
  next
    case (H_clear h)
    then have "h = g" "generation (smp_call_info s q) = g" "has_run c g s q" using E B ack by (auto simp: box_at_def)
    then show ?thesis using H_clear D unfolding done_at_def by (auto simp: handler_step_def has_run_def)
  next
    case (H_check h f d)
    then show ?thesis using held load g by (intro nx) (auto simp: handler_step_def has_run_def split: if_splits)
  next
    case (H_call h f d)
    then show ?thesis using held load by (intro nx) (auto simp: handler_step_def has_run_def)
  next
    case H_generation
    then show ?thesis using gen by (intro nx) (auto simp: handler_step_def has_run_def)
  next
    case (H_func h)
    then show ?thesis using held by (intro nx) (auto simp: handler_step_def has_run_def)
  next
    case (H_data h f)
    then show ?thesis using held by (intro nx) (auto simp: handler_step_def has_run_def)
  next
    case (H_ack h)
    then show ?thesis using held ack by (intro nx) (auto simp: handler_step_def has_run_def split: if_splits)
  next
    case (H_ack_info h)
    then show ?thesis using held ack by (intro nx) (auto simp: handler_step_def has_run_def split: if_splits)
  qed
qed

lemma done_inv_handler:
  assumes D: "done_inv pc s" and A: "auth_inv n pc s" and q: "q < MAX_PCPU_NUM"
  shows "done_inv pc (handler_step q s)"
proof -
  have act: "smp_call_active_generation s = live_gen pc" and g0: "live pc = Some (c, g) \<Longrightarrow> g \<noteq> 0 \<and> live_gen pc = g" for c g
    using A by (auto simp: auth_inv_def gen_inv_def live_gen_def)
  have box: "live pc = Some (c, g) \<Longrightarrow> box_at c g s k" for c g k using A by (simp add: auth_inv_def box_inv_def)
  have E: "q' < MAX_PCPU_NUM \<Longrightarrow> handlers s q' \<in> {H_ack_info g, H_clear g} \<Longrightarrow> g \<noteq> 0 \<and> live_gen pc = g" for q' g
    using D by (auto simp: done_inv_def)
  have at: "done_at pc c g (handler_step q s) k" if "live pc = Some (c, g)" "k < MAX_PCPU_NUM" for c g k
  proof (cases "k = q")
    case True
    have "h = g" if "handlers s q = H_clear h" for h using E [of q h] that q g0 \<open>live pc = Some (c, g)\<close> by auto
    then show ?thesis using True that D g0 box act q by (auto simp: done_inv_def intro!: done_at_handler)
  next
    case False
    then show ?thesis using that D q by (auto simp: done_inv_def intro!: done_at_handler_other)
  qed
  have mono: "bit (smp_call_mask (handler_step q s)) k \<Longrightarrow> bit (smp_call_mask s) k" for k
    using q by (auto simp: handler_step_def bit_clear_pcpu split: handler_pc.splits if_splits)
  then have zero: "smp_call_mask s = 0 \<Longrightarrow> smp_call_mask (handler_step q s) = 0" by (metis bit_eqI bit_0_eq bot_apply bot_bool_def)
  have E': "g \<noteq> 0 \<and> live_gen pc = g"
    if "q' < MAX_PCPU_NUM" "handlers (handler_step q s) q' \<in> {H_ack_info g, H_clear g}" for q' g
    using that E [of q' g] act by (cases "handlers s q") (auto simp: handler_step_def split: if_splits)
  have "set (ran s) \<subseteq> set (ran (handler_step q s))" by (auto simp: handler_step_def split: handler_pc.split)
  then have F: "has_run c g s k \<Longrightarrow> has_run c g (handler_step q s) k" for c g k by (rule has_run_mono [rotated])
  have 1: "\<forall>c g k. live pc = Some (c, g) \<and> k < MAX_PCPU_NUM \<longrightarrow> done_at pc c g (handler_step q s) k" using at by blast
  have 2: "\<forall>c g todo q' m. pc = C_store c g todo q' m \<longrightarrow> (\<forall>k. bit (smp_call_mask (handler_step q s)) k \<longrightarrow> bit m k)"
    using D mono by (simp add: done_inv_def)
  have 3: "\<forall>c g ok. pc = C_revoke c g ok \<longrightarrow> ok \<and> smp_call_mask (handler_step q s) = 0"
    "\<forall>k. clearing pc = Some k \<longrightarrow> k < MAX_PCPU_NUM" "\<forall>k. filling pc = Some k \<longrightarrow> \<not> bit (todo_of pc) k" using D zero by (auto simp: done_inv_def)
  have 4: "\<forall>q' g. q' < MAX_PCPU_NUM \<and> handlers (handler_step q s) q' \<in> {H_ack_info g, H_clear g} \<longrightarrow> g \<noteq> 0 \<and> live_gen pc = g"
    using E' by blast
  have 5: "\<forall>c g k. finished pc = Some (c, g, True) \<and> k < MAX_PCPU_NUM \<and> bit (call_mask c) k \<and> pcpu_active s k
      \<longrightarrow> has_run c g (handler_step q s) k"
    using D F by (simp add: done_inv_def)
  show ?thesis unfolding done_inv_def handler_same by (intro conjI 1 2 3 4 5)
qed

text \<open>A step of the owner that leaves its handlers alone.\<close>

lemma caller_handlers [simp]: "handlers (caller_step p now s) = handlers s" "pcpu_active (caller_step p now s) = pcpu_active s"
  by (cases "callers s p"; simp add: caller_step_def smp_call_acquire_def smp_send_def wait_smp_call_done_def
      clear_smp_call_info_def Let_def)+

lemma done_inv_live:
  assumes "live pc' = Some (c, g)" and "\<And>k. k < MAX_PCPU_NUM \<Longrightarrow> done_at pc' c g s' k" and "finished pc' = None"
    and "\<And>c g todo q m k. pc' = C_store c g todo q m \<Longrightarrow> bit (smp_call_mask s') k \<Longrightarrow> bit m k"
    and "\<And>q. clearing pc' = Some q \<Longrightarrow> q < MAX_PCPU_NUM" and "\<And>q. filling pc' = Some q \<Longrightarrow> \<not> bit (todo_of pc') q"
    and "\<And>q h. q < MAX_PCPU_NUM \<Longrightarrow> handlers s' q \<in> {H_ack_info h, H_clear h} \<Longrightarrow> h \<noteq> 0 \<and> h = g"
  shows "done_inv pc' s'"
proof -
  have n: "pc' \<noteq> C_revoke c' g' ok" for c' g' ok using assms(3) by auto
  have l: "live_gen pc' = g" using assms(1) by (simp add: live_gen_def)
  have e: "\<forall>q h. q < MAX_PCPU_NUM \<and> handlers s' q \<in> {H_ack_info h, H_clear h} \<longrightarrow> h \<noteq> 0 \<and> live_gen pc' = h"
    using assms(7) unfolding l by blast
  show ?thesis unfolding done_inv_def by (intro conjI e) (use assms(1-6) n in auto)
qed

lemma done_at_move:
  assumes D: "done_at pc c g s k" and "pc \<noteq> C_mask c g" and "handlers s' = handlers s" and "pcpu_active s' = pcpu_active s"
    and "generation (smp_call_info s' k) = generation (smp_call_info s k)"
    and "bit (smp_call_mask s) k \<Longrightarrow> bit (smp_call_mask s') k" and "has_run c g s k \<Longrightarrow> has_run c g s' k"
    and "unsent pc' k \<Longrightarrow> unsent pc k"
    and "\<lbrakk>unsent pc k; \<not> unsent pc' k; pcpu_active s k\<rbrakk> \<Longrightarrow> has_run c g s' k"
    and "clearing pc' = Some k \<Longrightarrow> \<not> unsent pc' k \<and> generation (smp_call_info s k) \<noteq> g \<and> (pcpu_active s k \<longrightarrow> has_run c g s' k)"
  shows "done_at pc' c g s' k"
  using D assms(2,6-) unfolding done_at_def assms(3-5) by blast

lemma held_ack: "h \<in> {H_ack g, H_ack_info g, H_clear g} \<Longrightarrow> held h = Some g"
  by auto

lemma done_at_out:
  assumes "\<not> unsent pc k" and "generation (smp_call_info s k) \<noteq> g" and "held (handlers s k) \<noteq> Some g"
    and "pcpu_active s k \<Longrightarrow> has_run c g s k"
  shows "done_at pc c g s k"
  using assms held_ack unfolding done_at_def by blast

lemma done_at_published:
  assumes "\<not> unsent pc k" and "clearing pc \<noteq> Some k" and "generation (smp_call_info s k) = g" and "held (handlers s k) \<noteq> Some g"
    and "bit (smp_call_mask s) k"
  shows "done_at pc c g s k"
  using assms held_ack unfolding done_at_def by blast

lemma ffs64_above: "\<not> ffs64 w < MAX_PCPU_NUM \<Longrightarrow> k < MAX_PCPU_NUM \<Longrightarrow> \<not> bit w k"
  using ffs64_least(3) [of w k] by (cases "w = 0") auto

lemma done_inv_send:
  assumes D: "done_inv (C_send c g todo) s" and A: "auth_inv n (C_send c g todo) s" and p: "callers s p = C_send c g todo"
  shows "done_inv (callers (caller_step p now s) p) (caller_step p now s)"
proof -
  let ?q = "ffs64 todo"
  have E: "q < MAX_PCPU_NUM \<Longrightarrow> handlers s q \<in> {H_ack_info h, H_clear h} \<Longrightarrow> h \<noteq> 0 \<and> h = g" for q h
    using D by (auto simp: done_inv_def live_gen_def)
  have at: "k < MAX_PCPU_NUM \<Longrightarrow> done_at (C_send c g todo) c g s k" for k using D by (simp add: done_inv_def)
  have b: "?q < MAX_PCPU_NUM \<Longrightarrow> bit todo ?q" by (rule ffs64_bit)
  have un: "unsent (C_send c g todo) k = bit todo k" "unsent (C_wait c g) k = False" "unsent (C_load c g (bitmap_clear ?q todo) ?q) k = bit (bitmap_clear ?q todo) k"
    "unsent (C_func c g (bitmap_clear ?q todo) ?q) k = (bit (bitmap_clear ?q todo) k \<or> k = ?q)" for k
    by (auto simp: unsent_def)
  show ?thesis
  proof (rule done_inv_live [of _ c g])
    show "live (callers (caller_step p now s) p) = Some (c, g)" "finished (callers (caller_step p now s) p) = None"
      "callers (caller_step p now s) p = C_store c' g' todo' q m \<Longrightarrow> bit m k"
      "clearing (callers (caller_step p now s) p) = Some q \<Longrightarrow> q < MAX_PCPU_NUM"
      "filling (callers (caller_step p now s) p) = Some q \<Longrightarrow> \<not> bit (todo_of (callers (caller_step p now s) p)) q"
      for c' g' todo' q m k using p by (auto simp: caller_step_def smp_send_def Let_def bit_clear_pcpu split: if_splits)
    show "done_at (callers (caller_step p now s) p) c g (caller_step p now s) k" if k: "k < MAX_PCPU_NUM" for k
    proof (rule done_at_move [OF at [OF k]])
      have u: "unsent (C_send c g todo) k \<Longrightarrow> generation (smp_call_info s k) \<noteq> g" using at [OF k] by (simp add: done_at_def)
      show "clearing (callers (caller_step p now s) p) = Some k \<Longrightarrow> \<not> unsent (callers (caller_step p now s) p) k
          \<and> generation (smp_call_info s k) \<noteq> g \<and> (pcpu_active s k \<longrightarrow> has_run c g (caller_step p now s) k)"
        using p b u by (auto simp: caller_step_def smp_send_def Let_def un bit_clear_pcpu has_run_def split: if_splits)
      show "unsent (callers (caller_step p now s) p) k \<Longrightarrow> unsent (C_send c g todo) k"
        using p b by (auto simp: caller_step_def smp_send_def Let_def un bit_clear_pcpu split: if_splits)
      show "\<lbrakk>unsent (C_send c g todo) k; \<not> unsent (callers (caller_step p now s) p) k; pcpu_active s k\<rbrakk> \<Longrightarrow> has_run c g (caller_step p now s) k"
        using p ffs64_above [OF _ k, of todo]
        by (auto simp: caller_step_def smp_send_def Let_def un bit_clear_pcpu has_run_def split: if_splits)
    qed (use p in \<open>auto simp: caller_step_def smp_send_def Let_def has_run_def\<close>)
  qed (use E in auto)
qed

text \<open>The steps between two turns of the loop: only the pCPU \<open>q\<close> in work changes its state.\<close>

lemma done_inv_loop:
  assumes D: "done_inv pc s" and A: "auth_inv n pc s" and p: "callers s p = pc" and l: "live pc = Some (c, g)"
    and pc: "pc = C_load c g todo q \<or> pc = C_store c g todo q m \<or> pc = C_func c g todo q \<or> pc = C_data c g todo q \<or> pc = C_publish c g todo q"
  shows "done_inv (callers (caller_step p now s) p) (caller_step p now s)"
proof -
  let ?s = "caller_step p now s"
  have E: "q < MAX_PCPU_NUM \<Longrightarrow> handlers s q \<in> {H_ack_info h, H_clear h} \<Longrightarrow> h \<noteq> 0 \<and> h = g" for q h
    using D l by (auto simp: done_inv_def live_gen_def)
  have at: "k < MAX_PCPU_NUM \<Longrightarrow> done_at pc c g s k" for k using D l by (simp add: done_inv_def)
  have box: "box_at c g s k" for k using A l by (simp add: auth_inv_def box_inv_def)
  have m: "bit (smp_call_mask s) k \<Longrightarrow> bit m k" if "pc = C_store c g todo q m" for k using D that by (auto simp: done_inv_def)
  have ft: "filling pc = Some k \<Longrightarrow> \<not> bit (todo_of pc) k" for k using D by (simp add: done_inv_def)
  have cl: "pc = C_load c g todo q \<or> pc = C_store c g todo q m \<Longrightarrow> q < MAX_PCPU_NUM" using D by (auto simp: done_inv_def)
  show ?thesis
  proof (rule done_inv_live [of _ c g])
    show "live (callers ?s p) = Some (c, g)" "finished (callers ?s p) = None"
      "clearing (callers ?s p) = Some k \<Longrightarrow> k < MAX_PCPU_NUM" "filling (callers ?s p) = Some k \<Longrightarrow> \<not> bit (todo_of (callers ?s p)) k"
      "callers ?s p = C_store c' g' todo' q' m' \<Longrightarrow> bit (smp_call_mask ?s) k \<Longrightarrow> bit m' k"
      for c' g' todo' q' m' k using p pc cl ft by (auto simp: caller_step_def)
    show "handlers ?s k \<in> {H_ack_info h, H_clear h} \<Longrightarrow> h \<noteq> 0 \<and> h = g" if "k < MAX_PCPU_NUM" for k h using E that by auto
    show "done_at (callers ?s p) c g ?s k" if k: "k < MAX_PCPU_NUM" for k
      using pc
    proof (elim disjE)
      assume pc: "pc = C_load c g todo q"
      have "clearing pc = Some k \<Longrightarrow> \<not> unsent pc k \<and> generation (smp_call_info s k) \<noteq> g \<and> (pcpu_active s k \<longrightarrow> has_run c g s k)"
        using at [OF k] by (simp add: done_at_def)
      then show ?thesis using p pc by (intro done_at_move [OF at [OF k]]) (auto simp: caller_step_def unsent_def has_run_def)
    next
      assume pc: "pc = C_store c g todo q m"
      have bc: "bit (bitmap_clear q m) k \<longleftrightarrow> bit m k \<and> k \<noteq> q" using cl pc by (simp add: bit_clear_pcpu)
      show ?thesis
      proof (cases "k = q")
        case True
        have "\<not> unsent pc k \<and> generation (smp_call_info s k) \<noteq> g \<and> (pcpu_active s k \<longrightarrow> has_run c g s k)"
          using at [OF k] pc True by (simp add: done_at_def)
        then show ?thesis using p pc box [of k] by (intro done_at_out) (auto simp: caller_step_def unsent_def has_run_def box_at_def)
      next
        case False
        then show ?thesis using p pc m bc
          by (intro done_at_move [OF at [OF k]]) (auto simp: caller_step_def unsent_def has_run_def)
      qed
    next
      assume pc: "pc = C_func c g todo q"
      then show ?thesis using p by (intro done_at_move [OF at [OF k]]) (auto simp: caller_step_def unsent_def has_run_def)
    next
      assume pc: "pc = C_data c g todo q"
      show ?thesis
      proof (cases "k = q")
        case True
        then have "bit (smp_call_mask s) k" "generation (smp_call_info s k) \<noteq> g" "\<not> bit todo k"
          using at [OF k] pc box ft [of k] by (auto simp: done_at_def unsent_def)
        then show ?thesis using True p pc box [of k]
          by (intro done_at_published) (auto simp: caller_step_def unsent_def box_at_def)
      next
        case False
        then show ?thesis using p pc by (intro done_at_move [OF at [OF k]]) (auto simp: caller_step_def unsent_def has_run_def)
      qed
    next
      assume pc: "pc = C_publish c g todo q"
      then show ?thesis using p by (intro done_at_move [OF at [OF k]]) (auto simp: caller_step_def unsent_def has_run_def)
    qed
  qed
qed

lemma done_at_fresh:
  assumes "generation (smp_call_info s k) \<noteq> g" and "held (handlers s k) \<noteq> Some g" and "clearing pc \<noteq> Some k"
    and "unsent pc k \<Longrightarrow> pc = C_mask c g \<or> bit (smp_call_mask s) k" and "bit (call_mask c) k \<Longrightarrow> unsent pc k"
  shows "done_at pc c g s k"
  using assms held_ack unfolding done_at_def by blast

lemma done_inv_enter:
  assumes D: "done_inv pc s" and A: "auth_inv n pc s" and p: "callers s p = pc" and pc: "pc = C_active c g \<or> pc = C_mask c g"
  shows "done_inv (callers (caller_step p now s) p) (caller_step p now s)"
proof -
  let ?s = "caller_step p now s"
  have fresh: "generation (smp_call_info s k) \<noteq> g \<and> held (handlers s k) \<noteq> Some g" if "k < MAX_PCPU_NUM" for k
    using pc
  proof
    assume "pc = C_active c g"
    then show ?thesis using A by (simp add: auth_inv_def gen_inv_def)
  next
    assume "pc = C_mask c g"
    then have "box_at c g s k" "done_at pc c g s k" "unsent pc k = bit (call_mask c) k"
      using A D that by (simp_all add: auth_inv_def box_inv_def done_inv_def unsent_def)
    then show ?thesis by (auto simp: box_at_def done_at_def)
  qed
  have st: "callers ?s p = C_mask c g \<or> callers ?s p = C_send c g (call_mask c) \<and> smp_call_mask ?s = call_mask c"
    "smp_call_info ?s = smp_call_info s" using p pc by (auto simp: caller_step_def)
  then have "done_at (callers ?s p) c g ?s k" if "k < MAX_PCPU_NUM" for k
    using fresh [OF that] by (intro done_at_fresh) (auto simp: unsent_def)
  moreover have "h \<noteq> 0 \<and> h = g" if "k < MAX_PCPU_NUM" "handlers s k \<in> {H_ack_info h, H_clear h}" for k h
  proof -
    have "h \<noteq> 0 \<and> live_gen pc = h" using D that unfolding done_inv_def by blast
    then show ?thesis using pc by (auto simp: live_gen_def)
  qed
  ultimately show ?thesis using st(1) by (intro done_inv_live [of _ c g]) auto
qed

lemma done_inv_wait:
  assumes D: "done_inv (C_wait c g) s" and p: "callers s p = C_wait c g"
  shows "timed_out (caller_step p now s) \<or> done_inv (callers (caller_step p now s) p) (caller_step p now s)"
proof (cases "smp_call_mask s = 0")
  case True
  have s: "caller_step p now s = set_caller p (C_revoke c g True) s" using p True by (simp add: caller_step_def wait_smp_call_done_def)
  have at: "done_at (C_wait c g) c g s k" if "k < MAX_PCPU_NUM" for k using D that by (simp add: done_inv_def)
  have 1: "done_at (C_revoke c g True) c g (set_caller p (C_revoke c g True) s) k" if "k < MAX_PCPU_NUM" for k
    by (rule done_at_move [OF at [OF that]]) (simp_all add: unsent_def has_run_def)
  have 2: "has_run c g s k" if "k < MAX_PCPU_NUM" "bit (call_mask c) k" "pcpu_active s k" for k
    using at [OF that(1)] that(2,3) True by (auto simp: done_at_def unsent_def)
  have 3: "h \<noteq> 0 \<and> live_gen (C_revoke c g True) = h" if "k < MAX_PCPU_NUM" "handlers s k \<in> {H_ack_info h, H_clear h}" for k h
    using D that by (auto simp: done_inv_def live_gen_def)
  have "done_inv (C_revoke c g True) (set_caller p (C_revoke c g True) s)"
    unfolding done_inv_def using 1 2 3 True by (intro conjI allI impI) (auto simp: has_run_def)
  then show ?thesis using s by simp
qed (use D p in \<open>auto simp: caller_step_def wait_smp_call_done_def\<close>)

lemma done_inv_revoke:
  assumes D: "done_inv (C_revoke c g ok) s" and p: "callers s p = C_revoke c g ok"
  shows "done_inv (callers (caller_step p now s) p) (caller_step p now s)"
proof -
  have z: "ok" "smp_call_mask s = 0" using D by (auto simp: done_inv_def)
  have "handlers s k \<notin> {H_ack_info h, H_clear h}" if "k < MAX_PCPU_NUM" for k h
  proof
    assume h: "handlers s k \<in> {H_ack_info h, H_clear h}"
    then have "live_gen (C_revoke c g ok) = h" using D that unfolding done_inv_def by blast
    then have "held (handlers s k) = Some g" using h by (auto simp: live_gen_def)
    then show False using D that z(2) by (simp add: done_inv_def done_at_def)
  qed
  then show ?thesis using D p z by (auto simp: done_inv_def caller_step_def has_run_def)
qed

lemma done_inv_caller:
  assumes D: "done_inv pc s" and A: "auth_inv n pc s" and p: "callers s p = pc" and o: "owns pc"
  shows "timed_out (caller_step p now s) \<or> done_inv (callers (caller_step p now s) p) (caller_step p now s)"
proof (cases "live pc")
  case None
  show ?thesis
  proof (cases "\<exists>c g. pc = C_active c g")
    case True
    then show ?thesis using done_inv_enter [OF D A p] by blast
  next
    case False
    then show ?thesis using None D p o
      by (cases pc) (auto simp: done_inv_def live_gen_def caller_step_def clear_smp_call_info_def has_run_def Let_def)
  qed
next
  case (Some cg)
  obtain c g where l: "live pc = Some (c, g)" using Some by (cases cg) auto
  then show ?thesis using D A p done_inv_enter [OF D A p] done_inv_loop [OF D A p l] done_inv_send [of c g _ s n p now]
      done_inv_wait [of c g s p now] done_inv_revoke [of c g _ s p now]
    by (cases pc) auto
qed

section \<open>Complete runs\<close>

fun action_pcpu :: "smp_action \<Rightarrow> nat" where
  "action_pcpu (Begin p m f d t tr rate now) = p"
| "action_pcpu (Caller p now) = p"
| "action_pcpu (Handler q) = q"

definition smp_inv :: "nat \<Rightarrow> caller_pc \<Rightarrow> smp_sys \<Rightarrow> bool" where
  "smp_inv n pc s \<longleftrightarrow> auth_inv n pc s \<and> (timed_out s \<or> done_inv pc s)"

lemma smp_inv_act:
  assumes "owner_inv (smp_inv n) s" and "Suc n < 2 ^ 64" and q: "action_pcpu a < MAX_PCPU_NUM"
  shows "owner_inv (smp_inv (Suc n)) (smp_act a s)"
proof (rule owner_inv_act [OF assms(1)])
  show "smp_inv n pc s \<Longrightarrow> smp_inv (Suc n) pc s \<and> smp_inv (Suc n) pc (set_caller p pc' s) \<and> smp_inv (Suc n) pc (smp_return p r s)" for pc p pc' r
    by (simp add: smp_inv_def auth_inv_def gen_inv_def box_inv_def box_at_def done_inv_def done_at_def has_run_def)
  show "smp_inv n C_out s \<Longrightarrow> smp_inv (Suc n) (C_owner c) (set_caller p (C_owner c) (s\<lparr>smp_call_owner := 1\<rparr>))" for p c
    by (simp add: smp_inv_def auth_inv_def gen_inv_def box_inv_def live_gen_def done_inv_def)
  show "smp_inv n pc s \<Longrightarrow> smp_inv (Suc n) pc (handler_step k s)" if "a = Handler k" for pc k
    using gen_inv_handler [of n pc s k] box_inv_handler [of pc s k] done_inv_handler [of pc s n k] q that
    by (auto simp: smp_inv_def auth_inv_def gen_inv_def)
  show "smp_inv (Suc n) (callers (caller_step p now s) p) (caller_step p now s)"
    if "smp_inv n (callers s p) s" and o: "owns (callers s p)" for p now
  proof -
    have A: "auth_inv n (callers s p) s" and T: "timed_out s \<or> done_inv (callers s p) s" using that(1) by (auto simp: smp_inv_def)
    have "auth_inv (Suc n) (callers (caller_step p now s) p) (caller_step p now s)"
      using A gen_inv_caller [OF _ refl o assms(2)] box_inv_caller [OF _ _ refl o] unfolding auth_inv_def by blast
    moreover have "timed_out s \<Longrightarrow> timed_out (caller_step p now s)"
      by (cases "callers s p") (auto simp: caller_step_def smp_call_acquire_def smp_send_def wait_smp_call_done_def
          clear_smp_call_info_def Let_def)
    ultimately show ?thesis using T done_inv_caller [OF _ A refl o] by (auto simp: smp_inv_def)
  qed
qed

lemma smp_inv_run:
  assumes "owner_inv (smp_inv n) s" and "n + length acts < 2 ^ 64" and "\<forall>a \<in> set acts. action_pcpu a < MAX_PCPU_NUM"
  shows "owner_inv (smp_inv (n + length acts)) (smp_run acts s)"
  using assms
proof (induction acts arbitrary: n s)
  case (Cons a acts)
  then show ?case using smp_inv_act [OF Cons.prems(1), of a] Cons.IH [of "Suc n" "smp_act a s"] by simp
qed simp

lemma smp_inv_start: "owner_inv (smp_inv 0) (smp_start act)"
  by (auto simp: owner_inv_def smp_inv_def auth_inv_def smp_start_def owner_is_def gen_inv_def box_inv_def live_gen_def
      done_inv_def intro!: exI [of _ None])

lemma smp_run_active: "pcpu_active (smp_run acts s) = pcpu_active s"
proof (induction acts arbitrary: s)
  case (Cons a acts)
  have "pcpu_active (smp_act a s) = pcpu_active s" by (cases a) (auto simp: smp_call_begin_def split: option.split)
  then show ?case using Cons by simp
qed simp

section \<open>Properties\<close>


text \<open>
  Claim C17. As long as no call has timed out, a call that is about to return 0 was carried out: every
  active pCPU of its mask has run its function with its argument, for this call.
\<close>

theorem smp_call_complete:
  assumes "length acts < 2 ^ 64" and "\<forall>a \<in> set acts. action_pcpu a < MAX_PCPU_NUM" and "s = smp_run acts (smp_start act)"
    and "\<not> timed_out s" and "callers s p = C_release c g True" and "q < MAX_PCPU_NUM" and "bit (call_mask c) q" and "act q"
  shows "(q, g, call_func c, call_data c) \<in> set (ran s)"
proof -
  have "owner_inv (smp_inv (0 + length acts)) s" using smp_inv_run [OF smp_inv_start] assms(1-3) by simp
  then obtain own where own: "owner_is s own" and I: "done_inv (pc_of s own) s" using assms(4) by (auto simp: owner_inv_def smp_inv_def)
  have "own = Some p" using own assms(5) by (metis owner_is_def owns.simps(19))
  then have "finished (pc_of s own) = Some (c, g, True)" using assms(5) by simp
  moreover have "pcpu_active s q" using assms(3,8) by (simp add: smp_run_active smp_start_def)
  ultimately show ?thesis using I assms(6,7) by (auto simp: done_inv_def has_run_def)
qed

definition demo_begin :: "u64 \<Rightarrow> nat \<Rightarrow> smp_action" where
  "demo_begin m f = Begin 1 m (Some f) 9 1000 False 1000 0"

definition demo_call :: "u64 \<Rightarrow> nat \<Rightarrow> smp_call" where
  "demo_call m f = \<lparr>call_mask = m, call_func = f, call_data = 9, deadline = 1000, try_acquire = False\<rparr>"

definition demo_start :: smp_sys where
  "demo_start = smp_start (\<lambda>_. True)"

text \<open>pCPU 1 calls function 5 on pCPUs 0 and 1; the handler of pCPU 0 runs when its mailbox is published.\<close>

definition demo_prefix :: "smp_action list" where
  "demo_prefix = demo_begin 3 5 # replicate 9 (Caller 1 0) @ replicate 4 (Handler 0)"

definition demo_run :: "smp_action list" where
  "demo_run = demo_prefix @ replicate 5 (Handler 0) @ replicate 14 (Caller 1 0)"

lemma ffs64_eqI: "bit w n \<Longrightarrow> n < 64 \<Longrightarrow> (\<And>j. j < n \<Longrightarrow> \<not> bit w j) \<Longrightarrow> ffs64 w = n"
  using ffs64_least [of w] by (metis bit_0 bot_apply bot_bool_def linorder_neqE_nat bit_0_eq)

lemma demo_ffs: "ffs64 0 = 65535" "ffs64 1 = 0" "ffs64 3 = 0" "ffs64 2 = Suc 0"
proof -
  show "ffs64 0 = 65535" by (simp add: ffs64_def INVALID_BIT_INDEX_def)
qed (intro ffs64_eqI; simp add: bit_numeral_rec)+

lemma demo_bits:
  "bitmap_clear 0 (1 :: u64) = 0" "bitmap_clear 0 (3 :: u64) = 2" "bitmap_clear (Suc 0) (2 :: u64) = 0"
  "bitmap_clear (Suc 0) (3 :: u64) = 1" "bitmap_clear (Suc 0) (1 :: u64) = 1"
  "bitmap_test 0 (3 :: u64)" "bitmap_test 0 (1 :: u64)" "us_to_ticks 1000 1000 = 1000"
  "\<not> smp_call_deadline_expired 0 1000" "smp_call_deadline_expired 2000 1000"
  by (simp_all add: bitmap_clear_def bitmap_test_def bit_mask_def us_to_ticks_def smp_call_deadline_expired_def)

lemma smp_run_replicate:
  "smp_run (replicate (numeral k) a @ acts) s = smp_run (replicate (pred_numeral k) a @ acts) (smp_act a s)"
  "smp_run (replicate (numeral k) a) s = smp_run (replicate (pred_numeral k) a) (smp_act a s)"
  by (simp_all add: numeral_eq_Suc)

lemmas demo_eval = demo_begin_def demo_call_def demo_start_def smp_start_def smp_call_begin_def caller_step_def handler_step_def
  smp_call_acquire_def smp_send_def wait_smp_call_done_def clear_smp_call_info_def set_caller_def set_handler_def upd_info_def
  smp_return_def Let_def MAX_PCPU_NUM_def demo_bits demo_ffs smp_run_replicate


theorem smp_call_complete_witness: "(0, 1, 5, 9) \<in> set (ran (smp_run demo_run demo_start))"
proof -
  have "callers (smp_run demo_run demo_start) 1 = C_release (demo_call 3 5) 1 True" "\<not> timed_out (smp_run demo_run demo_start)"
    by (simp_all add: demo_run_def demo_prefix_def demo_eval)
  moreover have "length demo_run < 2 ^ 64" "\<forall>a \<in> set demo_run. action_pcpu a < MAX_PCPU_NUM"
    by (simp_all add: demo_run_def demo_prefix_def demo_begin_def MAX_PCPU_NUM_def)
  ultimately show ?thesis
    using smp_call_complete [of demo_run "smp_run demo_run demo_start" "\<lambda>_. True" 1 "demo_call 3 5" 1 0]
    by (auto simp: demo_start_def demo_call_def MAX_PCPU_NUM_def bit_numeral_rec)
qed

text \<open>
  The caller clears its own bit of the shared mask by a load and a store. An acknowledgement of a handler
  that comes in between is lost: all callbacks have run and all handlers have returned, but the bit of
  pCPU 0 stands again, so that the caller waits for its deadline and reports a timeout.
\<close>

definition lost_ack :: "smp_action list" where
  "lost_ack = demo_begin 3 5 # replicate 9 (Caller 1 0) @ replicate 8 (Handler 0) @ replicate 2 (Caller 1 0)
     @ Handler 0 # replicate 2 (Caller 1 0)"

theorem nonatomic_clear_loses_ack:
  "callers (smp_run lost_ack demo_start) 1 = C_wait (demo_call 3 5) 1
   \<and> ran (smp_run lost_ack demo_start) = [(1, 1, 5, 9), (0, 1, 5, 9)]
   \<and> handlers (smp_run lost_ack demo_start) 0 = H_out \<and> handlers (smp_run lost_ack demo_start) 1 = H_out
   \<and> smp_call_mask (smp_run lost_ack demo_start) = 1"
  by (simp add: lost_ack_def demo_eval)

text \<open>
  A handler tests the generation and then clears its bit. After a timeout in between it clears the bit of
  the next call: that call is about to return 0, and its callback has not run.
\<close>

definition stale_ack :: "smp_action list" where
  "stale_ack = demo_begin 1 5 # replicate 10 (Caller 1 0) @ replicate 8 (Handler 0) @ replicate 8 (Caller 1 2000)
     @ demo_begin 1 6 # replicate 9 (Caller 1 0) @ Handler 0 # replicate 8 (Caller 1 0)"

theorem stale_ack_completes_call:
  "callers (smp_run stale_ack demo_start) 1 = C_release (demo_call 1 6) 2 True
   \<and> ran (smp_run stale_ack demo_start) = [(0, 1, 5, 9)]"
  by (simp add: stale_ack_def demo_eval)

end
