(* ===== verification/Spec2Isabelle.thy ===== *)
theory Spec2Isabelle
  imports Example_System Sbuf Notify
begin

text \<open>
  The scheduling subsystem of the BEAU hypervisor: \<open>src/core/schedule.c\<close>, the policies of
  \<open>src/core/sched/\<close>, the software timers and softirqs of \<open>src/core/timer.c\<close> and \<open>src/core/softirq.c\<close> that
  drive them, the lists, bit operations and clock conversions below, the primitives by which threads
  and pCPUs talk to each other (events, calls on other pCPUs and shared buffers), and the life cycle of the
  virtual CPUs that are scheduled, \<open>src/core/vcpu.c\<close>.

  \<^bold>\<open>The program.\<close> Each physical CPU (pCPU) has a \<open>sched_control\<close> that names its policy and its current
  thread. Thread objects are vCPUs, host threads and one idle thread per pCPU; all are on a registry.
  \<open>wake_thread\<close>, \<open>sleep_thread\<close>, \<open>freeze_thread\<close>, \<open>thaw_thread\<close> and the quiesce protocol change the state of
  a thread, call the hook of the policy and request a reschedule; \<open>schedule()\<close> then asks the policy for
  the next thread and switches. A policy keeps run queues, accounts the time that a thread ran, and
  programs a timer for the end of a slice, budget, period or window. The timer softirq calls the
  handlers of the policies, which refresh the queues and request a reschedule in turn. A thread that
  waits for an event sleeps and schedules, and the signal wakes it. A function is called on other pCPUs
  through mailboxes and interrupts; records for the service VM go through shared rings. An advisor in
  the service VM may have CBS budgets judged that it proposes. A vCPU has a life-cycle state of its own,
  changed by compare-and-exchange; launching, pausing, powering off and quiescing it wake, put to sleep and
  gate its thread.

  \<^bold>\<open>The model.\<close> One state record is extended along the imports: \<open>machine\<close> (current pCPU, clock,
  fault, log of hardware events), \<open>timer_sys\<close> (timers and per-pCPU lists) and \<open>sched_sys\<close> (threads,
  controls, policy data). The operations are functions on it, with the C names.
  \<^item> \<open>Prelude\<close>, \<open>Walk\<close>: machine integers, saturating sums, ordered insertion, and \<open>list_for_each_safe\<close>
    with a body that changes the list under the walk.
  \<^item> \<open>Machine\<close>: \<open>src/core/ticks.c\<close>. The counter is a stream of readings, one taken by each
    \<open>cpu_ticks()\<close>; nothing is assumed of it where a theorem does not say so. A failed \<open>ASSERT\<close>, a \<open>panic\<close> and a
    loop that does not end are values of \<open>fault\<close>, which the first one of them sets and none clears.
  \<^item> \<open>List_Head\<close>: \<open>src/include/lib/list.h\<close> on a heap of \<open>next\<close> and \<open>prev\<close> pointers. \<open>dll\<close> says that a heap
    represents a list. The locale \<open>intrusive_list\<close> is the contract by which the other theories use lists
    instead of pointers; only the ARINC653 thread list is kept as a heap, since its \<open>init_data\<close> links a
    node twice.
  \<^item> \<open>Bits\<close>: \<open>src/lib/bits.c\<close>, \<open>src/include/lib/bits.h\<close> and the arm64 back end.
  \<^item> \<open>Timer\<close>: \<open>src/core/timer.c\<close>, with the callback of a timer as a parameter of the softirq.
  \<^item> \<open>Softirq\<close>: \<open>src/core/softirq.c\<close> and the timer interrupt. A pass that handlers or interrupts keep busy
    for ever has the value \<open>None\<close>; that it ends otherwise is proved.
  \<^item> \<open>Sched_Types\<close>, \<open>Sched_Core\<close>: the data of \<open>schedule.h\<close> and the operations of \<open>schedule.c\<close>, with the
    policy (\<open>acrn_scheduler\<close>, a record of optional hooks) as an argument; \<open>Sched_Dispatch\<close> selects it from the
    control of the pCPU as the code does, and has the pCPU life cycle.
  \<^item> \<open>Sched_Noop\<close>, \<open>Sched_Prio\<close>, \<open>Sched_Iorr\<close>, \<open>Sched_Bvt\<close>, \<open>Sched_Rtds\<close>, \<open>Sched_Cbs\<close>, \<open>Sched_Bfp\<close>, \<open>Sched_Arinc653\<close>: one
    theory for each policy of \<open>src/core/sched/\<close>, all hooks included; \<open>Sched_Smart\<close>: \<open>src/core/sched/smart.c\<close>, with
    the copies from and to guest memory as arguments.
  \<^item> \<open>Sched_Event\<close>: \<open>src/core/event.c\<close>, with \<open>wait_event\<close> cut where it drops the lock of the event.
  \<^item> \<open>Vcpu\<close>: \<open>src/core/vcpu.c\<close>, over a record \<open>vm_sys\<close> that holds the scheduler's system, the VMs with their vCPUs
    and the per-pCPU slots; what races with the accesses to the state word is an argument, and so is what the
    architecture does when it resets or gives up a vCPU.
  \<^item> \<open>Sbuf\<close>: \<open>src/core/sbuf.c\<close>, \<open>src/core/vm_event.c\<close> and the reader \<open>src/sdk/ube/core/sbuf.c\<close>.
  \<^item> \<open>Notify\<close>: \<open>src/core/notify.c\<close>, each access to a shared variable a step, since callers and handlers race.

  \<^bold>\<open>The proofs.\<close> \<open>Sched_Contract\<close> states what the core needs of a policy (locale \<open>sched_policy\<close>: each hook
  keeps the thread states, the policy's invariant and the timers, and \<open>pick_next\<close> returns the idle
  thread or one that can run) and, for policies that keep every thread that can run (locale
  \<open>sched_policy_live\<close>), that none is lost; the lemmas on \<open>schedule\<close>, \<open>wake_thread\<close> and the gates are proved
  there once. Each policy is an interpretation, and \<open>Sched_Dispatch\<close> interprets the contract for the
  policy of any pCPU. \<open>Sched_Steps\<close> has the step relation of a pCPU and its invariant, \<open>Sched_Gates\<close> the
  freeze and quiesce gates, \<open>Sched_Event\<close> the steps of a waiter among them, \<open>Vcpu\<close> the steps under which a quiesced vCPU stays off
  its processor. In \<open>Notify\<close> an invariant speaks of
  the one caller that owns the mailboxes (\<open>owner_inv\<close>), and is shown for every step once. \<open>Sbuf\<close> refines the
  ring to a list. \<open>Example_System\<close> is a system in which the hypotheses hold for all policies.
  The properties of a component close its theory; those that span components follow here: what may run,
  what is not lost, the gates, the timers, and the choice of each policy.

  \<^bold>\<open>Bounds.\<close> \<open>timer_softirq\<close> serves at most \<open>MAX_TIMER_ACTIONS\<close> = 32 timers and the ARINC653 advance takes
  at most \<open>SCHED_ARINC653_MAX_ENTRIES\<close> = 64 steps, both as in the code (the second bounds a loop that
  increments \<open>sched_index\<close> up to \<open>entry_count\<close>, at most 64). The BFP response time iteration
  stops after \<open>BFP_RTA_MAX_ITERATIONS\<close> = 64 rounds with a panic, as in the code. The loops that the code
  does not bound (CBS charging and windows, IORR slices, list walks) are partial functions, and that they
  return is proved. Constants are those of the QEMU platform (8 pCPUs, 16 VMs), assertions those of a
  debug build. Generations of SMP calls are 64 bits wide; the properties speak of runs of fewer than
  \<open>2^64\<close> accesses, in which none is used twice.

  \<^bold>\<open>Not modelled.\<close> Locks: an operation that the code runs under the lock of a pCPU, of an event or of the
  proposal gate is one step. Memory ordering: \<open>Notify\<close> assumes sequential consistency. The context switch in
  assembly, the switch hooks of the vCPU code, pointer authentication, inter-processor interrupts and the
  programming of the hardware timer are events of the log. The life cycle of whole VMs (\<open>src/core/vm.c\<close>,
  \<open>src/core/vm_wdt.c\<close>), the power management transaction (\<open>src/core/pm.c\<close>), the other hypercalls,
  interrupt and memory management, device tree, boot, tracing, the register-level ARM64 code and the rest of
  the SDK reach the scheduler only through the operations above.
\<close>

section \<open>Every policy, every step\<close>







text \<open>
  Claim C4. No runnable thread falls off the run queues of these policies in \<open>schedule()\<close>, as long
  as no idle work is pending where the policy takes the running thread off its queue.
\<close>

theorem schedule_keeps_ready:
  assumes "policy_live i = Some res" and "step_inv i p s" and "ready_inv res (policy_rq i) p s" and "cur_pcpu s = p"
    and "res \<or> \<not> sched_idle_work_pending_locked p s"
  shows "ready_inv res (policy_rq i) p (schedule_with (sched_ops i) s)"
  using assms sched_policy_live.schedule_ready [OF policy_live_contract [OF assms(1)]] by (simp add: step_inv_def)

theorem schedule_keeps_ready_witness:
  "ready_inv False cbs_rq 0 (schedule_with sched_cbs (demo Sched_cbs))"
proof -
  have "ready_inv False (policy_rq Sched_cbs) 0 (demo Sched_cbs)" by (simp add: ready_inv_def demo_rq)
  moreover have "\<not> sched_idle_work_pending_locked 0 (demo Sched_cbs)"
    by (simp add: sched_idle_work_pending_locked_def has_system_suspend_request_def has_reset_vm_request_def bitmap_test_def)
  ultimately show ?thesis
    using schedule_keeps_ready [of Sched_cbs False 0 "demo Sched_cbs"] demo_inv [of Sched_cbs]
    by (simp add: policy_live_def sched_ops_def policy_rq_def)
qed

text \<open>
  Claim C6. Where idle work is pending, \<open>schedule()\<close> switches to idle without asking the policy: a
  running thread that its policy had taken off the run queue (RTDS, CBS and BFP do so) becomes
  runnable on no queue, and a wakeup changes nothing about it.
\<close>

theorem idle_work_strands_thread:
  assumes "managed p t s" and "curr p s = Some t" and "cur_pcpu s = p" and "\<not> be_blocking (threads s t)"
    and "t \<notin> set (policy_rq i p s)" and "sched_idle_work_pending_locked p s" and "\<not> ctl_priority_pending (sched_ctls s p)"
  defines "s' \<equiv> schedule_with (sched_ops i) s"
  shows "curr p s' = Some (Idle p) \<and> eligible p t s' \<and> status (threads s' t) = THREAD_STS_RUNNABLE
    \<and> t \<notin> set (policy_rq i p s') \<and> wake_thread_locked (sched_ops i) t s' = s'"
proof -
  let ?c = "upd_ctl p (\<lambda>c. c\<lparr>flags := bitmap_clear NEED_RESCHEDULE (flags c)\<rparr>) s"
  have ne: "t \<noteq> Idle p" using assms(1) by (simp add: managed_def)
  have s': "s' = switch_threads p (Some t) (Idle p) ?c"
    using assms ne by (simp add: s'_def schedule_with_def consume_priority_def choose_next_def Let_def)
  note S = switch_threads_core [OF refl ne]
  have "policy_same s s'" unfolding s' by (rule policy_same_trans [OF _ S(6)]) simp
  then have "policy_rq i p s' = policy_rq i p s" by (rule policies.rq_same)
  moreover have "status (threads s' t) = THREAD_STS_RUNNABLE" "\<not> be_blocking (threads s' t)" "curr p s' = Some (Idle p)"
    using S assms(4) ne by (simp_all add: s')
  moreover have "managed p t s'" using assms(1) switch_threads_registry by (simp add: s' managed_def)
  ultimately show ?thesis
    using assms(5) by (simp add: eligible_def is_blocked_def wake_thread_locked_def)
qed

theorem idle_work_strands_thread_witness:
  "status (threads (schedule_with sched_rtds demo_busy) (Thr 1)) = THREAD_STS_RUNNABLE
   \<and> Thr 1 \<notin> set (rtds_rq 0 (schedule_with sched_rtds demo_busy))
   \<and> wake_thread_locked sched_rtds (Thr 1) (schedule_with sched_rtds demo_busy) = schedule_with sched_rtds demo_busy"
proof -
  have q: "rtds_rq 0 demo_busy = []" by (simp add: demo_busy_def rtds_rq_def rtds_ready_def rtds_depleted_def)
  have m: "managed 0 (Thr 1) demo_busy" "curr 0 demo_busy = Some (Thr 1)" "cur_pcpu demo_busy = 0"
    "\<not> be_blocking (threads demo_busy (Thr 1))" "\<not> ctl_priority_pending (sched_ctls demo_busy 0)"
    by (simp_all add: demo_busy_def managed_def curr_def)
  have w: "sched_idle_work_pending_locked 0 demo_busy" by (simp add: sched_idle_work_pending_locked_def demo_busy_def)
  note S = idle_work_strands_thread [of 0 "Thr 1" demo_busy Sched_rtds, OF m(1-4) _ w m(5)]
  show ?thesis using S q by (simp add: policy_rq_def sched_ops_def)
qed

section \<open>Gates\<close>

text \<open>
  Claim C7. A frozen thread is off the run queue and not eligible, so that it cannot be chosen, and
  thawing it with the ownership that the freeze reported makes it eligible again.
\<close>

theorem freeze_thaw_round_trip:
  assumes "step_inv i p s" and "eligible p t s" and "freeze_epoch (threads s t) = 0" and "epoch \<noteq> 0"
    and "freeze_thread (sched_ops i) (Some t) epoch s = (frozen, wake_owned, s')"
  shows "frozen \<and> wake_owned \<and> \<not> eligible p t s' \<and> t \<notin> set (policy_rq i p s')
    \<and> fst (thaw_thread (sched_ops i) (Some t) epoch wake_owned s')
    \<and> eligible p t (snd (thaw_thread (sched_ops i) (Some t) epoch wake_owned s'))"
proof -
  have I: "pcpu_inv (policy_rq i) (policy_wf i) p s" using assms(1) by (simp add: step_inv_def)
  show ?thesis using policies.freeze_thaw [OF I assms(2-5)] by blast
qed

theorem freeze_thaw_round_trip_witness:
  "let (frozen, wake_owned, s') = freeze_thread sched_cbs (Some (Thr 1)) 7 (demo Sched_cbs)
   in frozen \<and> eligible 0 (Thr 1) (snd (thaw_thread sched_cbs (Some (Thr 1)) 7 wake_owned s'))"
proof -
  obtain f w s' where F: "freeze_thread sched_cbs (Some (Thr 1)) 7 (demo Sched_cbs) = (f, w, s')" by (metis prod_cases3)
  then show ?thesis
    using freeze_thaw_round_trip [OF demo_inv, where i = Sched_cbs and t = "Thr 1" and epoch = 7 and frozen = f and wake_owned = w and s' = s'] by (auto simp: sched_ops_def)
qed

text \<open>
  While a thread is frozen a wakeup only leaves a note: no thread's state and no queue
  changes.
\<close>

theorem frozen_wake_deferred:
  assumes "freeze_epoch (threads s t) \<noteq> 0" and "\<not> thread_quiesce_active_locked t s"
  shows "deferred_wake (threads (wake_thread (sched_ops i) t s) t)
    \<and> status (threads (wake_thread (sched_ops i) t s) u) = status (threads s u)
    \<and> policy_rq j p (wake_thread (sched_ops i) t s) = policy_rq j p s"
proof -
  have w: "wake_thread (sched_ops i) t s = upd_thread t (\<lambda>th. th\<lparr>deferred_wake := True\<rparr>) s"
    using assms by (simp add: wake_thread_def)
  have "policy_rq j p (wake_thread (sched_ops i) t s) = policy_rq j p s"
    by (rule policies.rq_same) (simp add: w)
  then show ?thesis by (simp add: w)
qed

text \<open>
  Claim C8. The idle loop acknowledges a quiesce request only for a thread of its pCPU that is
  blocked and off the processor, while idle is the current thread.
\<close>

theorem quiesce_ack_safe:
  assumes "is_thread_quiesced (Some t) g (snd (sched_ack_quiesce_from_idle p s))" and "\<not> is_thread_quiesced (Some t) g s"
  shows "pcpu_id (threads s t) = p \<and> curr p s = Some (Idle p) \<and> is_blocked t s \<and> \<not> be_blocking (threads s t)"
  using quiesced_by_ack [OF assms] by simp

theorem quiesce_ack_safe_witness:
  "is_blocked (Thr 2) (snd (request_thread_quiesce (Some (Thr 2)) 5 (demo Sched_rtds)))"
proof -
  let ?s = "demo Sched_rtds"
  obtain s' where s': "request_thread_quiesce (Some (Thr 2)) 5 ?s = (True, s')"
    by (auto simp: request_thread_quiesce_def quiesce_target_def MAX_PCPU_NUM_def CONFIG_MAX_VM_NUM_def quiesce_slot_def Let_def demo_def)
  have "is_thread_quiesced (Some (Thr 2)) 5 (snd (sched_ack_quiesce_from_idle 0 s'))"
    by (rule quiesce_acked [OF s']) (simp_all add: is_blocked_def)
  moreover have "\<not> is_thread_quiesced (Some (Thr 2)) 5 s'"
    using s' by (auto simp: request_thread_quiesce_def is_thread_quiesced_def quiesce_slot_def upd_slot_def Let_def demo_def
        make_reschedule_request_def split: if_splits)
  ultimately show ?thesis using quiesce_ack_safe s' by simp
qed

text \<open>
  Claim C9. A request to quiesce a blocked thread is acknowledged by the next turn of its pCPU's
  idle loop, under the generation of the request.
\<close>

theorem quiesce_ack_live:
  assumes "request_thread_quiesce (Some t) g s = (True, s')" and "base_inv p s" and "managed p t s"
    and "curr p s = Some (Idle p)" and "is_blocked t s"
  shows "is_thread_quiesced (Some t) g (snd (sched_ack_quiesce_from_idle p s'))"
proof -
  have "\<not> is_running t s" using assms(5) by (simp add: is_blocked_def is_running_def)
  then have "\<not> be_blocking (threads s t)" using assms(2,3) by (auto simp: base_inv_def managed_def)
  then show ?thesis using assms by (intro quiesce_acked [OF assms(1)]) (simp_all add: managed_def)
qed

theorem quiesce_ack_live_witness:
  "is_thread_quiesced (Some (Thr 2)) 5 (snd (sched_ack_quiesce_from_idle 0
     (snd (request_thread_quiesce (Some (Thr 2)) 5 (demo Sched_rtds)))))"
proof -
  let ?s = "demo Sched_rtds"
  obtain s' where s': "request_thread_quiesce (Some (Thr 2)) 5 ?s = (True, s')"
    by (auto simp: request_thread_quiesce_def quiesce_target_def MAX_PCPU_NUM_def CONFIG_MAX_VM_NUM_def quiesce_slot_def Let_def demo_def)
  then show ?thesis using quiesce_ack_live [OF s' demo_base] by (simp add: is_blocked_def)
qed

text \<open>
  The quiesce gate holds back \<open>wake_thread\<close>, but not \<open>thaw_thread\<close>: thawing a thread whose
  quiesce slot is active makes it eligible.
\<close>

theorem thaw_passes_quiesce_gate:
  assumes "step_inv i p s" and "managed p t s" and "thread_quiesce_active_locked t s"
    and "freeze_epoch (threads s t) = epoch" and "epoch \<noteq> 0"
  shows "wake_thread (sched_ops i) t s = s \<and> eligible p t (snd (thaw_thread (sched_ops i) (Some t) epoch True s))"
proof -
  have I: "pcpu_inv (policy_rq i) (policy_wf i) p s" using assms(1) by (simp add: step_inv_def)
  have "managed p t (upd_thread t (\<lambda>th. th\<lparr>freeze_epoch := 0, deferred_wake := False\<rparr>) s)"
    using assms(2) by (simp add: managed_def)
  from policies.wake_locked_inv(2) [OF policies.gate_inv(1) [OF I] this]
  show ?thesis using assms(3-5) by (simp add: wake_thread_def thaw_thread_def Let_def)
qed

section \<open>Reschedule requests and idle\<close>

text \<open>
  Claim C14. Where \<open>sched_clear_reschedule_if_current_only\<close> drops a reschedule request, no other
  thread of the pCPU in the registry could run; but it never does so unless the current thread is
  the last one of the registry.
\<close>

theorem clear_reschedule_only_last:
  assumes "sched_clear_reschedule_if_current_only p s = (True, s')" and "ctl_pcpu_id (sched_ctls s p) = p"
  shows "\<exists>c. curr p s = Some c \<and> thread_list s \<noteq> [] \<and> c = last (thread_list s)
    \<and> (\<forall>t \<in> set (thread_list s). t \<noteq> c \<and> pcpu_id (threads s t) = p \<and> t \<noteq> Idle p \<longrightarrow>
         be_blocking (threads s t) \<or> is_blocked t s)"
proof -
  obtain c where c: "curr p s = Some c" and L: "only_runnable_loop p c s (thread_list s) 0 None = (1, Some c)"
    using assms by (auto simp: sched_clear_reschedule_if_current_only_def sched_current_is_only_runnable_locked_def
        split: if_splits option.splits prod.splits)
  note O = only_runnable_loop_one [OF L]
  have "be_blocking (threads s t) \<or> is_blocked t s"
    if "t \<in> set (thread_list s)" "t \<noteq> c" "pcpu_id (threads s t) = p" "t \<noteq> Idle p" for t
    using O(2) that by (cases "status (threads s t)") (auto simp: is_idle_thread_def is_runnable_or_running_def is_blocked_def)
  then show ?thesis using c O by auto
qed

theorem clear_reschedule_only_last_witness:
  "curr 0 demo_last = Some (last (thread_list demo_last))"
proof -
  have "\<not> sched_idle_work_pending_locked 0 demo_last"
    by (simp add: sched_idle_work_pending_locked_def has_system_suspend_request_def has_reset_vm_request_def demo_last_def
        demo_busy_def bitmap_test_def)
  moreover have "bitmap_test NEED_RESCHEDULE (flags (sched_ctls demo_last 0))"
    by (simp add: demo_last_def)
  moreover have "sched_current_is_only_runnable_locked 0 demo_last"
    by (simp add: sched_current_is_only_runnable_locked_def demo_last_def demo_busy_def curr_def is_idle_thread_def
        is_runnable_or_running_def)
  ultimately obtain s' where "sched_clear_reschedule_if_current_only 0 demo_last = (True, s')"
    by (simp add: sched_clear_reschedule_if_current_only_def)
  from clear_reschedule_only_last [OF this] show ?thesis by (auto simp: demo_last_def demo_busy_def)
qed

section \<open>Timers\<close>

text \<open>
  The timer softirq, with the callbacks of all scheduling policies and any others that
  keep the timers consistent, leaves every timer list sorted and consistent, and the hardware timer
  armed for the earliest deadline, unless the pCPU has stopped.
\<close>

theorem timer_softirq_armed:
  assumes "\<And>n c s. callback_frame s (other n c s)" and "timer_ok s" and "cur_pcpu s = p"
  defines "s' \<equiv> timer_softirq (sched_timer_callback other) p s"
  shows "timer_ok s' \<and> (fault s' = None \<longrightarrow> timer_inv s' \<and> hw_armed p s')"
  using timer_client.softirq_ok [OF sched_timer_client [of other, OF assms(1)] assms(2,3)]
  by (auto simp: s'_def timer_ok_def)



theorem event_signal_not_lost_witness:
  "let i = Sched_prio; s1 = schedule_with (sched_ops i) (demo i); s2 = sleep_thread (sched_ops i) (Thr 1) s1; s3 = wake_thread (sched_ops i) (Thr 1) s2
   in eligible 0 (Thr 1) s3 \<and> (Thr 1 \<in> set (policy_rq i 0 s3) \<or> curr 0 s3 = Some (Thr 1))"
proof -
  let ?i = Sched_prio and ?t = "Thr 1" and ?s = "demo Sched_prio"
  let ?o = "sched_ops Sched_prio"
  define s1 where "s1 = schedule_with ?o ?s"
  define e1 where "e1 = init_event\<lparr>waiting_thread := Some ?t\<rparr>"
  define s2 where "s2 = sleep_thread ?o ?t s1"
  define s3 where "s3 = wake_thread ?o ?t s2"
  have by1: "bystander_step True ?i 0 ?t ?s s1" unfolding s1_def by (rule By_schedule) simp_all
  have 1: "event_step True ?i 0 ?t (Calls, init_event, ?s) (Calls, init_event, s1)" by (rule Ev_other [OF by1])
  have c: "curr 0 s1 = Some ?t" "cur_pcpu s1 = 0"
    using demo_prio_runs by (simp_all add: s1_def)
  have 2: "event_step True ?i 0 ?t (Calls, init_event, s1) (Checks, e1, s1)"
    using Ev_enter [OF c, of True ?i init_event] c by (simp add: wait_enter_def assertion_def init_event_def e1_def)
  have 3: "event_step True ?i 0 ?t (Checks, e1, s1) (Slept, e1, s2)"
    using Ev_sleep [of e1 True ?i 0 ?t s1] by (simp add: e1_def init_event_def must_wait_def wait_sleep_def s2_def)
  have 4: "event_step True ?i 0 ?t (Slept, e1, s2) (Slept, e1\<lparr>ev_set := True\<rparr>, s3)"
    using Ev_signal [of Slept True ?i 0 ?t e1 s2] by (simp add: e1_def init_event_def signal_event_def s3_def)
  have "(event_step True ?i 0 ?t)\<^sup>*\<^sup>* (Calls, init_event, ?s) (Slept, e1\<lparr>ev_set := True\<rparr>, s3)"
    by (rule rtranclp.intros(2), rule rtranclp.intros(2), rule rtranclp.intros(2), rule rtranclp.intros(2), rule rtranclp.intros(1),
      rule 1, rule 2, rule 3, rule 4)
  moreover have "gate_open ?t ?s" by (simp add: gate_open_def thread_quiesce_active_locked_def demo_def quiesce_slot_def)
  moreover have "ready_inv True (policy_rq ?i) 0 ?s" by (simp add: ready_inv_def demo_rq)
  ultimately show ?thesis
    using event_signal_not_lost [of True ?i 0 ?t init_event ?s Slept "e1\<lparr>ev_set := True\<rparr>" s3] demo_inv [of ?i]
    by (auto simp: init_event_def policy_live_def Let_def s1_def s2_def s3_def)
qed

theorem wait_event_returns_witness:
  "\<exists>y. wait_event sched_prio (\<lambda>n x. x) (\<lambda>n x. if n < 2 then x else signal_event sched_prio x) (init_event, demo Sched_prio) = Some y"
  using wait_event_returns [of "\<lambda>n x. if n < 2 then x else signal_event sched_prio x" 2 sched_prio "\<lambda>n x. x"
      "(init_event, demo Sched_prio)"]
  by (auto simp: signal_event_def split_def)

section \<open>What the policies choose\<close>

text \<open>
  Claim C19. RTDS schedules by earliest deadline among the threads with budget: the chosen thread is
  due no later than any thread left on the ready queue, which stays in deadline order; a thread without
  budget runs only where none with budget is ready, and then the one replenished first.
\<close>

theorem rtds_picks_earliest_deadline:
  assumes "step_inv Sched_rtds p s" and "cur_pcpu s = p" and "curr p s = Some c"
    and "in_order (deadline_less s) (remove1 c (rtds_ready p s))" and "sched_rtds_pick_next p s = (r, s')" and "r \<noteq> Idle p"
  shows "in_order (deadline_less s') (rtds_ready p s')
    \<and> (\<forall>x \<in> set (rtds_ready p s'). rtds_deadline_ticks (rtds r s') \<le> rtds_deadline_ticks (rtds x s'))
    \<and> (rtds_remaining_ticks (rtds r s') = 0 \<longrightarrow> rtds_ready p s' = []
         \<and> (\<forall>x \<in> set (rtds_depleted p s'). rtds_deadline_ticks (rtds r s') \<le> rtds_deadline_ticks (rtds x s')))"
proof -
  have I: "base_inv p s" "queue_inv (rtds_rq p s) p s" "rtds_wf p s"
    using assms(1) by (simp_all add: step_inv_def pcpu_inv_def policy_rq_def policy_wf_def)
  show ?thesis using rtds_pick_next(6) [OF I assms(3,2,5,4)]
    by (auto simp: deadline_less_def not_less rtds_rq_def)
qed

theorem rtds_picks_earliest_deadline_witness:
  "fst (sched_rtds_pick_next 0 (demo Sched_rtds)) = Thr 1
   \<and> in_order (deadline_less (snd (sched_rtds_pick_next 0 (demo Sched_rtds)))) (rtds_ready 0 (snd (sched_rtds_pick_next 0 (demo Sched_rtds))))"
proof -
  obtain r s' where P: "sched_rtds_pick_next 0 (demo Sched_rtds) = (r, s')" by fastforce
  have "r = Thr 1"
    using rtds_pick_next(5) [OF demo_base _ demo_rtds _ _ P, of "Idle 0"] by (simp add: queue_inv_def rtds_rq_def)
  moreover have "in_order (deadline_less (demo Sched_rtds)) (remove1 (Idle 0) (rtds_ready 0 (demo Sched_rtds)))"
    by (simp add: in_order_def)
  ultimately show ?thesis using rtds_picks_earliest_deadline [OF demo_inv _ _ _ P] P by simp
qed

text \<open>
  Claim C20. CBS schedules by earliest deadline: the chosen thread is due no later than any thread left
  on the run queue, which stays in deadline order, and no thread that could run is missing from it.
\<close>

theorem cbs_picks_earliest_deadline:
  assumes "step_inv Sched_cbs p s" and "cur_pcpu s = p" and "curr p s = Some c"
    and "in_order (cbs_earlier s) (remove1 c (cbs_rq p s))" and "sched_cbs_pick_next p s = (r, s')"
  shows "in_order (cbs_earlier s') (cbs_rq p s')
    \<and> (\<forall>x \<in> set (cbs_rq p s'). cbs_deadline_ticks (cbs r s') \<le> cbs_deadline_ticks (cbs x s'))
    \<and> set (cbs_rq p s') = (set (cbs_rq p s) \<union> {t. t = c \<and> eligible p t s}) - {r}"
proof -
  have I: "base_inv p s" "queue_inv (cbs_rq p s) p s" "cbs_wf p s"
    using assms(1) by (simp_all add: step_inv_def pcpu_inv_def policy_rq_def policy_wf_def)
  show ?thesis using cbs_pick_next(4,6) [OF I assms(3,2,5)] assms(4)
    by (auto simp: cbs_earlier_def not_less)
qed

theorem cbs_picks_earliest_deadline_witness:
  "in_order (cbs_earlier (snd (sched_cbs_pick_next 0 (demo Sched_cbs)))) (cbs_rq 0 (snd (sched_cbs_pick_next 0 (demo Sched_cbs))))
   \<and> set (cbs_rq 0 (snd (sched_cbs_pick_next 0 (demo Sched_cbs)))) = {Thr 1} - {fst (sched_cbs_pick_next 0 (demo Sched_cbs))}"
proof -
  obtain r s' where P: "sched_cbs_pick_next 0 (demo Sched_cbs) = (r, s')" by fastforce
  have "in_order (cbs_earlier (demo Sched_cbs)) (remove1 (Idle 0) (cbs_rq 0 (demo Sched_cbs)))" by (simp add: in_order_def)
  then show ?thesis using cbs_picks_earliest_deadline [OF demo_inv _ _ _ P] P by auto
qed



text \<open>
  Claim C22. Priority scheduling runs a thread of the highest priority on the queue, and waking and
  putting threads to sleep keeps the queue in priority order, a woken thread behind its equals.
\<close>

theorem prio_picks_highest:
  assumes "step_inv Sched_prio p s" and "prio_sorted p s" and "managed p t s" and "is_blocked t s"
  defines "s' \<equiv> sched_prio_wake t s"
  shows "prio_sorted p s' \<and> prio_sorted p (sched_prio_sleep t s)
    \<and> (\<exists>r. sched_prio_pick_next p s' = (r, s') \<and> r \<in> set (prio_queue s' p)
         \<and> (\<forall>x \<in> set (prio_queue s' p). sint (prio_data (threads s' x)) \<le> sint (prio_data (threads s' r)))
         \<and> (r = t \<longrightarrow> (\<forall>x \<in> set (prio_queue s p). sint (prio_data (threads s x)) < sint (prio_data (threads s t)))))"
proof -
  have c: "sched_ctl (threads s t) = Some p" using assms(3) by (simp add: managed_def)
  have "t \<notin> set (policy_rq Sched_prio p s)"
    by (rule policies.pcpu_inv_blocked_not_queued) (use assms in \<open>simp_all add: step_inv_def\<close>)
  then have q: "t \<notin> set (prio_queue s p)" by (simp add: policy_rq_def prio_rq_def)
  have so: "prio_sorted p s'" unfolding s'_def by (rule prio_sorted_wake [OF assms(2) c q])
  obtain front rear where f: "prio_queue s p = front @ rear" "prio_queue s' p = front @ t # rear"
      "\<forall>x \<in> set rear. prio_less s x t"
    unfolding s'_def using prio_wake_position [OF assms(2) c q] by metis
  have th: "threads s' = threads s" using prio_queue_add_fresh [OF c q] by (simp add: s'_def sched_prio_wake_def)
  define r where "r = hd (front @ t # rear)"
  have pick: "sched_prio_pick_next p s' = (r, s')" "r \<in> set (prio_queue s' p)"
    using f(2) by (cases front; simp add: sched_prio_pick_next_def r_def)+
  have best: "\<not> prio_less s' r x" if "x \<in> set (prio_queue s' p)" for x
    using prio_pick_highest [OF so that] pick(1) by auto
  have last: "\<forall>x \<in> set (prio_queue s p). prio_less s x t" if "r = t"
    using that f q by (cases front) (auto simp: r_def)
  show ?thesis
  proof (intro conjI exI [of _ r] ballI impI)
    show "prio_sorted p (sched_prio_sleep t s)" by (rule prio_sorted_sleep [OF assms(2) c])
  qed (use so pick best last in \<open>auto simp: prio_less_def not_less th\<close>)
qed

theorem prio_picks_highest_witness:
  "prio_sorted 0 (sched_prio_wake (Thr 2) (demo Sched_prio))
   \<and> (\<exists>r. sched_prio_pick_next 0 (sched_prio_wake (Thr 2) (demo Sched_prio)) = (r, sched_prio_wake (Thr 2) (demo Sched_prio)))"
proof -
  have "prio_sorted 0 (demo Sched_prio)" by (simp add: prio_sorted_def in_order_def demo_def)
  then show ?thesis using prio_picks_highest [OF demo_inv, of "Thr 2"] by (auto simp: is_blocked_def)
qed

text \<open>
  Claim C23. BVT runs the thread with the least effective virtual time of its queue, which stays in
  this order when a thread is chosen, wakes or goes to sleep.
\<close>

theorem bvt_picks_least_evt:
  assumes "step_inv Sched_bvt p s" and "bvt_sorted p s" and "managed p t s" and "is_blocked t s"
    and "sched_bvt_pick_next p s = (r, s')"
  shows "bvt_sorted p s' \<and> bvt_sorted p (sched_bvt_wake t s) \<and> bvt_sorted p (sched_bvt_sleep t s)
    \<and> (\<forall>x \<in> set (bvt_rq p s). r \<in> set (bvt_rq p s) \<and> sint (evt (bvt r s')) \<le> sint (evt (bvt x s')))"
proof -
  have I: "base_inv p s" "distinct (bvt_rq p s)" "sched_ctl (threads s t) = Some p"
    using assms(1,3) by (simp_all add: step_inv_def pcpu_inv_def policy_rq_def queue_inv_def managed_def)
  have "t \<notin> set (policy_rq Sched_bvt p s)"
    by (rule policies.pcpu_inv_blocked_not_queued) (use assms in \<open>simp_all add: step_inv_def\<close>)
  then have "t \<notin> set (bvt_rq p s)" by (simp add: policy_rq_def)
  then show ?thesis
    using bvt_pick_sorted [OF assms(2) I(1,2) assms(5)] bvt_sorted_wake [OF assms(2) I(3) _ I(2)] bvt_sorted_sleep [OF assms(2) I(3)]
    by (auto simp: evt_less_def not_less)
qed

theorem bvt_picks_least_evt_witness:
  "bvt_sorted 0 (snd (sched_bvt_pick_next 0 (demo Sched_bvt))) \<and> bvt_sorted 0 (sched_bvt_wake (Thr 2) (demo Sched_bvt))"
proof -
  obtain r s' where P: "sched_bvt_pick_next 0 (demo Sched_bvt) = (r, s')" by fastforce
  have "bvt_sorted 0 (demo Sched_bvt)" by (simp add: bvt_sorted_def in_order_def bvt_rq_def demo_def)
  then show ?thesis using bvt_picks_least_evt [OF demo_inv _ _ _ P, of "Thr 2"] P by (simp add: is_blocked_def)
qed

text \<open>
  Claim C24. ARINC653 runs nothing but the owner of the window that the present time falls into, and
  only if that owner can run; in every other case the pCPU idles.
\<close>

theorem arinc653_runs_window_owner:
  assumes "step_inv Sched_arinc653 p s" and "cur_pcpu s = p" and "arinc_not_ahead (cpu_ticks s) (arinc_ctl s p)"
    and "sched_arinc653_pick_next p s = (r, s')"
  shows "r = Idle p \<or> eligible p r s \<and> \<not> suspended (arinc_ctl s p)
    \<and> arinc_at (cpu_ticks s) (arinc_now p s) \<and> arinc_owner (arinc_now p s) = Some r"
proof -
  have I: "base_inv p s" "arinc_wf p s" using assms(1) by (simp_all add: step_inv_def pcpu_inv_def policy_wf_def)
  show ?thesis using arinc_pick_next [OF I assms(2,4)] assms(3) by blast
qed

theorem arinc653_runs_window_owner_witness:
  "fst (sched_arinc653_pick_next 0 (demo Sched_arinc653)) = Thr 1
   \<and> arinc_at 1000 (arinc_now 0 (demo Sched_arinc653)) \<and> arinc_owner (arinc_now 0 (demo Sched_arinc653)) = Some (Thr 1)"
proof -
  let ?s = "demo Sched_arinc653"
  have adv: "arinc653_advance 1000 demo_arinc = (True, 1060, demo_arinc\<lparr>frame_start_ticks := 1000,
      next_major_frame_ticks := 1100, sched_index := 0, next_switch_ticks := 1060\<rparr>)"
  proof -
    have "arinc653_advance_loop n now a = a" if "\<not> (sched_index a < entry_count a \<and> now \<ge> next_switch_ticks a)" for n now a
      using that by (cases n) auto
    then show ?thesis by (simp add: arinc653_advance_def arinc653_reframe_def arinc653_start_frame_def demo_arinc_def Let_def)
  qed
  have prog: "fst (arinc653_program_local_timer 0 1060 x)" if "timers x = timers ?s" for x
    using that by (simp add: arinc653_program_local_timer_def add_timer_def update_timer_def upd_arinc_def timer_is_started_def
        set_timer_mode_def Let_def split_def)
  have tab: "entry_count demo_arinc = 2" "ent_obj (entries demo_arinc ! 0) = Some (Thr 1)" "\<not> suspended demo_arinc"
    by (simp_all add: demo_arinc_def)
  have r: "fst (sched_arinc653_pick_next 0 ?s) = Thr 1"
    using adv prog tab by (simp add: sched_arinc653_pick_next_def Let_def split_def cpu_ticks_def upd_arinc_def arinc653_may_run_def)
  obtain t s' where P: "sched_arinc653_pick_next 0 ?s = (t, s')" by fastforce
  have "arinc_not_ahead (cpu_ticks ?s) (arinc_ctl ?s 0)" by (simp add: arinc_not_ahead_def demo_arinc_def)
  then show ?thesis using arinc653_runs_window_owner [OF demo_inv _ _ P] P r by (simp add: cpu_ticks_def)
qed

section \<open>Well-formed servers\<close>

text \<open>
  \<open>init_data\<close> of the three budget policies yields a well-formed server: a positive budget of
  at most one period, of which no more is left than the whole; for BFP with a priority above the idle
  one. (Under CBS and BFP it panics on parameters out of range; here it did not.)
\<close>

theorem servers_well_formed:
  assumes "2 \<le> khz s" and "\<not> is_idle_thread t s"
    and "fault (sched_cbs_init_data t params s) = None" and "fault (sched_bfp_init_data t params s) = None"
  shows "rtds_server (rtds t (sched_rtds_init_data t params s)) \<and> cbs_server (cbs t (sched_cbs_init_data t params s))
    \<and> bfp_server (bfp t (sched_bfp_init_data t params s)) \<and> PRIO_IDLE < bfp_priority (bfp t (sched_bfp_init_data t params s))"
  using rtds_init_data_server [OF assms(1)] cbs_init_data_server [OF assms(1,3)] bfp_init_data_server [OF assms(4,2)] by simp

section \<open>Instances of the properties of the components\<close>

text \<open>The hypotheses of the components' properties that speak of a whole system hold in the example system.\<close>

theorem cbs_admission_bounds_utilization_witness:
  "unat (fst (cbs_validate_pcpu_admission 0 ((demo Sched_cbs)\<lparr>vm_configs := demo_vms\<rparr>))) \<le> 1000000"
proof -
  let ?s = "(demo Sched_cbs)\<lparr>vm_configs := demo_vms\<rparr>"
  have a: "cbs_admit_vm 0 v (u, ?s) = (if v < 2 then (u + 500000, if u + 500000 > 1000000 then panic ''CBS admission failed'' ?s else ?s) else (u, ?s))" for v u
    using demo_normalize(1) [of ?s Sched_cbs]
    by (auto simp: cbs_admit_vm_def cbs_vm_uses_pcpu_def demo_vms_def Let_def CBS_UTIL_SCALE_def)
  have "cbs_validate_pcpu_admission 0 ?s = (1000000, ?s)"
    by (simp add: cbs_validate_pcpu_admission_def CONFIG_MAX_VM_NUM_def upt_rec a)
  then show ?thesis using cbs_admission_bounds_utilization [of 0 ?s 1000000 ?s] by simp
qed

theorem bfp_admission_response_bound_witness:
  "\<exists>R. R = bfp_workload (fst (bfp_collect_admission_tasks 0 ((demo Sched_bfp)\<lparr>vm_configs := demo_vms\<rparr>))) 1 R \<and> R \<le> 20000"
proof -
  let ?s = "(demo Sched_bfp)\<lparr>vm_configs := demo_vms\<rparr>"
  let ?ts = "[\<lparr>adm_vm_id = 0, adm_priority = 2, adm_period_us = 10000, adm_budget_us = 3000\<rparr>,
     \<lparr>adm_vm_id = 1, adm_priority = 1, adm_period_us = 20000, adm_budget_us = 5000\<rparr>]"
  have a: "bfp_collect_vm 0 v (ts, ?s) = (if v = 0 then ts @ [?ts ! 0] else if v = 1 then ts @ [?ts ! 1] else ts, ?s)" for v ts
    using demo_normalize(3) [of ?s Sched_bfp]
    by (auto simp: bfp_collect_vm_def bfp_vm_uses_pcpu_def demo_vms_def Let_def PRIO_IDLE_def)
  have c: "bfp_collect_admission_tasks 0 ?s = (?ts, ?s)"
    by (simp add: bfp_collect_admission_tasks_def CONFIG_MAX_VM_NUM_def upt_rec a)
  have d: "bfp_demand ?ts 0 3000 ?s = (3000, ?s)" "bfp_demand ?ts 1 5000 ?s = (8000, ?s)" "bfp_demand ?ts 1 8000 ?s = (8000, ?s)"
    by (simp_all add: bfp_demand_def bfp_add_interference_def upt_rec Let_def)
  have "bfp_response_loop ?ts 0 (Suc n) 3000 ?s = ?s" "bfp_response_loop ?ts 1 (Suc (Suc n)) 5000 ?s = ?s" for n
    using d by simp_all
  from this(1) [of 63] this(2) [of 62]
  have "bfp_response_loop ?ts 0 64 3000 ?s = ?s" "bfp_response_loop ?ts 1 64 5000 ?s = ?s" by (simp_all del: bfp_response_loop.simps)
  then have "fault (snd (bfp_validate_pcpu_admission 0 ?s)) = None"
    by (simp add: bfp_validate_pcpu_admission_def c bfp_validate_response_time_def BFP_RTA_MAX_ITERATIONS_def upt_rec)
  from bfp_admission_response_bound [OF this c, of 1] show ?thesis by (auto simp: c)
qed

theorem arinc653_set_get_round_trip_witness:
  "\<exists>s'. sched_arinc653_set_schedule 0 (Some demo_config) (demo Sched_arinc653) = (0, s')
     \<and> sched_arinc653_get_schedule 0 True s' = (0, Some demo_config)"
proof -
  have v: "arinc653_validate_config 1000 (Some demo_config) = Some 100"
    by (simp add: arinc653_validate_config_def demo_config_def us_to_ticks_def SCHED_ARINC653_MAX_ENTRIES_def
        CONFIG_MAX_VM_NUM_def MAX_VCPUS_PER_VM_def MAX_PCPU_NUM_def)
  have k: "entry_count (arinc_ctl (arinc653_resolve_entries 0 x) 0) = entry_count (arinc_ctl x 0)"
    "major_frame_ticks (arinc_ctl (arinc653_resolve_entries 0 x) 0) = major_frame_ticks (arinc_ctl x 0)" for x
    using arinc_plan_ok(2,3) [OF arinc_resolve_fold(1) [where c = 0 and q = 0 and s = x and idx = "[0..<entry_count (arinc_ctl x 0)]"]]
    by (simp_all add: arinc653_resolve_entries_def)
  have "fst (sched_arinc653_set_schedule 0 (Some demo_config) (demo Sched_arinc653)) = 0"
    by (simp add: sched_arinc653_set_schedule_def v cpu_ticks_def Let_def split_def arinc653_start_frame_def k upd_arinc_def)
      (simp add: demo_config_def)
  then obtain s' where r: "sched_arinc653_set_schedule 0 (Some demo_config) (demo Sched_arinc653) = (0, s')"
    by (metis prod.collapse)
  have "arinc_canonical demo_config"
    by (auto simp: arinc_canonical_def demo_config_def SCHED_ARINC653_MAX_ENTRIES_def nth_Cons')
  then show ?thesis using arinc653_set_get_round_trip [OF r] r by blast
qed

theorem arinc653_reinit_diverges_witness:
  "fault (sched_arinc653_init_data (Thr 2) zero_params (demo Sched_arinc653)) = Some Diverges"
proof -
  have "dll demo_lists (ThreadList 0) (map ThreadNode [Thr 1] @ [ThreadNode (Thr 2)])" by (simp add: dll_def demo_lists_def)
  then show ?thesis using arinc653_reinit_diverges [of "demo Sched_arinc653" 0 "[Thr 1]" "Thr 2" 1 zero_params]
    by (simp add: demo_arinc_def)
qed

theorem arinc653_advance_no_drift_witness:
  "\<exists>d a k. arinc653_advance 1275 (demo_arinc\<lparr>frame_start_ticks := 1000, next_major_frame_ticks := 1100,
       next_switch_ticks := 1060\<rparr>) = (True, d, a)
     \<and> unat (frame_start_ticks a) = 1000 + k * 100 \<and> 1275 < d"
proof -
  let ?a = "demo_arinc\<lparr>frame_start_ticks := 1000, next_major_frame_ticks := 1100, next_switch_ticks := 1060\<rparr>"
  have o: "arinc_offset ?a 1 = 60" "arinc_offset ?a 0 = 0" by (simp_all add: arinc_offset_def demo_arinc_def)
  have f: "arinc_frame ?a" using o by (simp add: arinc_frame_def) (simp add: demo_arinc_def)
  moreover have "arinc_ok ?a" using demo_arinc_ok f by (simp add: arinc_ok_def arinc_table_def arinc_offset_def)
  moreover have "arinc_not_ahead 1275 ?a" by (simp add: arinc_not_ahead_def)
  moreover have "fst (arinc653_advance 1275 ?a)"
    using arinc653_advance_ok(6) [OF \<open>arinc_ok ?a\<close>, of 1275]
    by (cases "arinc653_advance 1275 ?a") (simp add: arinc653_reframe_def demo_arinc_def Let_def)
  then obtain d a where "arinc653_advance 1275 ?a = (True, d, a)" by (metis prod.collapse)
  ultimately show ?thesis using arinc653_advance_no_drift [of ?a 1275 d a] by (auto simp: demo_arinc_def)
qed

section \<open>Scheduling proposals\<close>

text \<open>The properties of \<open>Sched_Smart\<close> at the example proposal.\<close>

theorem ai_proposal_sound_witness:
  "distinct (map ai_vmid (take 2 (ai_entries demo_ioc))) \<and> uint (600000 :: u64) = (\<Sum>ent\<leftarrow>take 2 (ai_entries demo_ioc).
     uint (ai_budget_us ent) * 1000000 div 10000)"
  using ai_proposal_sound [OF demo_ai_valid]
  by (auto simp: demo_ioc_def)

theorem ai_hcall_gate_witness:
  "snd (snd (snd (hcall_ai_sched (Some 0) (Some demo_ioc) (\<lambda>_. True) initial_gate demo_ai))) \<in> {demo_ai, tick_read demo_ai}
   \<and> fst (hcall_ai_sched (Some 0) (Some demo_ioc) (\<lambda>_. True) initial_gate demo_ai) \<noteq> 0"
proof -
  obtain ret out g' s' where h: "hcall_ai_sched (Some 0) (Some demo_ioc) (\<lambda>_. True) initial_gate demo_ai = (ret, out, g', s')"
    by (metis prod_cases4)
  show ?thesis using ai_hcall_gate [OF h] h
    by (auto simp: initial_gate_def demo_ioc_def ACRN_AI_SCHED_OP_REGISTER_def ACRN_AI_SCHED_OP_PROPOSE_def)
qed

section \<open>Virtual CPUs\<close>


theorem launch_vcpu_ready_witness:
  "\<exists>x'. launch_vcpu (\<lambda>y. y) (Some (1, 0)) (demo_host Sched_cbs VCPU_INIT) = (True, x')
     \<and> vcpu_get_state (Some (1, 0)) x' = VCPU_RUNNING
     \<and> (eligible 0 (Thr 2) (ssys x') \<or> freeze_epoch (threads (ssys x') (Thr 2)) \<noteq> 0 \<and> deferred_wake (threads (ssys x') (Thr 2)))"
proof -
  obtain ok x' where L: "launch_vcpu (\<lambda>y. y) (Some (1, 0)) (demo_host Sched_cbs VCPU_INIT) = (ok, x')" by fastforce
  note T = launch_vcpu_ready [where env = "\<lambda>y. y", OF _ demo_hosts(2) L, simplified]
  have ok using T by (simp add: vcpu_get_state_def)
  with T L show ?thesis by simp
qed

theorem create_destroy_vcpu_witness:
  "\<exists>x'. create_vcpu (\<lambda>_ s. s) 2 0 (demo_host Sched_iorr VCPU_INIT) = (0, x') \<and> thread_list (ssys x') = [Idle 0, Thr 1, Thr 2, Thr 3]
     \<and> thread_list (ssys (destroy_vcpu (\<lambda>_ s. s) (2, 0) x')) = [Idle 0, Thr 1, Thr 2]"
proof -
  let ?x = "demo_host Sched_iorr VCPU_INIT"
  obtain ret x' where C: "create_vcpu (\<lambda>_ s. s) 2 0 ?x = (ret, x')" by fastforce
  have t: "thread_obj (2, 0) = Thr 3" by (simp add: thread_obj_def)
  have n: "created_vcpus (vm_array ?x 2) = 0" by (simp add: demo_host_def)
  have "scheduler (sched_ctls (ssys ?x) 0) = Some Sched_iorr" "(2, 0) = (2, created_vcpus (vm_array ?x 2))" "thread_obj (2, 0) \<notin> set (thread_list (ssys ?x))"
    by (simp_all add: n t)
  from create_destroy_vcpu [OF this(1) _ _ this(2,3) C] show ?thesis using C by (simp add: n t MAX_VCPUS_PER_VM_def MAX_PCPU_NUM_def)
qed

theorem quiesced_vcpu_stays_off_witness:
  "is_vcpu_quiesced (Some (1, 0)) 5 ((demo_host Sched_rtds VCPU_PAUSED)\<lparr>ssys := demo_quiesced\<rparr>)
   \<and> curr 0 (wake_thread (sched_ops Sched_rtds) (Thr 2) demo_quiesced) \<noteq> Some (Thr 2)"
proof -
  let ?i = Sched_rtds and ?x = "(demo_host Sched_rtds VCPU_PAUSED)\<lparr>ssys := demo_quiesced\<rparr>"
  let ?r = "snd (request_thread_quiesce (Some (Thr 2)) 5 (demo ?i))"
  have ok: "request_thread_quiesce (Some (Thr 2)) 5 (demo ?i) = (True, ?r)"
    by (simp add: request_thread_quiesce_def quiesce_target_def quiesce_slot_def MAX_PCPU_NUM_def CONFIG_MAX_VM_NUM_def Let_def demo_def)
  have q: "is_thread_quiesced (Some (Thr 2)) 5 demo_quiesced"
    unfolding demo_quiesced_def by (rule quiesce_acked [OF ok]) (simp_all add: is_blocked_def)
  then have v: "is_vcpu_quiesced (Some (1, 0)) 5 ?x" by (simp add: is_vcpu_quiesced_def vcpu_get_state_def)
  have th: "threads demo_quiesced = demo_threads" by (simp add: demo_quiesced_def request_quiesce_slot(2))
  have R: "(recovery_step ?i 0)\<^sup>*\<^sup>* (demo ?i) (ssys ?x)"
    unfolding demo_quiesced_def by (simp, rule rtranclp.intros(2), rule rtranclp.intros(2), rule rtranclp.intros(1), rule Rc_quiesce, rule Rc_ack)
  have O: "one_per_slot 0 (demo ?i)"
  proof -
    have "t = Thr (Suc (vm_id (demo_threads t)))" if "is_vcpu (demo_threads t)" for t
      using that by (cases t) (auto split: if_splits)
    then show ?thesis unfolding one_per_slot_def demo_simps by metis
  qed
  have P: "(park_step ?i 0 (thread_obj (1, 0)))\<^sup>*\<^sup>* (ssys ?x) (wake_thread (sched_ops ?i) (Thr 2) demo_quiesced)"
    by (rule r_into_rtranclp) (simp, rule Pk_wake, simp add: managed_def th)
  have "curr 0 (wake_thread (sched_ops ?i) (Thr 2) demo_quiesced) \<noteq> Some (thread_obj (1, 0))"
    by (rule quiesced_vcpu_stays_off [OF R demo_inv O _ _ v _ P, THEN conjunct1])
      (simp_all add: MAX_PCPU_NUM_def demo_def pcpuid_from_vcpu_def th)
  with v show ?thesis by simp
qed

end
